theory Spec2Isabelle
  imports Main "HOL-Library.Multiset" "HOL-Library.Transitive_Closure_Table"
begin

section \<open>The graph module (FinalProject/part7/graph.c, graph.h)\<close>

text \<open>
  An adjacency entry is the struct \<open>EdgeNode\<close> without its \<open>next\<close> pointer: the
  singly linked list hanging off \<open>adj[u].head\<close> is the HOL list of its nodes, head first.
  A graph is the struct \<open>Graph\<close>: the vertex count and the array of adjacency lists.
  A \<open>Graph*\<close> that may be \<open>NULL\<close> is a \<open>Graph option\<close>. C \<open>int\<close> values are
  modelled as integers. The outcome of each \<open>malloc\<close>/\<open>calloc\<close> of the graph constructors
  is a boolean argument of the model (\<open>True\<close>: the allocation returned a block).
\<close>

record EdgeNode =
  en_to :: int
  en_weight :: int

record Graph =
  g_n :: int
  g_adj :: "EdgeNode list list"

definition in_bounds :: "Graph option \<Rightarrow> int \<Rightarrow> bool" where
  "in_bounds g v = (case g of None \<Rightarrow> False | Some gr \<Rightarrow> 0 \<le> v \<and> v < g_n gr)"

text \<open>The list \<open>g->adj[u]\<close>, for an index the caller has checked.\<close>

definition adj_list :: "Graph \<Rightarrow> int \<Rightarrow> EdgeNode list" where
  "adj_list g u = g_adj g ! nat u"

fun count_neighbor_loop :: "EdgeNode list \<Rightarrow> int \<Rightarrow> int \<Rightarrow> int" where
  "count_neighbor_loop [] v c = c"
| "count_neighbor_loop (e # es) v c = count_neighbor_loop es v (if en_to e = v then c + 1 else c)"

definition count_neighbor :: "Graph \<Rightarrow> int \<Rightarrow> int \<Rightarrow> int" where
  "count_neighbor g u v = count_neighbor_loop (adj_list g u) v 0"

definition edge_exists_simple :: "Graph \<Rightarrow> int \<Rightarrow> int \<Rightarrow> bool" where
  "edge_exists_simple g u v =
     (if u = v then count_neighbor g u u \<ge> 2 else count_neighbor g u v \<ge> 1)"

definition graph_create :: "bool \<Rightarrow> bool \<Rightarrow> int \<Rightarrow> Graph option" where
  "graph_create malloc_g calloc_adj n =
     (if n \<le> 0 then None
      else if \<not> malloc_g then None
      else if \<not> calloc_adj then None
      else Some \<lparr>g_n = n, g_adj = replicate (nat n) []\<rparr>)"

text \<open>
  \<open>graph_add_weighted_edge\<close> returns the C return code together with the graph after the
  call. \<open>m1\<close> and \<open>m2\<close> say whether the two \<open>malloc\<close> calls for \<open>e1\<close> and \<open>e2\<close> succeed.
\<close>

definition graph_add_weighted_edge ::
  "bool \<Rightarrow> bool \<Rightarrow> Graph option \<Rightarrow> int \<Rightarrow> int \<Rightarrow> int \<Rightarrow> int \<times> Graph option" where
  "graph_add_weighted_edge m1 m2 g u v w =
     (case g of
        None \<Rightarrow> (- 1, g)
      | Some gr \<Rightarrow>
          if \<not> in_bounds g u \<or> \<not> in_bounds g v then (- 1, g)
          else if edge_exists_simple gr u v then (- 3, g)
          else if u = v then
            (if \<not> m1 \<or> \<not> m2 then (- 2, g)
             else
               let e1 = \<lparr>en_to = u, en_weight = w\<rparr>;
                   e2 = \<lparr>en_to = u, en_weight = w\<rparr>
               in (0, Some (gr\<lparr>g_adj := (g_adj gr)[nat u := e2 # e1 # adj_list gr u]\<rparr>)))
          else
            (if \<not> m1 \<or> \<not> m2 then (- 2, g)
             else
               let e1 = \<lparr>en_to = v, en_weight = w\<rparr>;
                   e2 = \<lparr>en_to = u, en_weight = w\<rparr>;
                   next1 = adj_list gr u;
                   next2 = adj_list gr v
               in (0, Some (gr\<lparr>g_adj := ((g_adj gr)[nat u := e1 # next1])[nat v := e2 # next2]\<rparr>))))"

definition graph_add_edge ::
  "bool \<Rightarrow> bool \<Rightarrow> Graph option \<Rightarrow> int \<Rightarrow> int \<Rightarrow> int \<times> Graph option" where
  "graph_add_edge m1 m2 g u v = graph_add_weighted_edge m1 m2 g u v 1"

fun find_weight :: "EdgeNode list \<Rightarrow> int \<Rightarrow> int" where
  "find_weight [] v = 0"
| "find_weight (e # es) v = (if en_to e = v then en_weight e else find_weight es v)"

definition graph_get_edge_weight :: "Graph option \<Rightarrow> int \<Rightarrow> int \<Rightarrow> int" where
  "graph_get_edge_weight g u v =
     (case g of
        None \<Rightarrow> 0
      | Some gr \<Rightarrow>
          if \<not> in_bounds g u \<or> \<not> in_bounds g v then 0
          else find_weight (adj_list gr u) v)"

text \<open>
  What \<open>graph_create\<close> establishes about the storage: a positive vertex count and one
  adjacency list per vertex.
\<close>

definition graph_alloc :: "Graph \<Rightarrow> bool" where
  "graph_alloc g = (0 < g_n g \<and> length (g_adj g) = nat (g_n g))"

text \<open>Every adjacency entry of the graph carries a weight of at least 1.\<close>

definition weights_positive :: "Graph \<Rightarrow> bool" where
  "weights_positive g = list_all (list_all (\<lambda>e. 1 \<le> en_weight e)) (g_adj g)"

text \<open>
  Graphs built through the interface: \<open>graph_create\<close> followed by successful calls of
  \<open>graph_add_edge\<close> and \<open>graph_add_weighted_edge\<close>.
\<close>

inductive built :: "Graph \<Rightarrow> bool" where
  built_create: "graph_create a b k = Some g \<Longrightarrow> built g"
| built_add_edge:
    "built g \<Longrightarrow> graph_add_edge m1 m2 (Some g) u v = (0, Some g') \<Longrightarrow> built g'"
| built_add_weighted_edge:
    "built g \<Longrightarrow> graph_add_weighted_edge m1 m2 (Some g) u v w = (0, Some g') \<Longrightarrow> built g'"

text \<open>The same, where every weight handed to \<open>graph_add_weighted_edge\<close> is at least 1.\<close>

inductive built_pos :: "Graph \<Rightarrow> bool" where
  bp_create: "graph_create a b k = Some g \<Longrightarrow> built_pos g"
| bp_add_edge:
    "built_pos g \<Longrightarrow> graph_add_edge m1 m2 (Some g) u v = (0, Some g') \<Longrightarrow> built_pos g'"
| bp_add_weighted_edge:
    "built_pos g \<Longrightarrow> 1 \<le> w \<Longrightarrow>
     graph_add_weighted_edge m1 m2 (Some g) u v w = (0, Some g') \<Longrightarrow> built_pos g'"

section \<open>Basic facts about the graph module\<close>

lemma count_neighbor_loop_eq:
  "count_neighbor_loop es v c = c + int (length (filter (\<lambda>e. en_to e = v) es))"
  by (induction es arbitrary: c) auto

lemma count_neighbor_eq:
  "count_neighbor g u v = int (length (filter (\<lambda>e. en_to e = v) (adj_list g u)))"
  by (simp add: count_neighbor_def count_neighbor_loop_eq)

lemma find_weight_absent:
  "\<forall>e \<in> set es. en_to e \<noteq> v \<Longrightarrow> find_weight es v = 0"
  by (induction es) auto

lemma find_weight_nonzero:
  "find_weight es v \<noteq> 0 \<Longrightarrow> \<exists>e \<in> set es. en_to e = v \<and> en_weight e \<noteq> 0"
  by (induction es) (auto split: if_splits)

lemma graph_create_alloc: "graph_create a b k = Some g \<Longrightarrow> graph_alloc g"
  by (auto simp: graph_create_def graph_alloc_def split: if_splits)

lemma add_weighted_edge_fail_unchanged:
  "fst (graph_add_weighted_edge m1 m2 g u v w) \<noteq> 0 \<Longrightarrow>
   snd (graph_add_weighted_edge m1 m2 g u v w) = g"
  by (auto simp: graph_add_weighted_edge_def Let_def split: option.splits if_splits)

lemma add_weighted_edge_alloc:
  "graph_alloc g \<Longrightarrow> graph_add_weighted_edge m1 m2 (Some g) u v w = (c, Some g') \<Longrightarrow>
   graph_alloc g'"
  by (auto simp: graph_add_weighted_edge_def graph_alloc_def Let_def split: if_splits)

lemma built_alloc: "built g \<Longrightarrow> graph_alloc g"
  by (induction rule: built.induct)
     (auto simp: graph_add_edge_def dest: graph_create_alloc add_weighted_edge_alloc)

lemma list_all_update:
  "list_all P xs \<Longrightarrow> P x \<Longrightarrow> list_all P (xs[i := x])"
  by (induction xs arbitrary: i) (auto split: nat.splits)

lemma list_all_nth: "list_all P xs \<Longrightarrow> i < length xs \<Longrightarrow> P (xs ! i)"
  by (simp add: list_all_length)

lemma add_weighted_edge_weights_positive:
  assumes "weights_positive g" "graph_alloc g" "1 \<le> w"
    and "graph_add_weighted_edge m1 m2 (Some g) u v w = (0, Some g')"
  shows "weights_positive g'"
proof -
  from assms(4) have ib: "0 \<le> u" "u < g_n g" "0 \<le> v" "v < g_n g"
    by (auto simp: graph_add_weighted_edge_def in_bounds_def split: if_splits)
  with assms(2) have len: "nat u < length (g_adj g)" "nat v < length (g_adj g)"
    by (auto simp: graph_alloc_def)
  have pu: "list_all (\<lambda>e. 1 \<le> en_weight e) (adj_list g u)"
    and pv: "list_all (\<lambda>e. 1 \<le> en_weight e) (adj_list g v)"
    using assms(1) len by (auto simp: weights_positive_def adj_list_def intro: list_all_nth)
  show ?thesis
    using assms(4) assms(1) assms(3) pu pv
    by (auto simp: graph_add_weighted_edge_def weights_positive_def Let_def
             intro!: list_all_update split: if_splits)
qed

lemma add_weighted_edge_in_bounds:
  "graph_add_weighted_edge m1 m2 (Some g) u v w = (0, g') \<Longrightarrow>
   0 \<le> u \<and> u < g_n g \<and> 0 \<le> v \<and> v < g_n g"
  by (auto simp: graph_add_weighted_edge_def in_bounds_def split: if_splits)

lemma add_weighted_edge_adj_u:
  assumes "graph_alloc g" "graph_add_weighted_edge m1 m2 (Some g) u v w = (0, Some g')"
  shows "adj_list g' u =
     (if u = v then \<lparr>en_to = u, en_weight = w\<rparr> # \<lparr>en_to = u, en_weight = w\<rparr> # adj_list g u
      else \<lparr>en_to = v, en_weight = w\<rparr> # adj_list g u)"
proof -
  from add_weighted_edge_in_bounds[OF assms(2)] assms(1)
  have "nat u < length (g_adj g)" "nat v < length (g_adj g)" "u \<noteq> v \<Longrightarrow> nat u \<noteq> nat v"
    by (auto simp: graph_alloc_def)
  then show ?thesis
    using assms(2)
    by (auto simp: graph_add_weighted_edge_def adj_list_def Let_def split: if_splits)
qed

lemma add_weighted_edge_adj_v:
  assumes "graph_alloc g" "graph_add_weighted_edge m1 m2 (Some g) u v w = (0, Some g')" "u \<noteq> v"
  shows "adj_list g' v = \<lparr>en_to = u, en_weight = w\<rparr> # adj_list g v"
proof -
  from add_weighted_edge_in_bounds[OF assms(2)] assms(1)
  have "nat u < length (g_adj g)" "nat v < length (g_adj g)"
    by (auto simp: graph_alloc_def)
  then show ?thesis
    using assms(2,3)
    by (auto simp: graph_add_weighted_edge_def adj_list_def Let_def split: if_splits)
qed

lemma add_weighted_edge_adj_other:
  assumes "graph_add_weighted_edge m1 m2 (Some g) u v w = (0, Some g')"
    and "0 \<le> x" "x \<noteq> u" "x \<noteq> v"
  shows "adj_list g' x = adj_list g x"
proof -
  from add_weighted_edge_in_bounds[OF assms(1)] assms(2-4)
  have "nat x \<noteq> nat u" "nat x \<noteq> nat v" by auto
  then show ?thesis
    using assms(1)
    by (auto simp: graph_add_weighted_edge_def adj_list_def Let_def split: if_splits)
qed

lemma add_weighted_edge_n:
  "graph_add_weighted_edge m1 m2 (Some g) u v w = (c, Some g') \<Longrightarrow> g_n g' = g_n g"
  by (auto simp: graph_add_weighted_edge_def Let_def split: if_splits)

lemma add_weighted_edge_get_weight:
  assumes "graph_alloc g" "graph_add_weighted_edge m1 m2 (Some g) u v w = (0, Some g')"
  shows "graph_get_edge_weight (Some g') u v = w \<and> graph_get_edge_weight (Some g') v u = w"
proof -
  note ib = add_weighted_edge_in_bounds[OF assms(2)]
  note n = add_weighted_edge_n[OF assms(2)]
  have 1: "graph_get_edge_weight (Some g') u v = w"
    using ib n add_weighted_edge_adj_u[OF assms]
    by (simp add: graph_get_edge_weight_def in_bounds_def)
  have 2: "graph_get_edge_weight (Some g') v u = w"
  proof (cases "u = v")
    case True
    with 1 show ?thesis by simp
  next
    case False
    then show ?thesis
      using ib n add_weighted_edge_adj_v[OF assms False]
      by (simp add: graph_get_edge_weight_def in_bounds_def)
  qed
  from 1 2 show ?thesis ..
qed

lemma add_weighted_edge_then_duplicate:
  assumes "graph_alloc g" "graph_add_weighted_edge m1 m2 (Some g) u v w = (0, Some g')" "u \<noteq> v"
  shows "fst (graph_add_weighted_edge m3 m4 (Some g') u v w') = - 3"
    and "fst (graph_add_weighted_edge m5 m6 (Some g') v u w'') = - 3"
proof -
  note ib = add_weighted_edge_in_bounds[OF assms(2)]
  note n = add_weighted_edge_n[OF assms(2)]
  have "edge_exists_simple g' u v"
    using assms(3) add_weighted_edge_adj_u[OF assms(1,2)]
    by (simp add: edge_exists_simple_def count_neighbor_eq)
  then show "fst (graph_add_weighted_edge m3 m4 (Some g') u v w') = - 3"
    using ib n by (simp add: graph_add_weighted_edge_def in_bounds_def)
  have "edge_exists_simple g' v u"
    using assms(3) add_weighted_edge_adj_v[OF assms]
    by (simp add: edge_exists_simple_def count_neighbor_eq)
  then show "fst (graph_add_weighted_edge m5 m6 (Some g') v u w'') = - 3"
    using ib n by (simp add: graph_add_weighted_edge_def in_bounds_def)
qed

lemma built_pos_built: "built_pos g \<Longrightarrow> built g"
  by (induction rule: built_pos.induct) (auto intro: built.intros)

text \<open>A two-vertex graph with the single edge \<open>0--1\<close> of weight \<open>w\<close>.\<close>

definition one_edge_graph :: "int \<Rightarrow> Graph" where
  "one_edge_graph w =
     \<lparr>g_n = 2, g_adj = [[\<lparr>en_to = 1, en_weight = w\<rparr>], [\<lparr>en_to = 0, en_weight = w\<rparr>]]\<rparr>"

lemma create_two: "graph_create True True 2 = Some \<lparr>g_n = 2, g_adj = [[], []]\<rparr>"
  by (simp add: graph_create_def numeral_2_eq_2)

lemma add_to_empty_two:
  "graph_add_weighted_edge True True (Some \<lparr>g_n = 2, g_adj = [[], []]\<rparr>) 0 1 w
     = (0, Some (one_edge_graph w))"
  by (simp add: graph_add_weighted_edge_def in_bounds_def edge_exists_simple_def
      count_neighbor_def adj_list_def one_edge_graph_def)

lemma one_edge_graph_alloc: "graph_alloc (one_edge_graph w)"
  by (simp add: graph_alloc_def one_edge_graph_def)

definition targets_in_range :: "Graph \<Rightarrow> bool" where
  "targets_in_range g =
     (\<forall>u. 0 \<le> u \<and> u < g_n g \<longrightarrow> (\<forall>e \<in> set (adj_list g u). 0 \<le> en_to e \<and> en_to e < g_n g))"

definition sym_counts :: "Graph \<Rightarrow> bool" where
  "sym_counts g =
     (\<forall>u v. 0 \<le> u \<and> u < g_n g \<and> 0 \<le> v \<and> v < g_n g \<longrightarrow>
        count_neighbor g u v = count_neighbor g v u)"

definition simple_policy :: "Graph \<Rightarrow> bool" where
  "simple_policy g =
     (\<forall>u v. 0 \<le> u \<and> u < g_n g \<and> 0 \<le> v \<and> v < g_n g \<longrightarrow>
        (u = v \<longrightarrow> count_neighbor g u u = 0 \<or> count_neighbor g u u = 2) \<and>
        (u \<noteq> v \<longrightarrow> count_neighbor g u v \<le> 1))"

definition sym_weights :: "Graph \<Rightarrow> bool" where
  "sym_weights g =
     (\<forall>u v. 0 \<le> u \<and> u < g_n g \<and> 0 \<le> v \<and> v < g_n g \<longrightarrow>
        (\<forall>e \<in> set (adj_list g u). \<forall>e' \<in> set (adj_list g v).
           en_to e = v \<and> en_to e' = u \<longrightarrow> en_weight e' = en_weight e))"

definition graph_inv :: "Graph \<Rightarrow> bool" where
  "graph_inv g =
     (graph_alloc g \<and> targets_in_range g \<and> sym_counts g \<and> simple_policy g \<and> sym_weights g)"

lemma inv_alloc: "graph_inv g \<Longrightarrow> graph_alloc g"
  by (simp add: graph_inv_def)

lemma inv_targets:
  "graph_inv g \<Longrightarrow> 0 \<le> u \<Longrightarrow> u < g_n g \<Longrightarrow> e \<in> set (adj_list g u) \<Longrightarrow>
   0 \<le> en_to e \<and> en_to e < g_n g"
  unfolding graph_inv_def targets_in_range_def by blast

lemma inv_count_sym:
  "graph_inv g \<Longrightarrow> 0 \<le> u \<Longrightarrow> u < g_n g \<Longrightarrow> 0 \<le> v \<Longrightarrow> v < g_n g \<Longrightarrow>
   count_neighbor g u v = count_neighbor g v u"
  unfolding graph_inv_def sym_counts_def by blast

lemma inv_loop_count:
  "graph_inv g \<Longrightarrow> 0 \<le> u \<Longrightarrow> u < g_n g \<Longrightarrow>
   count_neighbor g u u = 0 \<or> count_neighbor g u u = 2"
  unfolding graph_inv_def simple_policy_def by blast

lemma inv_count_le1:
  "graph_inv g \<Longrightarrow> 0 \<le> u \<Longrightarrow> u < g_n g \<Longrightarrow> 0 \<le> v \<Longrightarrow> v < g_n g \<Longrightarrow> u \<noteq> v \<Longrightarrow>
   count_neighbor g u v \<le> 1"
  unfolding graph_inv_def simple_policy_def by blast

lemma inv_weights:
  "graph_inv g \<Longrightarrow> 0 \<le> u \<Longrightarrow> u < g_n g \<Longrightarrow> 0 \<le> v \<Longrightarrow> v < g_n g \<Longrightarrow>
   e \<in> set (adj_list g u) \<Longrightarrow> e' \<in> set (adj_list g v) \<Longrightarrow> en_to e = v \<Longrightarrow> en_to e' = u \<Longrightarrow>
   en_weight e' = en_weight e"
  unfolding graph_inv_def sym_weights_def by blast

definition edge_delta :: "int \<Rightarrow> int \<Rightarrow> int \<Rightarrow> int \<Rightarrow> int" where
  "edge_delta u v a b =
     (if u = v then (if a = u \<and> b = u then 2 else 0)
      else if (a = u \<and> b = v) \<or> (a = v \<and> b = u) then 1 else 0)"

lemma edge_delta_sym: "edge_delta u v a b = edge_delta u v b a"
  unfolding edge_delta_def
  by (cases "u = v"; cases "a = u"; cases "b = u"; cases "a = v"; cases "b = v"; simp)

lemma add_weighted_edge_set:
  assumes "graph_alloc g" "graph_add_weighted_edge m1 m2 (Some g) u v w = (0, Some g')" "0 \<le> x"
  shows "set (adj_list g' x) = set (adj_list g x) \<union>
           (if x = u then {\<lparr>en_to = v, en_weight = w\<rparr>} else {}) \<union>
           (if x = v then {\<lparr>en_to = u, en_weight = w\<rparr>} else {})"
proof -
  consider "x = u" | "x \<noteq> u" "x = v" | "x \<noteq> u" "x \<noteq> v" by blast
  then show ?thesis
  proof cases
    case 1
    then show ?thesis using add_weighted_edge_adj_u[OF assms(1,2)] by auto
  next
    case 2
    then show ?thesis using add_weighted_edge_adj_v[OF assms(1,2)] by auto
  next
    case 3
    then show ?thesis using add_weighted_edge_adj_other[OF assms(2,3)] by auto
  qed
qed

lemma add_weighted_edge_count:
  assumes "graph_alloc g" "graph_add_weighted_edge m1 m2 (Some g) u v w = (0, Some g')" "0 \<le> x"
  shows "count_neighbor g' x y = count_neighbor g x y +
           (if u = v then (if x = u \<and> y = u then 2 else 0)
            else if (x = u \<and> y = v) \<or> (x = v \<and> y = u) then 1 else 0)"
proof -
  consider "x = u" | "x \<noteq> u" "x = v" | "x \<noteq> u" "x \<noteq> v" by blast
  then show ?thesis
  proof cases
    case 1
    then show ?thesis using add_weighted_edge_adj_u[OF assms(1,2)]
      by (auto simp: count_neighbor_eq)
  next
    case 2
    then show ?thesis using add_weighted_edge_adj_v[OF assms(1,2)]
      by (auto simp: count_neighbor_eq)
  next
    case 3
    then show ?thesis using add_weighted_edge_adj_other[OF assms(2,3)]
      by (auto simp: count_neighbor_eq)
  qed
qed

lemma count_neighbor_nonneg: "0 \<le> count_neighbor g u v"
  by (simp add: count_neighbor_eq)

lemma count_zero_no_entry:
  "count_neighbor g u v = 0 \<Longrightarrow> e \<in> set (adj_list g u) \<Longrightarrow> en_to e \<noteq> v"
  by (auto simp: count_neighbor_eq filter_empty_conv)

lemma add_weighted_edge_absent:
  assumes "graph_inv g" "graph_add_weighted_edge m1 m2 (Some g) u v w = (0, Some g')"
  shows "count_neighbor g u v = 0" "count_neighbor g v u = 0"
proof -
  note ib = add_weighted_edge_in_bounds[OF assms(2)]
  have ne: "\<not> edge_exists_simple g u v"
    using assms(2) by (auto simp: graph_add_weighted_edge_def split: if_splits)
  show 1: "count_neighbor g u v = 0"
  proof (cases "u = v")
    case True
    then show ?thesis using ne inv_loop_count[OF assms(1), of u] ib
      by (auto simp: edge_exists_simple_def)
  next
    case False
    then show ?thesis using ne count_neighbor_nonneg[of g u v]
      by (auto simp: edge_exists_simple_def)
  qed
  show "count_neighbor g v u = 0"
    using 1 inv_count_sym[OF assms(1), of u v] ib by simp
qed

lemma add_weighted_edge_targets:
  assumes "graph_inv g" "graph_add_weighted_edge m1 m2 (Some g) u v w = (0, Some g')"
  shows "targets_in_range g'"
  unfolding targets_in_range_def
proof (intro allI impI ballI)
  note ib = add_weighted_edge_in_bounds[OF assms(2)]
  note n = add_weighted_edge_n[OF assms(2)]
  note st = add_weighted_edge_set[OF inv_alloc[OF assms(1)] assms(2)]
  fix x e assume r: "0 \<le> x \<and> x < g_n g'" and e: "e \<in> set (adj_list g' x)"
  from e r have "e \<in> set (adj_list g x) \<or> e = \<lparr>en_to = v, en_weight = w\<rparr>
      \<or> e = \<lparr>en_to = u, en_weight = w\<rparr>"
    by (auto simp: st split: if_splits)
  then show "0 \<le> en_to e \<and> en_to e < g_n g'"
    using inv_targets[OF assms(1), of x e] r ib n by auto
qed

lemma add_weighted_edge_sym_counts:
  assumes "graph_inv g" "graph_add_weighted_edge m1 m2 (Some g) u v w = (0, Some g')"
  shows "sym_counts g'"
  unfolding sym_counts_def
proof (intro allI impI)
  note n = add_weighted_edge_n[OF assms(2)]
  note ct = add_weighted_edge_count[OF inv_alloc[OF assms(1)] assms(2)]
  fix x y assume r: "0 \<le> x \<and> x < g_n g' \<and> 0 \<le> y \<and> y < g_n g'"
  then have "count_neighbor g x y = count_neighbor g y x"
    using inv_count_sym[OF assms(1), of x y] n by simp
  moreover have "count_neighbor g' x y = count_neighbor g x y + edge_delta u v x y"
    unfolding edge_delta_def using r by (intro ct) simp
  moreover have "count_neighbor g' y x = count_neighbor g y x + edge_delta u v y x"
    unfolding edge_delta_def using r by (intro ct) simp
  ultimately show "count_neighbor g' x y = count_neighbor g' y x"
    using edge_delta_sym[of u v x y] by linarith
qed

lemma add_weighted_edge_simple:
  assumes "graph_inv g" "graph_add_weighted_edge m1 m2 (Some g) u v w = (0, Some g')"
  shows "simple_policy g'"
  unfolding simple_policy_def
proof (intro allI impI)
  note n = add_weighted_edge_n[OF assms(2)]
  note ct = add_weighted_edge_count[OF inv_alloc[OF assms(1)] assms(2)]
  note ab = add_weighted_edge_absent[OF assms]
  fix x y assume r: "0 \<le> x \<and> x < g_n g' \<and> 0 \<le> y \<and> y < g_n g'"
  then have old1: "count_neighbor g x x = 0 \<or> count_neighbor g x x = 2"
    using inv_loop_count[OF assms(1), of x] n by simp
  have old2: "x \<noteq> y \<Longrightarrow> count_neighbor g x y \<le> 1"
    using inv_count_le1[OF assms(1), of x y] n r by simp
  have cxx: "count_neighbor g' x x = count_neighbor g x x + (if u = v \<and> x = u then 2 else 0)"
    using ct[of x x] r by auto
  have a: "x = y \<longrightarrow> count_neighbor g' x x = 0 \<or> count_neighbor g' x x = 2"
    using old1 ab cxx by (cases "u = v \<and> x = u") auto
  have cxy: "x \<noteq> y \<Longrightarrow> count_neighbor g' x y = count_neighbor g x y +
      (if (x = u \<and> y = v) \<or> (x = v \<and> y = u) then 1 else 0)"
    using ct[of x y] r by auto
  have b: "x \<noteq> y \<longrightarrow> count_neighbor g' x y \<le> 1"
  proof
    assume ne: "x \<noteq> y"
    show "count_neighbor g' x y \<le> 1"
    proof (cases "(x = u \<and> y = v) \<or> (x = v \<and> y = u)")
      case True
      then have "count_neighbor g x y = 0" using ab by auto
      with True cxy[OF ne] show ?thesis by simp
    next
      case False
      with cxy[OF ne] old2[OF ne] show ?thesis by simp
    qed
  qed
  from a b show "(x = y \<longrightarrow> count_neighbor g' x x = 0 \<or> count_neighbor g' x x = 2) \<and>
        (x \<noteq> y \<longrightarrow> count_neighbor g' x y \<le> 1)" ..
qed

lemma add_weighted_edge_sym_weights:
  assumes "graph_inv g" "graph_add_weighted_edge m1 m2 (Some g) u v w = (0, Some g')"
  shows "sym_weights g'"
  unfolding sym_weights_def
proof (intro allI impI ballI)
  note n = add_weighted_edge_n[OF assms(2)]
  note st = add_weighted_edge_set[OF inv_alloc[OF assms(1)] assms(2)]
  note ab = add_weighted_edge_absent[OF assms]
  fix x y e e'
  assume r: "0 \<le> x \<and> x < g_n g' \<and> 0 \<le> y \<and> y < g_n g'"
    and e: "e \<in> set (adj_list g' x)" and e': "e' \<in> set (adj_list g' y)"
    and t: "en_to e = y \<and> en_to e' = x"
  have old: "e \<in> set (adj_list g x) \<Longrightarrow> e' \<in> set (adj_list g y) \<Longrightarrow> en_weight e' = en_weight e"
    using inv_weights[OF assms(1), of x y e e'] r n t by simp
  from e r have e_cases: "e \<in> set (adj_list g x) \<or> (x = u \<and> e = \<lparr>en_to = v, en_weight = w\<rparr>)
      \<or> (x = v \<and> e = \<lparr>en_to = u, en_weight = w\<rparr>)"
    by (auto simp: st split: if_splits)
  from e' r have e'_cases: "e' \<in> set (adj_list g y) \<or> (y = u \<and> e' = \<lparr>en_to = v, en_weight = w\<rparr>)
      \<or> (y = v \<and> e' = \<lparr>en_to = u, en_weight = w\<rparr>)"
    by (auto simp: st split: if_splits)
  have new_w: "e \<notin> set (adj_list g x) \<Longrightarrow> en_weight e = w \<and> ((x = u \<and> y = v) \<or> (x = v \<and> y = u))"
    using e_cases t by auto
  have new_w': "e' \<notin> set (adj_list g y) \<Longrightarrow> en_weight e' = w \<and> ((x = u \<and> y = v) \<or> (x = v \<and> y = u))"
    using e'_cases t by auto
  have no_old: "(x = u \<and> y = v) \<or> (x = v \<and> y = u) \<Longrightarrow>
      e \<notin> set (adj_list g x) \<and> e' \<notin> set (adj_list g y)"
    using t count_zero_no_entry[OF ab(1)] count_zero_no_entry[OF ab(2)] by blast
  show "en_weight e' = en_weight e"
    using old new_w new_w' no_old by blast
qed

lemma add_weighted_edge_inv:
  assumes "graph_inv g" "graph_add_weighted_edge m1 m2 (Some g) u v w = (0, Some g')"
  shows "graph_inv g'"
  using add_weighted_edge_alloc[OF inv_alloc[OF assms(1)] assms(2)]
    add_weighted_edge_targets[OF assms] add_weighted_edge_sym_counts[OF assms]
    add_weighted_edge_simple[OF assms] add_weighted_edge_sym_weights[OF assms]
  by (simp add: graph_inv_def)

lemma graph_create_inv: "graph_create a b k = Some g \<Longrightarrow> graph_inv g"
  by (auto simp: graph_create_def graph_inv_def graph_alloc_def targets_in_range_def
      sym_counts_def simple_policy_def sym_weights_def adj_list_def count_neighbor_def
      split: if_splits)

lemma built_inv: "built g \<Longrightarrow> graph_inv g"
  by (induction rule: built.induct)
     (auto simp: graph_add_edge_def dest: graph_create_inv add_weighted_edge_inv)

section \<open>Claims about the graph module\<close>

text \<open>
  C5. For every graph and every pair of distinct vertices \<open>u\<close>, \<open>v\<close>: when
  \<open>graph_add_edge(g,u,v)\<close> returns 0 (which forces both vertices to be in range), the
  weights read back by \<open>graph_get_edge_weight\<close> in the two directions are equal and
  strictly positive, and a further \<open>graph_add_edge\<close> of the same pair, in either
  orientation and whatever the allocator does, returns -3 (duplicate).
\<close>

theorem add_edge_symmetric_then_duplicate:
  assumes "graph_alloc g" and "u \<noteq> v"
    and "graph_add_edge m1 m2 (Some g) u v = (0, Some g')"
  shows "graph_get_edge_weight (Some g') u v = graph_get_edge_weight (Some g') v u
       \<and> 0 < graph_get_edge_weight (Some g') u v
       \<and> fst (graph_add_edge m3 m4 (Some g') u v) = - 3
       \<and> fst (graph_add_edge m5 m6 (Some g') v u) = - 3"
  using add_weighted_edge_get_weight[OF assms(1), of m1 m2 u v 1 g']
    add_weighted_edge_then_duplicate[OF assms(1), of m1 m2 u v 1 g'] assms(2,3)
  by (simp add: graph_add_edge_def)

theorem add_edge_symmetric_then_duplicate_witness:
  "graph_alloc \<lparr>g_n = 2, g_adj = [[], []]\<rparr> \<and> (0::int) \<noteq> 1
   \<and> graph_add_edge True True (Some \<lparr>g_n = 2, g_adj = [[], []]\<rparr>) 0 1 = (0, Some (one_edge_graph 1))
   \<and> graph_get_edge_weight (Some (one_edge_graph 1)) 0 1
       = graph_get_edge_weight (Some (one_edge_graph 1)) 1 0
   \<and> 0 < graph_get_edge_weight (Some (one_edge_graph 1)) 0 1
   \<and> fst (graph_add_edge True True (Some (one_edge_graph 1)) 0 1) = - 3
   \<and> fst (graph_add_edge True True (Some (one_edge_graph 1)) 1 0) = - 3"
proof -
  have a: "graph_alloc \<lparr>g_n = 2, g_adj = [[], []]\<rparr>" by (simp add: graph_alloc_def)
  have b: "(0::int) \<noteq> 1" by simp
  have c: "graph_add_edge True True (Some \<lparr>g_n = 2, g_adj = [[], []]\<rparr>) 0 1
             = (0, Some (one_edge_graph 1))"
    by (simp add: graph_add_edge_def add_to_empty_two)
  from add_edge_symmetric_then_duplicate[OF a b c, of True True True True] a b c
  show ?thesis by simp
qed

text \<open>
  C7, as stated: every graph built by \<open>graph_create\<close> and successful \<open>graph_add_edge\<close> /
  \<open>graph_add_weighted_edge\<close> calls has only weights \<open>\<ge> 1\<close>. This fails:
  \<open>graph_add_weighted_edge\<close> stores the weight it is given without looking at it, so
  \<open>graph_add_weighted_edge(g, 0, 1, 0)\<close> on a fresh two-vertex graph succeeds and leaves
  two entries of weight 0.
\<close>

theorem built_weights_positive_counterexample:
  "built (one_edge_graph 0) \<and> \<not> weights_positive (one_edge_graph 0)"
proof
  have "built \<lparr>g_n = 2, g_adj = [[], []]\<rparr>"
    by (rule built_create[OF create_two])
  then show "built (one_edge_graph 0)"
    by (rule built_add_weighted_edge[OF _ add_to_empty_two])
  show "\<not> weights_positive (one_edge_graph 0)"
    by (simp add: weights_positive_def one_edge_graph_def)
qed

text \<open>
  C7, amended: for every graph built by \<open>graph_create\<close> followed by successful
  \<open>graph_add_edge\<close> calls and successful \<open>graph_add_weighted_edge\<close> calls whose weight
  argument is at least 1, every adjacency entry's weight is at least 1; and an edge added
  by \<open>graph_add_edge\<close> (no weight given) reads back with weight 1 in both directions.
\<close>

theorem built_pos_weights_positive:
  assumes "built_pos g"
  shows "weights_positive g
       \<and> (\<forall>m1 m2 u v g'. graph_add_edge m1 m2 (Some g) u v = (0, Some g') \<longrightarrow>
            graph_get_edge_weight (Some g') u v = 1 \<and> graph_get_edge_weight (Some g') v u = 1)"
proof
  show "weights_positive g"
    using assms
  proof (induction rule: built_pos.induct)
    case (bp_create a b k g)
    then show ?case
      by (auto simp: graph_create_def weights_positive_def list_all_length split: if_splits)
  next
    case (bp_add_edge g m1 m2 u v g')
    then show ?case
      using add_weighted_edge_weights_positive[of g 1 m1 m2 u v g']
      by (simp add: graph_add_edge_def built_alloc built_pos_built)
  next
    case (bp_add_weighted_edge g w m1 m2 u v g')
    then show ?case
      using add_weighted_edge_weights_positive[of g w m1 m2 u v g']
      by (simp add: built_alloc built_pos_built)
  qed
  have "graph_alloc g" using assms by (simp add: built_alloc built_pos_built)
  then show "\<forall>m1 m2 u v g'. graph_add_edge m1 m2 (Some g) u v = (0, Some g') \<longrightarrow>
            graph_get_edge_weight (Some g') u v = 1 \<and> graph_get_edge_weight (Some g') v u = 1"
    using add_weighted_edge_get_weight by (auto simp: graph_add_edge_def)
qed

theorem built_pos_weights_positive_witness:
  "built_pos (one_edge_graph 5) \<and> weights_positive (one_edge_graph 5)"
proof -
  have "built_pos \<lparr>g_n = 2, g_adj = [[], []]\<rparr>"
    by (rule bp_create[OF create_two])
  then have b: "built_pos (one_edge_graph 5)"
    by (rule bp_add_weighted_edge[OF _ _ add_to_empty_two]) simp
  from built_pos_weights_positive[OF b] b show ?thesis by simp
qed

text \<open>
  C9. When \<open>graph_add_weighted_edge\<close> returns -2 (out of memory: one of its two \<open>malloc\<close>
  calls failed), the graph after the call is the graph before it: no adjacency list has
  gained or lost an entry and no list head has changed.
\<close>

theorem add_weighted_edge_oom_unchanged:
  "fst (graph_add_weighted_edge m1 m2 g u v w) = - 2 \<Longrightarrow>
   snd (graph_add_weighted_edge m1 m2 g u v w) = g"
  by (rule add_weighted_edge_fail_unchanged) simp

theorem add_weighted_edge_oom_unchanged_witness:
  "fst (graph_add_weighted_edge True False (Some (one_edge_graph 3)) 1 1 4) = - 2
   \<and> snd (graph_add_weighted_edge True False (Some (one_edge_graph 3)) 1 1 4)
       = Some (one_edge_graph 3)"
proof -
  have a: "fst (graph_add_weighted_edge True False (Some (one_edge_graph 3)) 1 1 4) = - 2"
    by (simp add: graph_add_weighted_edge_def in_bounds_def edge_exists_simple_def
        count_neighbor_def adj_list_def one_edge_graph_def)
  from add_weighted_edge_oom_unchanged[OF a] a show ?thesis by simp
qed

text \<open>
  C10. \<open>graph_get_edge_weight\<close> returns 0 when the graph pointer is \<open>NULL\<close>, when \<open>u\<close> or
  \<open>v\<close> lies outside \<open>[0,n)\<close>, and when no entry of \<open>adj[u]\<close> points to \<open>v\<close>; it has no
  other way to report an invalid argument, so the three cases are indistinguishable to
  the caller, and a nonzero result implies valid arguments and a stored entry.
\<close>

theorem get_edge_weight_zero_cases:
  "graph_get_edge_weight None u v = 0
   \<and> (u < 0 \<or> g_n gr \<le> u \<or> v < 0 \<or> g_n gr \<le> v \<longrightarrow> graph_get_edge_weight (Some gr) u v = 0)
   \<and> ((\<forall>e \<in> set (adj_list gr u). en_to e \<noteq> v) \<longrightarrow> graph_get_edge_weight (Some gr) u v = 0)
   \<and> (graph_get_edge_weight g u v \<noteq> 0 \<longrightarrow>
        (\<exists>g'. g = Some g' \<and> 0 \<le> u \<and> u < g_n g' \<and> 0 \<le> v \<and> v < g_n g'
             \<and> (\<exists>e \<in> set (adj_list g' u). en_to e = v \<and> en_weight e \<noteq> 0)))"
  by (auto simp: graph_get_edge_weight_def in_bounds_def find_weight_absent
           dest: find_weight_nonzero split: option.splits if_splits)

theorem get_edge_weight_zero_cases_witness:
  "graph_get_edge_weight None 0 1 = 0
   \<and> graph_get_edge_weight (Some (one_edge_graph 7)) 0 2 = 0
   \<and> graph_get_edge_weight (Some (one_edge_graph 7)) (- 1) 0 = 0
   \<and> graph_get_edge_weight (Some (one_edge_graph 7)) 0 0 = 0
   \<and> graph_get_edge_weight (Some (one_edge_graph 7)) 0 1 = 7"
proof -
  have "graph_get_edge_weight (Some (one_edge_graph 7)) 0 1 = 7"
    by (simp add: graph_get_edge_weight_def in_bounds_def adj_list_def one_edge_graph_def)
  moreover have "graph_get_edge_weight (Some (one_edge_graph 7)) 0 0 = 0"
    using get_edge_weight_zero_cases[of 0 0 "one_edge_graph 7" None]
    by (simp add: graph_get_edge_weight_def in_bounds_def adj_list_def one_edge_graph_def)
  ultimately show ?thesis
    using get_edge_weight_zero_cases[of 0 2 "one_edge_graph 7" None]
      get_edge_weight_zero_cases[of "- 1" 0 "one_edge_graph 7" None]
      get_edge_weight_zero_cases[of 0 1 "one_edge_graph 7" None]
    by (simp add: one_edge_graph_def)
qed

section \<open>Weighted requests in the servers\<close>

text \<open>
  The leader/follower server (FinalProject/part8/server.c, \<open>process_weighted_request\<close>) and
  the pipeline server (FinalProject/part11/server_pipeline.c, \<open>handle_client_request\<close>)
  share the same loop body for a triplet \<open>(src, dest, weight)\<close>: call \<open>graph_add_edge\<close>,
  discard its return value, then scan \<open>adj[src]\<close> and, when \<open>src \<noteq> dest\<close>, \<open>adj[dest]\<close>
  and overwrite the weight of every entry that points to the other endpoint.
\<close>

fun rewrite_weights :: "EdgeNode list \<Rightarrow> int \<Rightarrow> int \<Rightarrow> EdgeNode list" where
  "rewrite_weights [] dest weight = []"
| "rewrite_weights (e # es) dest weight =
     (if en_to e = dest then e\<lparr>en_weight := weight\<rparr> else e) # rewrite_weights es dest weight"

definition update_weights_manually :: "Graph \<Rightarrow> int \<Rightarrow> int \<Rightarrow> int \<Rightarrow> Graph" where
  "update_weights_manually g src dest weight =
     (let g1 = g\<lparr>g_adj := (g_adj g)[nat src := rewrite_weights (adj_list g src) dest weight]\<rparr>
      in if src \<noteq> dest
         then g1\<lparr>g_adj := (g_adj g1)[nat dest := rewrite_weights (adj_list g1 dest) src weight]\<rparr>
         else g1)"

definition process_weighted_triplet ::
  "bool \<Rightarrow> bool \<Rightarrow> int \<Rightarrow> Graph \<Rightarrow> int \<times> int \<times> int \<Rightarrow> Graph" where
  "process_weighted_triplet m1 m2 n g t =
     (case t of (src, dest, weight) \<Rightarrow>
        if src \<ge> 0 \<and> src < n \<and> dest \<ge> 0 \<and> dest < n \<and> weight > 0 then
          (case snd (graph_add_edge m1 m2 (Some g) src dest) of
             None \<Rightarrow> g
           | Some g1 \<Rightarrow> update_weights_manually g1 src dest weight)
        else g)"

text \<open>The loop over the request's triplets; each triplet comes with its two allocation outcomes.\<close>

fun process_weighted_edges ::
  "int \<Rightarrow> Graph \<Rightarrow> ((bool \<times> bool) \<times> (int \<times> int \<times> int)) list \<Rightarrow> Graph" where
  "process_weighted_edges n g [] = g"
| "process_weighted_edges n g (((m1, m2), t) # ts) =
     process_weighted_edges n (process_weighted_triplet m1 m2 n g t) ts"

text \<open>
  The older server (OS_project/part7/server.c, \<open>process_mst_weighted_request\<close>) works in two
  passes. The first adds the edges and records \<open>(src, dest, weight)\<close> in \<open>weighted_edges\<close>
  only when \<open>graph_add_edge\<close> returned 0; the second rewrites the weights of the recorded
  edges.
\<close>

definition mst_add_triplet ::
  "bool \<Rightarrow> bool \<Rightarrow> int \<Rightarrow> Graph \<times> (int \<times> int \<times> int) list \<Rightarrow> int \<times> int \<times> int
     \<Rightarrow> Graph \<times> (int \<times> int \<times> int) list" where
  "mst_add_triplet m1 m2 n st t =
     (case (st, t) of ((g, weighted_edges), (src, dest, weight)) \<Rightarrow>
        if src < 0 \<or> src \<ge> n \<or> dest < 0 \<or> dest \<ge> n then (g, weighted_edges)
        else if weight \<le> 0 then (g, weighted_edges)
        else
          (case graph_add_edge m1 m2 (Some g) src dest of
             (result, None) \<Rightarrow> (g, weighted_edges)
           | (result, Some g1) \<Rightarrow>
               if result = 0 then (g1, weighted_edges @ [(src, dest, weight)])
               else (g1, weighted_edges)))"

fun mst_update_weights :: "Graph \<Rightarrow> (int \<times> int \<times> int) list \<Rightarrow> Graph" where
  "mst_update_weights g [] = g"
| "mst_update_weights g ((src, dest, weight) # es) =
     mst_update_weights (update_weights_manually g src dest weight) es"

lemma mst_add_triplet_duplicate:
  "fst (graph_add_edge m1 m2 (Some g) src dest) \<noteq> 0 \<Longrightarrow>
   mst_add_triplet m1 m2 n (g, weighted_edges) (src, dest, weight) = (g, weighted_edges)"
  using add_weighted_edge_fail_unchanged[of m1 m2 "Some g" src dest 1]
  by (auto simp: mst_add_triplet_def graph_add_edge_def split: prod.splits option.splits)

text \<open>
  C6. The claim: when \<open>graph_add_edge\<close> returns duplicate for a triplet, the weight-rewrite
  scan leaves every weight as it was. In the leader/follower server (and the pipeline
  server) it does not: with the edge \<open>0--1\<close> of weight 5 already present in a two-vertex
  graph, the triplet \<open>(0, 1, 7)\<close> is rejected by \<open>graph_add_edge\<close> with -3, and the scan that
  follows all the same rewrites both entries to weight 7.
\<close>

theorem duplicate_triplet_overwrites_weight:
  "process_weighted_triplet True True 2 \<lparr>g_n = 2, g_adj = [[], []]\<rparr> (0, 1, 5) = one_edge_graph 5
   \<and> fst (graph_add_edge True True (Some (one_edge_graph 5)) 0 1) = - 3
   \<and> process_weighted_triplet True True 2 (one_edge_graph 5) (0, 1, 7) = one_edge_graph 7
   \<and> graph_get_edge_weight (Some (one_edge_graph 5)) 0 1 = 5
   \<and> graph_get_edge_weight (Some (one_edge_graph 7)) 0 1 = 7"
  by (simp add: process_weighted_triplet_def graph_add_edge_def graph_add_weighted_edge_def
      in_bounds_def edge_exists_simple_def count_neighbor_def adj_list_def one_edge_graph_def
      update_weights_manually_def graph_get_edge_weight_def)

theorem duplicate_triplet_overwrites_weight_witness:
  "graph_get_edge_weight
     (Some (process_weighted_triplet True True 2 (one_edge_graph 5) (0, 1, 7))) 0 1 = 7"
  using duplicate_triplet_overwrites_weight by simp

section \<open>Euler circuits: existence (graph.c)\<close>

text \<open>
  \<open>Vec\<close> is the growable \<open>int\<close> array of graph.c; the model is the list of its elements
  \<open>a[0..n-1]\<close> in index order, so \<open>v_push\<close> appends and \<open>v_pop\<close> removes the last element.
  The \<open>realloc\<close> inside \<open>v_push\<close> is taken to succeed (the callers below discard its result).
\<close>

definition v_push :: "int list \<Rightarrow> int \<Rightarrow> int list" where
  "v_push v x = v @ [x]"

definition v_pop :: "int list \<Rightarrow> int \<times> int list" where
  "v_pop v = (last v, butlast v)"

definition v_back :: "int list \<Rightarrow> int" where
  "v_back v = last v"

definition v_reverse :: "int list \<Rightarrow> int list" where
  "v_reverse v = rev v"

definition degree_vertex_adj :: "Graph \<Rightarrow> int \<Rightarrow> int" where
  "degree_vertex_adj g v = int (length (adj_list g v))"

text \<open>
  The inner \<open>for\<close> loop of \<open>is_connected_ignore_isolated\<close> over the entries of \<open>adj[u]\<close>.
  \<open>vis\<close> is the flag array of length \<open>n\<close>; an index outside it (undefined behaviour in C)
  ends the run with \<open>None\<close>.
\<close>

fun dfs_visit :: "EdgeNode list \<Rightarrow> bool list \<Rightarrow> int list \<Rightarrow> (bool list \<times> int list) option" where
  "dfs_visit [] vis st = Some (vis, st)"
| "dfs_visit (e # es) vis st =
     (let v = en_to e in
      if v < 0 \<or> int (length vis) \<le> v then None
      else if \<not> vis ! nat v then dfs_visit es (vis[nat v := True]) (v_push st v)
      else dfs_visit es vis st)"

definition unvisited :: "bool list \<Rightarrow> nat" where
  "unvisited vis = length (filter (\<lambda>b. \<not> b) vis)"

lemma unvisited_mark:
  "i < length vis \<Longrightarrow> \<not> vis ! i \<Longrightarrow> Suc (unvisited (vis[i := True])) = unvisited vis"
  unfolding unvisited_def
proof (induction vis arbitrary: i)
  case Nil
  then show ?case by simp
next
  case (Cons b vis)
  then show ?case by (cases i) auto
qed

lemma dfs_visit_measure:
  "dfs_visit es vis st = Some (vis', st') \<Longrightarrow>
   2 * unvisited vis' + length st' \<le> 2 * unvisited vis + length st"
proof (induction es arbitrary: vis st)
  case Nil
  then show ?case by simp
next
  case (Cons e es)
  show ?case
  proof (cases "\<not> vis ! nat (en_to e)")
    case True
    with Cons.prems have r: "0 \<le> en_to e" "nat (en_to e) < length vis"
      and d: "dfs_visit es (vis[nat (en_to e) := True]) (v_push st (en_to e)) = Some (vis', st')"
      by (auto simp: Let_def split: if_splits)
    from Cons.IH[OF d] unvisited_mark[OF r(2) True] show ?thesis
      by (simp add: v_push_def)
  next
    case False
    with Cons.prems have "dfs_visit es vis st = Some (vis', st')"
      by (auto simp: Let_def split: if_splits)
    from Cons.IH[OF this] show ?thesis .
  qed
qed

text \<open>The \<open>while (st.n)\<close> loop of \<open>is_connected_ignore_isolated\<close>.\<close>

function dfs_loop :: "Graph \<Rightarrow> bool list \<Rightarrow> int list \<Rightarrow> bool list option" where
  "dfs_loop g vis st =
     (if st = [] then Some vis
      else
        (case v_pop st of (u, st1) \<Rightarrow>
           (case dfs_visit (adj_list g u) vis st1 of
              None \<Rightarrow> None
            | Some (vis', st') \<Rightarrow> dfs_loop g vis' st')))"
  by pat_completeness auto
termination
  apply (relation "measure (\<lambda>(g, vis, st). 2 * unvisited vis + length st)")
   apply simp
  apply (auto simp: v_pop_def dest!: dfs_visit_measure)
  apply (case_tac st rule: rev_cases)
  apply auto
  done

declare dfs_loop.simps [simp del]

text \<open>The first vertex with a nonzero degree, or -1.\<close>

definition first_nonisolated :: "Graph \<Rightarrow> int" where
  "first_nonisolated g =
     (case find (\<lambda>i. degree_vertex_adj g i > 0) (map int [0..<nat (g_n g)]) of
        None \<Rightarrow> - 1
      | Some i \<Rightarrow> i)"

text \<open>
  \<open>calloc_vis\<close> says whether the \<open>calloc\<close> of the flag array succeeds. The result is the C
  return value as a truth value, \<open>None\<close> when the run indexes \<open>vis\<close> out of range.
\<close>

definition is_connected_ignore_isolated :: "bool \<Rightarrow> Graph \<Rightarrow> bool option" where
  "is_connected_ignore_isolated calloc_vis g =
     (let start = first_nonisolated g in
      if start = - 1 then Some True
      else if \<not> calloc_vis then Some False
      else
        (case dfs_loop g ((replicate (nat (g_n g)) False)[nat start := True]) (v_push [] start) of
           None \<Rightarrow> None
         | Some vis \<Rightarrow>
             Some (list_all (\<lambda>i. \<not> (degree_vertex_adj g i > 0 \<and> \<not> vis ! nat i))
                     (map int [0..<nat (g_n g)]))))"

text \<open>
  The degree loop of \<open>graph_has_euler_circuit\<close>: \<open>None\<close> when a vertex of odd degree stops
  it, otherwise the sum of the degrees.
\<close>

fun degree_scan :: "Graph \<Rightarrow> int list \<Rightarrow> int \<Rightarrow> int option" where
  "degree_scan g [] sumdeg = Some sumdeg"
| "degree_scan g (i # is) sumdeg =
     (let d = degree_vertex_adj g i in
      if d mod 2 \<noteq> 0 then None else degree_scan g is (sumdeg + d))"

definition graph_has_euler_circuit :: "bool \<Rightarrow> Graph option \<Rightarrow> bool option" where
  "graph_has_euler_circuit calloc_vis g =
     (case g of
        None \<Rightarrow> Some False
      | Some gr \<Rightarrow>
          (case is_connected_ignore_isolated calloc_vis gr of
             None \<Rightarrow> None
           | Some False \<Rightarrow> Some False
           | Some True \<Rightarrow>
               (case degree_scan gr (map int [0..<nat (g_n gr)]) 0 of
                  None \<Rightarrow> Some False
                | Some sumdeg \<Rightarrow> if sumdeg = 0 then Some False else Some True)))"

subsection \<open>What the existence test should decide\<close>

definition nonisolated :: "Graph \<Rightarrow> int \<Rightarrow> bool" where
  "nonisolated g u = (0 \<le> u \<and> u < g_n g \<and> adj_list g u \<noteq> [])"

text \<open>The adjacency relation of the subgraph induced by the non-isolated vertices.\<close>

definition induced_edges :: "Graph \<Rightarrow> (int \<times> int) set" where
  "induced_edges g =
     {(a, b). nonisolated g a \<and> nonisolated g b \<and> (\<exists>e \<in> set (adj_list g a). en_to e = b)}"

definition connected_nonisolated :: "Graph \<Rightarrow> bool" where
  "connected_nonisolated g =
     (\<forall>u v. nonisolated g u \<and> nonisolated g v \<longrightarrow> (u, v) \<in> (induced_edges g)\<^sup>*)"

text \<open>
  The degree of a vertex is the number of its adjacency entries; a self-loop is stored
  as two entries and so counts 2.
\<close>

definition all_degrees_even :: "Graph \<Rightarrow> bool" where
  "all_degrees_even g = (\<forall>u. 0 \<le> u \<and> u < g_n g \<longrightarrow> even (length (adj_list g u)))"

definition euler_condition :: "Graph \<Rightarrow> bool" where
  "euler_condition g =
     ((\<exists>u. nonisolated g u) \<and> all_degrees_even g \<and> connected_nonisolated g)"

subsection \<open>The search computes the vertices reachable from the start\<close>

definition visited :: "bool list \<Rightarrow> int set" where
  "visited vis = {v. 0 \<le> v \<and> v < int (length vis) \<and> vis ! nat v}"

definition succs :: "Graph \<Rightarrow> int \<Rightarrow> int set" where
  "succs g u = en_to ` set (adj_list g u)"

lemma visited_mark:
  assumes "0 \<le> v" "nat v < length vis"
  shows "visited (vis[nat v := True]) = insert v (visited vis)"
proof -
  have "\<And>w. 0 \<le> w \<Longrightarrow> (nat w = nat v) = (w = v)" using assms(1) by auto
  then show ?thesis using assms
    by (auto simp: visited_def nth_list_update)
qed

lemma visited_range: "v \<in> visited vis \<Longrightarrow> 0 \<le> v \<and> v < int (length vis)"
  by (simp add: visited_def)

lemma dfs_visit_spec:
  assumes "\<forall>e \<in> set es. 0 \<le> en_to e \<and> en_to e < int (length vis)"
  shows "\<exists>vis' st'. dfs_visit es vis st = Some (vis', st') \<and> length vis' = length vis
           \<and> visited vis' = visited vis \<union> en_to ` set es
           \<and> set st' = set st \<union> (en_to ` set es - visited vis)"
  using assms
proof (induction es arbitrary: vis st)
  case Nil
  then show ?case by simp
next
  case (Cons e es)
  let ?v = "en_to e"
  from Cons.prems have r: "0 \<le> ?v" "?v < int (length vis)" by auto
  then have rn: "nat ?v < length vis" by simp
  show ?case
  proof (cases "vis ! nat ?v")
    case True
    then have vin: "?v \<in> visited vis" using r by (simp add: visited_def)
    from Cons.prems have "\<forall>e \<in> set es. 0 \<le> en_to e \<and> en_to e < int (length vis)" by simp
    from Cons.IH[OF this, of st] obtain vis' st' where
      d: "dfs_visit es vis st = Some (vis', st')" and l: "length vis' = length vis"
      and v: "visited vis' = visited vis \<union> en_to ` set es"
      and s: "set st' = set st \<union> (en_to ` set es - visited vis)" by blast
    have "dfs_visit (e # es) vis st = Some (vis', st')"
      using d r True by (simp add: Let_def)
    moreover have "visited vis' = visited vis \<union> en_to ` set (e # es)"
      using v vin by auto
    moreover have "set st' = set st \<union> (en_to ` set (e # es) - visited vis)"
      using s vin by auto
    ultimately show ?thesis using l by blast
  next
    case False
    then have vnin: "?v \<notin> visited vis" by (simp add: visited_def)
    let ?vis1 = "vis[nat ?v := True]"
    from Cons.prems have "\<forall>e \<in> set es. 0 \<le> en_to e \<and> en_to e < int (length ?vis1)" by simp
    from Cons.IH[OF this, of "v_push st ?v"] obtain vis' st' where
      d: "dfs_visit es ?vis1 (v_push st ?v) = Some (vis', st')" and l: "length vis' = length ?vis1"
      and v: "visited vis' = visited ?vis1 \<union> en_to ` set es"
      and s: "set st' = set (v_push st ?v) \<union> (en_to ` set es - visited ?vis1)" by blast
    note vm = visited_mark[OF r(1) rn]
    have "dfs_visit (e # es) vis st = Some (vis', st')"
      using d r False by (simp add: Let_def)
    moreover have "visited vis' = visited vis \<union> en_to ` set (e # es)"
      using v vm by auto
    moreover have "set st' = set st \<union> (en_to ` set (e # es) - visited vis)"
      using s vm vnin by (auto simp: v_push_def)
    ultimately show ?thesis using l by auto
  qed
qed

lemma dfs_loop_spec:
  assumes "targets_in_range g" "length vis = nat (g_n g)"
    and "set st \<subseteq> visited vis"
    and "\<forall>u \<in> visited vis - set st. succs g u \<subseteq> visited vis"
    and "visited vis \<subseteq> R"
    and "\<forall>u \<in> R. 0 \<le> u \<and> u < g_n g \<longrightarrow> succs g u \<subseteq> R"
  shows "\<exists>vis'. dfs_loop g vis st = Some vis' \<and> length vis' = length vis
           \<and> visited vis \<subseteq> visited vis' \<and> visited vis' \<subseteq> R
           \<and> (\<forall>u \<in> visited vis'. succs g u \<subseteq> visited vis')"
  using assms
proof (induction g vis st rule: dfs_loop.induct)
  case (1 g vis st)
  show ?case
  proof (cases "st = []")
    case True
    then show ?thesis using "1.prems" by (simp add: dfs_loop.simps)
  next
    case False
    let ?u = "last st" and ?st1 = "butlast st"
    have uin: "?u \<in> visited vis" using False "1.prems"(3) by auto
    then have ur: "0 \<le> ?u" "?u < g_n g" using visited_range[of ?u vis] "1.prems"(2)
      by (auto split: if_splits)
    have tr: "\<forall>e \<in> set (adj_list g ?u). 0 \<le> en_to e \<and> en_to e < int (length vis)"
      using "1.prems"(1,2) ur unfolding targets_in_range_def by auto
    from dfs_visit_spec[OF tr, of ?st1] obtain vis' st' where
      d: "dfs_visit (adj_list g ?u) vis ?st1 = Some (vis', st')" and l: "length vis' = length vis"
      and v: "visited vis' = visited vis \<union> succs g ?u"
      and s: "set st' = set ?st1 \<union> (succs g ?u - visited vis)"
      unfolding succs_def by blast
    have sts: "set st = insert ?u (set ?st1)"
      using False by (cases st rule: rev_cases) auto
    have p2: "length vis' = nat (g_n g)" using l "1.prems"(2) by simp
    have p3: "set st' \<subseteq> visited vis'" using s v "1.prems"(3) sts by auto
    have p4: "\<forall>x \<in> visited vis' - set st'. succs g x \<subseteq> visited vis'"
    proof
      fix x assume x: "x \<in> visited vis' - set st'"
      then have xv: "x \<in> visited vis" using v s by auto
      show "succs g x \<subseteq> visited vis'"
      proof (cases "x = ?u")
        case True
        then show ?thesis using v by auto
      next
        case False
        then have "x \<notin> set st" using x s sts by auto
        then have "succs g x \<subseteq> visited vis" using "1.prems"(4) xv by auto
        then show ?thesis using v by auto
      qed
    qed
    have p5: "visited vis' \<subseteq> R"
      using v "1.prems"(5,6) uin ur by auto
    have vp: "(?u, ?st1) = v_pop st" by (simp add: v_pop_def)
    from "1.IH"[OF False vp d refl "1.prems"(1) p2 p3 p4 p5 "1.prems"(6)]
    obtain vis'' where r: "dfs_loop g vis' st' = Some vis''" "length vis'' = length vis'"
      "visited vis' \<subseteq> visited vis''" "visited vis'' \<subseteq> R"
      "\<forall>u \<in> visited vis''. succs g u \<subseteq> visited vis''"
      by blast
    have "dfs_loop g vis st = Some vis''"
      using False d r(1) by (subst dfs_loop.simps) (simp add: v_pop_def)
    then show ?thesis using r l v by auto
  qed
qed

definition step_rel :: "Graph \<Rightarrow> (int \<times> int) set" where
  "step_rel g = {(a, b). 0 \<le> a \<and> a < g_n g \<and> b \<in> succs g a}"

lemma vertex_list_set: "set (map int [0..<nat k]) = {i. 0 \<le> i \<and> i < k}"
proof -
  have "x \<in> int ` {0..<nat k}" if "0 \<le> x" "x < k" for x
  proof -
    from that have "x = int (nat x)" "nat x \<in> {0..<nat k}" by auto
    then show ?thesis by (rule image_eqI)
  qed
  then show ?thesis by auto
qed

lemma degree_pos_iff: "degree_vertex_adj g i > 0 \<longleftrightarrow> adj_list g i \<noteq> []"
  by (simp add: degree_vertex_adj_def)

lemma first_nonisolated_none:
  "first_nonisolated g = - 1 \<longleftrightarrow> \<not> (\<exists>u. nonisolated g u)"
proof -
  let ?P = "\<lambda>i. degree_vertex_adj g i > 0" and ?xs = "map int [0..<nat (g_n g)]"
  show ?thesis
  proof (cases "find ?P ?xs")
    case None
    then have "\<not> (\<exists>x. x \<in> set ?xs \<and> ?P x)" by (simp add: find_None_iff)
    then have "\<not> (\<exists>u. nonisolated g u)"
      unfolding vertex_list_set by (auto simp: nonisolated_def degree_pos_iff)
    with None show ?thesis by (simp add: first_nonisolated_def)
  next
    case (Some i)
    then have "i \<in> set ?xs" "?P i"
      by (auto simp: find_Some_iff)
    then have "nonisolated g i" "0 \<le> i"
      unfolding vertex_list_set by (auto simp: nonisolated_def degree_pos_iff)
    with Some show ?thesis by (auto simp: first_nonisolated_def)
  qed
qed

lemma first_nonisolated_some:
  "first_nonisolated g \<noteq> - 1 \<Longrightarrow> nonisolated g (first_nonisolated g)"
proof -
  let ?P = "\<lambda>i. degree_vertex_adj g i > 0" and ?xs = "map int [0..<nat (g_n g)]"
  assume a: "first_nonisolated g \<noteq> - 1"
  then obtain i where Some: "find ?P ?xs = Some i"
    by (cases "find ?P ?xs") (auto simp: first_nonisolated_def)
  then have "i \<in> set ?xs" "?P i"
    by (auto simp: find_Some_iff)
  then have "nonisolated g i"
    unfolding vertex_list_set by (auto simp: nonisolated_def degree_pos_iff)
  with Some show ?thesis by (simp add: first_nonisolated_def)
qed

lemma visited_start:
  assumes "0 \<le> s" "s < k"
  shows "visited ((replicate (nat k) False)[nat s := True]) = {s}"
proof -
  have "nat s < length (replicate (nat k) False)" using assms by simp
  moreover have "visited (replicate (nat k) False) = {}"
    by (auto simp: visited_def)
  ultimately show ?thesis
    using visited_mark[OF assms(1), of "replicate (nat k) False"] by simp
qed

lemma dfs_from_start:
  assumes "graph_inv g" "nonisolated g s"
  shows "\<exists>vis. dfs_loop g ((replicate (nat (g_n g)) False)[nat s := True]) (v_push [] s) = Some vis
           \<and> length vis = nat (g_n g) \<and> visited vis = (step_rel g)\<^sup>* `` {s}"
proof -
  let ?vis0 = "(replicate (nat (g_n g)) False)[nat s := True]"
  let ?R = "(step_rel g)\<^sup>* `` {s}"
  from assms(2) have sr: "0 \<le> s" "s < g_n g" by (auto simp: nonisolated_def)
  have v0: "visited ?vis0 = {s}" using visited_start[OF sr] .
  have a1: "targets_in_range g" using assms(1) by (simp add: graph_inv_def)
  have a2: "length ?vis0 = nat (g_n g)" by simp
  have a3: "set (v_push [] s) \<subseteq> visited ?vis0" using v0 by (simp add: v_push_def)
  have a4: "\<forall>u \<in> visited ?vis0 - set (v_push [] s). succs g u \<subseteq> visited ?vis0"
    using v0 by (simp add: v_push_def)
  have a5: "visited ?vis0 \<subseteq> ?R" using v0 by auto
  have a6: "\<forall>u \<in> ?R. 0 \<le> u \<and> u < g_n g \<longrightarrow> succs g u \<subseteq> ?R"
  proof (intro ballI impI subsetI)
    fix u x assume "u \<in> ?R" "0 \<le> u \<and> u < g_n g" "x \<in> succs g u"
    then have "(s, u) \<in> (step_rel g)\<^sup>*" "(u, x) \<in> step_rel g"
      by (auto simp: step_rel_def)
    then show "x \<in> ?R" by (auto intro: rtrancl_into_rtrancl)
  qed
  from dfs_loop_spec[OF a1 a2 a3 a4 a5 a6] obtain vis where
    r: "dfs_loop g ?vis0 (v_push [] s) = Some vis" "length vis = length ?vis0"
       "visited ?vis0 \<subseteq> visited vis" "visited vis \<subseteq> ?R"
       "\<forall>u \<in> visited vis. succs g u \<subseteq> visited vis" by blast
  have "?R \<subseteq> visited vis"
  proof
    fix x assume "x \<in> ?R"
    then have "(s, x) \<in> (step_rel g)\<^sup>*" by simp
    then show "x \<in> visited vis"
    proof (induction rule: rtrancl_induct)
      case base
      then show ?case using r(3) v0 by auto
    next
      case (step y z)
      then show ?case using r(5) by (auto simp: step_rel_def)
    qed
  qed
  with r show ?thesis by auto
qed

lemma has_entry_count:
  "(\<exists>e \<in> set (adj_list g a). en_to e = b) \<longleftrightarrow> 1 \<le> count_neighbor g a b"
proof -
  have "(\<exists>e \<in> set (adj_list g a). en_to e = b) \<longleftrightarrow> filter (\<lambda>e. en_to e = b) (adj_list g a) \<noteq> []"
    by (auto simp: filter_empty_conv)
  also have "\<dots> \<longleftrightarrow> 1 \<le> count_neighbor g a b"
    by (cases "filter (\<lambda>e. en_to e = b) (adj_list g a)") (auto simp: count_neighbor_eq)
  finally show ?thesis .
qed

lemma inv_entry_sym:
  assumes "graph_inv g" "0 \<le> a" "a < g_n g" "e \<in> set (adj_list g a)"
  shows "\<exists>e' \<in> set (adj_list g (en_to e)). en_to e' = a"
proof -
  from inv_targets[OF assms] have r: "0 \<le> en_to e" "en_to e < g_n g" by auto
  have "1 \<le> count_neighbor g a (en_to e)"
    using assms(4) has_entry_count[of g a "en_to e"] by auto
  then have "1 \<le> count_neighbor g (en_to e) a"
    using inv_count_sym[OF assms(1-3) r] by simp
  then show ?thesis using has_entry_count[of g "en_to e" a] by simp
qed

lemma step_rel_induced:
  assumes "graph_inv g"
  shows "step_rel g = induced_edges g"
proof (intro set_eqI iffI; clarify)
  fix a b assume "(a, b) \<in> step_rel g"
  then obtain e where e: "0 \<le> a" "a < g_n g" "e \<in> set (adj_list g a)" "en_to e = b"
    by (auto simp: step_rel_def succs_def)
  from inv_targets[OF assms e(1-3)] e(4) have br: "0 \<le> b" "b < g_n g" by auto
  from inv_entry_sym[OF assms e(1-3)] e(4) have "adj_list g b \<noteq> []" by auto
  with e br show "(a, b) \<in> induced_edges g"
    by (auto simp: induced_edges_def nonisolated_def)
next
  fix a b assume "(a, b) \<in> induced_edges g"
  then show "(a, b) \<in> step_rel g"
    by (auto simp: induced_edges_def nonisolated_def step_rel_def succs_def)
qed

lemma induced_edges_sym:
  assumes "graph_inv g"
  shows "sym (induced_edges g)"
proof (rule symI)
  fix a b assume ab: "(a, b) \<in> induced_edges g"
  then obtain e where e: "0 \<le> a" "a < g_n g" "e \<in> set (adj_list g a)" "en_to e = b"
    by (auto simp: induced_edges_def nonisolated_def)
  from inv_entry_sym[OF assms e(1-3)] e(4) ab show "(b, a) \<in> induced_edges g"
    by (auto simp: induced_edges_def)
qed

lemma connected_from_start:
  assumes "graph_inv g" "nonisolated g s"
  shows "connected_nonisolated g \<longleftrightarrow> (\<forall>v. nonisolated g v \<longrightarrow> (s, v) \<in> (induced_edges g)\<^sup>*)"
proof
  assume "connected_nonisolated g"
  then show "\<forall>v. nonisolated g v \<longrightarrow> (s, v) \<in> (induced_edges g)\<^sup>*"
    using assms(2) by (auto simp: connected_nonisolated_def)
next
  assume a: "\<forall>v. nonisolated g v \<longrightarrow> (s, v) \<in> (induced_edges g)\<^sup>*"
  have s: "sym ((induced_edges g)\<^sup>*)"
    using induced_edges_sym[OF assms(1)] by (rule sym_rtrancl)
  show "connected_nonisolated g"
    unfolding connected_nonisolated_def
  proof (intro allI impI)
    fix u v assume "nonisolated g u \<and> nonisolated g v"
    with a have "(s, u) \<in> (induced_edges g)\<^sup>*" "(s, v) \<in> (induced_edges g)\<^sup>*" by auto
    with s have "(u, s) \<in> (induced_edges g)\<^sup>*" by (auto dest: symD)
    with \<open>(s, v) \<in> (induced_edges g)\<^sup>*\<close> show "(u, v) \<in> (induced_edges g)\<^sup>*" by simp
  qed
qed

lemma is_connected_correct:
  assumes "graph_inv g"
  shows "is_connected_ignore_isolated True g = Some (connected_nonisolated g)"
proof (cases "first_nonisolated g = - 1")
  case True
  then have "\<not> (\<exists>u. nonisolated g u)" by (simp add: first_nonisolated_none)
  then have "connected_nonisolated g" by (simp add: connected_nonisolated_def)
  with True show ?thesis by (simp add: is_connected_ignore_isolated_def)
next
  case False
  let ?s = "first_nonisolated g"
  have ns: "nonisolated g ?s" using first_nonisolated_some[OF False] .
  from dfs_from_start[OF assms ns] obtain vis where
    d: "dfs_loop g ((replicate (nat (g_n g)) False)[nat ?s := True]) (v_push [] ?s) = Some vis"
    and l: "length vis = nat (g_n g)" and v: "visited vis = (step_rel g)\<^sup>* `` {?s}" by blast
  have "list_all (\<lambda>i. \<not> (degree_vertex_adj g i > 0 \<and> \<not> vis ! nat i)) (map int [0..<nat (g_n g)])
      \<longleftrightarrow> (\<forall>i. nonisolated g i \<longrightarrow> i \<in> visited vis)"
    unfolding list_all_iff vertex_list_set using l
    by (auto simp: nonisolated_def degree_pos_iff visited_def)
  also have "\<dots> \<longleftrightarrow> connected_nonisolated g"
    unfolding connected_from_start[OF assms ns] v step_rel_induced[OF assms] by auto
  finally show ?thesis using False d
    by (simp add: is_connected_ignore_isolated_def Let_def)
qed

lemma degree_scan_eq:
  "degree_scan g is acc =
     (if \<forall>i \<in> set is. even (length (adj_list g i))
      then Some (acc + (\<Sum>i\<leftarrow>is. int (length (adj_list g i)))) else None)"
proof (induction "is" arbitrary: acc)
  case Nil
  then show ?case by simp
next
  case (Cons i "is")
  have "(degree_vertex_adj g i mod 2 \<noteq> 0) = odd (length (adj_list g i))"
    unfolding degree_vertex_adj_def by presburger
  then show ?case using Cons.IH
    by (simp add: Let_def degree_vertex_adj_def)
qed

lemma sum_degrees_zero:
  "(\<Sum>i\<leftarrow>map int [0..<nat (g_n g)]. int (length (adj_list g i))) = 0
     \<longleftrightarrow> \<not> (\<exists>u. nonisolated g u)"
proof -
  have "(\<Sum>i\<leftarrow>map int [0..<nat (g_n g)]. int (length (adj_list g i))) = 0
     \<longleftrightarrow> (\<forall>i \<in> set (map int [0..<nat (g_n g)]). int (length (adj_list g i)) = 0)"
    by (subst sum_list_nonneg_eq_0_iff) auto
  also have "\<dots> \<longleftrightarrow> \<not> (\<exists>u. nonisolated g u)"
    unfolding vertex_list_set by (auto simp: nonisolated_def)
  finally show ?thesis .
qed

lemma has_euler_circuit_correct:
  assumes "graph_inv g"
  shows "graph_has_euler_circuit True (Some g) = Some (euler_condition g)"
proof -
  define xs where "xs = map int [0..<nat (g_n g)]"
  have ev: "(\<forall>i \<in> set xs. even (length (adj_list g i))) = all_degrees_even g"
    unfolding xs_def vertex_list_set by (auto simp: all_degrees_even_def)
  have sz: "((\<Sum>i\<leftarrow>xs. int (length (adj_list g i))) = 0) = (\<not> (\<exists>u. nonisolated g u))"
    unfolding xs_def by (rule sum_degrees_zero)
  have sc: "degree_scan g xs 0 =
      (if all_degrees_even g then Some (\<Sum>i\<leftarrow>xs. int (length (adj_list g i))) else None)"
    unfolding degree_scan_eq ev by simp
  have "graph_has_euler_circuit True (Some g) =
      (if connected_nonisolated g then
         (case degree_scan g xs 0 of None \<Rightarrow> Some False
          | Some sumdeg \<Rightarrow> if sumdeg = 0 then Some False else Some True)
       else Some False)"
    unfolding graph_has_euler_circuit_def xs_def
    by (simp add: is_connected_correct[OF assms])
  also have "\<dots> = Some (euler_condition g)"
    unfolding sc euler_condition_def using sz by auto
  finally show ?thesis .
qed

text \<open>The triangle \<open>0--1\<close>, \<open>1--2\<close>, \<open>0--2\<close>, as the three \<open>graph_add_edge\<close> calls leave it.\<close>

definition triangle :: Graph where
  "triangle = \<lparr>g_n = 3, g_adj =
     [[\<lparr>en_to = 2, en_weight = 1\<rparr>, \<lparr>en_to = 1, en_weight = 1\<rparr>],
      [\<lparr>en_to = 2, en_weight = 1\<rparr>, \<lparr>en_to = 0, en_weight = 1\<rparr>],
      [\<lparr>en_to = 0, en_weight = 1\<rparr>, \<lparr>en_to = 1, en_weight = 1\<rparr>]]\<rparr>"

lemma built_triangle: "built triangle"
proof -
  have 0: "graph_create True True 3 = Some \<lparr>g_n = 3, g_adj = [[], [], []]\<rparr>"
    by (simp add: graph_create_def numeral_3_eq_3)
  have 1: "graph_add_edge True True (Some \<lparr>g_n = 3, g_adj = [[], [], []]\<rparr>) 0 1
      = (0, Some \<lparr>g_n = 3, g_adj = [[\<lparr>en_to = 1, en_weight = 1\<rparr>], [\<lparr>en_to = 0, en_weight = 1\<rparr>], []]\<rparr>)"
    by (simp add: graph_add_edge_def graph_add_weighted_edge_def in_bounds_def
        edge_exists_simple_def count_neighbor_def adj_list_def)
  have 2: "graph_add_edge True True
      (Some \<lparr>g_n = 3, g_adj = [[\<lparr>en_to = 1, en_weight = 1\<rparr>], [\<lparr>en_to = 0, en_weight = 1\<rparr>], []]\<rparr>) 1 2
      = (0, Some \<lparr>g_n = 3, g_adj = [[\<lparr>en_to = 1, en_weight = 1\<rparr>],
           [\<lparr>en_to = 2, en_weight = 1\<rparr>, \<lparr>en_to = 0, en_weight = 1\<rparr>], [\<lparr>en_to = 1, en_weight = 1\<rparr>]]\<rparr>)"
    by (simp add: graph_add_edge_def graph_add_weighted_edge_def in_bounds_def
        edge_exists_simple_def count_neighbor_def adj_list_def)
  have 3: "graph_add_edge True True
      (Some \<lparr>g_n = 3, g_adj = [[\<lparr>en_to = 1, en_weight = 1\<rparr>],
           [\<lparr>en_to = 2, en_weight = 1\<rparr>, \<lparr>en_to = 0, en_weight = 1\<rparr>], [\<lparr>en_to = 1, en_weight = 1\<rparr>]]\<rparr>) 0 2
      = (0, Some triangle)"
    by (simp add: graph_add_edge_def graph_add_weighted_edge_def in_bounds_def
        edge_exists_simple_def count_neighbor_def adj_list_def triangle_def)
  show ?thesis
    by (rule built_add_edge[OF built_add_edge[OF built_add_edge[OF built_create[OF 0] 1] 2] 3])
qed

lemma has_euler_triangle: "graph_has_euler_circuit True (Some triangle) = Some True"
  by code_simp

text \<open>
  C4. For every graph that satisfies the data-model invariant (in particular every graph
  built through the interface), and when the flag array of the connectivity search can be
  allocated, \<open>graph_has_euler_circuit\<close> returns true exactly when (a) some vertex has an
  adjacency entry, i.e. the graph has at least one edge, (b) every vertex has an even
  number of adjacency entries (a self-loop stored as two entries counts 2), and (c) any
  two non-isolated vertices are joined by a path in the subgraph induced by the
  non-isolated vertices.
\<close>

theorem has_euler_circuit_iff:
  assumes "graph_inv g"
  shows "graph_has_euler_circuit True (Some g)
           = Some ((\<exists>u. nonisolated g u) \<and> all_degrees_even g \<and> connected_nonisolated g)"
  using has_euler_circuit_correct[OF assms] by (simp add: euler_condition_def)

theorem has_euler_circuit_iff_witness:
  "graph_inv triangle \<and> graph_has_euler_circuit True (Some triangle) = Some True
   \<and> (\<exists>u. nonisolated triangle u) \<and> all_degrees_even triangle \<and> connected_nonisolated triangle"
proof -
  have i: "graph_inv triangle" by (rule built_inv[OF built_triangle])
  from has_euler_circuit_iff[OF i] has_euler_triangle i show ?thesis by simp
qed

section \<open>Cliques (OS_project/part7/maxclique.c, FinalProject/part7/cliquecount.c)\<close>

text \<open>
  Both files carry the same \<open>build_adjacency_matrix\<close> and \<open>is_connected_to_all\<close>. The \<open>n\<times>n\<close>
  matrix is a list of rows. The working array \<open>current_clique\<close> together with
  \<open>current_size\<close> is the list of its first \<open>current_size\<close> entries (the only ones ever
  read); storing \<open>v\<close> at index \<open>current_size\<close> and passing \<open>current_size + 1\<close> appends \<open>v\<close>.
  Likewise \<open>best_clique\<close> with \<open>best_size\<close> is one list. Counters are unbounded integers;
  the counter \<open>*count\<close> is written \<open>cnt\<close>.
\<close>

fun fill_row :: "int \<Rightarrow> EdgeNode list \<Rightarrow> int list list \<Rightarrow> int list list" where
  "fill_row u [] m = m"
| "fill_row u (e # es) m =
     (let v = en_to e in
      fill_row u es (if u \<noteq> v then m[nat u := (m ! nat u)[nat v := 1]] else m))"

fun fill_rows :: "Graph \<Rightarrow> int list \<Rightarrow> int list list \<Rightarrow> int list list" where
  "fill_rows g [] m = m"
| "fill_rows g (u # us) m = fill_rows g us (fill_row u (adj_list g u) m)"

definition build_adjacency_matrix :: "Graph \<Rightarrow> int list list" where
  "build_adjacency_matrix g =
     fill_rows g (map int [0..<nat (g_n g)])
       (replicate (nat (g_n g)) (replicate (nat (g_n g)) 0))"

fun is_connected_to_all :: "int list list \<Rightarrow> int \<Rightarrow> int list \<Rightarrow> bool" where
  "is_connected_to_all adj_matrix v [] = True"
| "is_connected_to_all adj_matrix v (c # cs) =
     (if adj_matrix ! nat v ! nat c = 0 then False else is_connected_to_all adj_matrix v cs)"

text \<open>
  \<open>max_clique_backtrack\<close> returns the best clique after the call; \<open>max_clique_for\<close> is its
  \<open>for (v = start_vertex; v < n; v++)\<close> loop from \<open>v\<close> on.
\<close>

function max_clique_backtrack ::
    "int list list \<Rightarrow> int \<Rightarrow> int \<Rightarrow> int list \<Rightarrow> int list \<Rightarrow> int list"
  and max_clique_for ::
    "int list list \<Rightarrow> int \<Rightarrow> int \<Rightarrow> int list \<Rightarrow> int list \<Rightarrow> int list" where
  "max_clique_backtrack adj_matrix n start_vertex cur best =
     max_clique_for adj_matrix n start_vertex cur
       (if length cur > length best then cur else best)"
| "max_clique_for adj_matrix n v cur best =
     (if v < n then
        max_clique_for adj_matrix n (v + 1) cur
          (if is_connected_to_all adj_matrix v cur
           then max_clique_backtrack adj_matrix n (v + 1) (cur @ [v]) best
           else best)
      else best)"
  by pat_completeness auto
termination
  by (relation "measure (\<lambda>x. case x of
          Inl (a, n, s, c, b) \<Rightarrow> 2 * nat (n - s) + 1
        | Inr (a, n, v, c, b) \<Rightarrow> 2 * nat (n - v))") auto

text \<open>The loop over the start vertices in \<open>graph_max_clique\<close>.\<close>

function max_clique_starts :: "int list list \<Rightarrow> int \<Rightarrow> int \<Rightarrow> int list \<Rightarrow> int list" where
  "max_clique_starts adj_matrix n start best =
     (if start < n then
        max_clique_starts adj_matrix n (start + 1)
          (max_clique_backtrack adj_matrix n (start + 1) [start] best)
      else best)"
  by pat_completeness auto
termination
  by (relation "measure (\<lambda>(a, n, s, b). nat (n - s))") auto

record MaxClique_Result =
  mc_vertices :: "int list option"
  mc_size :: int
  mc_is_valid :: bool

text \<open>
  \<open>None\<close> is the return value 0 (a \<open>NULL\<close> graph, or an allocation failed: \<open>mem\<close> is false);
  \<open>Some r\<close> is the return value 1 with the result structure \<open>r\<close>.
\<close>

definition graph_max_clique :: "bool \<Rightarrow> Graph option \<Rightarrow> MaxClique_Result option" where
  "graph_max_clique mem g =
     (case g of
        None \<Rightarrow> None
      | Some gr \<Rightarrow>
          let n = g_n gr in
          if n = 0 then Some \<lparr>mc_vertices = None, mc_size = 0, mc_is_valid = True\<rparr>
          else if \<not> mem then None
          else if n = 1 then Some \<lparr>mc_vertices = Some [0], mc_size = 1, mc_is_valid = True\<rparr>
          else
            let best = max_clique_starts (build_adjacency_matrix gr) n 0 [] in
            if int (length best) > 0
            then Some \<lparr>mc_vertices = Some best, mc_size = int (length best), mc_is_valid = True\<rparr>
            else Some \<lparr>mc_vertices = None, mc_size = 0, mc_is_valid = False\<rparr>)"

function count_cliques_of_size_recursive ::
    "int list list \<Rightarrow> int \<Rightarrow> int \<Rightarrow> int list \<Rightarrow> int \<Rightarrow> int \<Rightarrow> int"
  and count_cliques_of_size_for ::
    "int list list \<Rightarrow> int \<Rightarrow> int \<Rightarrow> int list \<Rightarrow> int \<Rightarrow> int \<Rightarrow> int" where
  "count_cliques_of_size_recursive adj_matrix n start_vertex cur target_size cnt =
     (if int (length cur) = target_size then cnt + 1
      else if int (length cur) + (n - start_vertex) < target_size then cnt
      else count_cliques_of_size_for adj_matrix n start_vertex cur target_size cnt)"
| "count_cliques_of_size_for adj_matrix n v cur target_size cnt =
     (if v < n then
        count_cliques_of_size_for adj_matrix n (v + 1) cur target_size
          (if is_connected_to_all adj_matrix v cur
           then count_cliques_of_size_recursive adj_matrix n (v + 1) (cur @ [v]) target_size cnt
           else cnt)
      else cnt)"
  by pat_completeness auto
termination
  by (relation "measure (\<lambda>x. case x of
          Inl (a, n, s, c, t, k) \<Rightarrow> 2 * nat (n - s) + 1
        | Inr (a, n, v, c, t, k) \<Rightarrow> 2 * nat (n - v))") auto

text \<open>\<open>None\<close> is the return value 0, \<open>Some c\<close> the return value 1 with \<open>*count = c\<close>.\<close>

definition graph_count_cliques_of_size :: "bool \<Rightarrow> Graph option \<Rightarrow> int \<Rightarrow> int option" where
  "graph_count_cliques_of_size mem g clique_size =
     (case g of
        None \<Rightarrow> None
      | Some gr \<Rightarrow>
          if clique_size < 1 then None
          else
            let n = g_n gr in
            if clique_size > n then Some 0
            else if \<not> mem then None
            else Some (count_cliques_of_size_recursive (build_adjacency_matrix gr) n 0 []
                         clique_size 0))"

text \<open>
  The sizes of the partial cliques the two searches pass through, in the order of the
  search: a device for relating them.
\<close>

function clique_sizes :: "int list list \<Rightarrow> int \<Rightarrow> int \<Rightarrow> int list \<Rightarrow> nat list"
  and clique_sizes_for :: "int list list \<Rightarrow> int \<Rightarrow> int \<Rightarrow> int list \<Rightarrow> nat list" where
  "clique_sizes adj_matrix n start_vertex cur =
     length cur # clique_sizes_for adj_matrix n start_vertex cur"
| "clique_sizes_for adj_matrix n v cur =
     (if v < n then
        (if is_connected_to_all adj_matrix v cur
         then clique_sizes adj_matrix n (v + 1) (cur @ [v]) else [])
        @ clique_sizes_for adj_matrix n (v + 1) cur
      else [])"
  by pat_completeness auto
termination
  by (relation "measure (\<lambda>x. case x of
          Inl (a, n, s, c) \<Rightarrow> 2 * nat (n - s) + 1
        | Inr (a, n, v, c) \<Rightarrow> 2 * nat (n - v))") auto

declare max_clique_for.simps [simp del] max_clique_starts.simps [simp del]
  count_cliques_of_size_for.simps [simp del] clique_sizes_for.simps [simp del]

lemma clique_sizes_lower:
  "s \<in> set (clique_sizes a n st cur) \<Longrightarrow> length cur \<le> s"
  "s \<in> set (clique_sizes_for a n v cur) \<Longrightarrow> length cur < s"
proof (induction a n st cur and a n v cur arbitrary: s and s rule: clique_sizes_clique_sizes_for.induct)
  case (1 a n st cur)
  then show ?case by (auto simp: less_imp_le)
next
  case (2 a n v cur)
  from "2.prems" have vn: "v < n"
    by (subst (asm) clique_sizes_for.simps) (simp split: if_splits)
  from "2.prems" vn have "(is_connected_to_all a v cur \<and> s \<in> set (clique_sizes a n (v + 1) (cur @ [v])))
      \<or> s \<in> set (clique_sizes_for a n (v + 1) cur)"
    by (subst (asm) clique_sizes_for.simps) (auto split: if_splits)
  then show ?case
  proof
    assume c: "is_connected_to_all a v cur \<and> s \<in> set (clique_sizes a n (v + 1) (cur @ [v]))"
    from "2.IH"(1)[OF vn conjunct1[OF c] conjunct2[OF c]] show ?thesis by simp
  next
    assume "s \<in> set (clique_sizes_for a n (v + 1) cur)"
    from "2.IH"(2)[OF vn this] show ?thesis .
  qed
qed

lemma clique_sizes_upper:
  "st \<le> n \<Longrightarrow> s \<in> set (clique_sizes a n st cur) \<Longrightarrow> int s \<le> int (length cur) + (n - st)"
  "v \<le> n \<Longrightarrow> s \<in> set (clique_sizes_for a n v cur) \<Longrightarrow> int s \<le> int (length cur) + (n - v)"
proof (induction a n st cur and a n v cur arbitrary: s and s rule: clique_sizes_clique_sizes_for.induct)
  case (1 a n st cur)
  from "1.prems"(2) have "s = length cur \<or> s \<in> set (clique_sizes_for a n st cur)" by auto
  then show ?case
  proof
    assume "s = length cur" then show ?thesis using "1.prems"(1) by simp
  next
    assume "s \<in> set (clique_sizes_for a n st cur)"
    from "1.IH"[OF "1.prems"(1) this] show ?thesis .
  qed
next
  case (2 a n v cur)
  from "2.prems"(2) have vn: "v < n"
    by (subst (asm) clique_sizes_for.simps) (simp split: if_splits)
  then have vn1: "v + 1 \<le> n" by simp
  from "2.prems"(2) vn have "(is_connected_to_all a v cur \<and> s \<in> set (clique_sizes a n (v + 1) (cur @ [v])))
      \<or> s \<in> set (clique_sizes_for a n (v + 1) cur)"
    by (subst (asm) clique_sizes_for.simps) (auto split: if_splits)
  then show ?case
  proof
    assume c: "is_connected_to_all a v cur \<and> s \<in> set (clique_sizes a n (v + 1) (cur @ [v]))"
    from "2.IH"(1)[OF vn conjunct1[OF c] vn1 conjunct2[OF c]] show ?thesis by simp
  next
    assume "s \<in> set (clique_sizes_for a n (v + 1) cur)"
    from "2.IH"(2)[OF vn vn1 this] show ?thesis by simp
  qed
qed

lemma max_clique_length:
  "length (max_clique_backtrack a n st cur best) = fold max (clique_sizes a n st cur) (length best)"
  "length (max_clique_for a n v cur best) = fold max (clique_sizes_for a n v cur) (length best)"
proof (induction a n st cur best and a n v cur best rule: max_clique_backtrack_max_clique_for.induct)
  case (1 a n st cur best)
  have "length (if length best < length cur then cur else best) = max (length cur) (length best)"
    by simp
  with "1.IH" show ?case by simp
next
  case (2 a n v cur best)
  show ?case
  proof (cases "v < n")
    case False
    then show ?thesis by (simp add: max_clique_for.simps clique_sizes_for.simps)
  next
    case True
    let ?B = "if is_connected_to_all a v cur
           then max_clique_backtrack a n (v + 1) (cur @ [v]) best else best"
    have lb: "length ?B = fold max (if is_connected_to_all a v cur
         then clique_sizes a n (v + 1) (cur @ [v]) else []) (length best)"
      using "2.IH"(1)[OF True] by simp
    have "length (max_clique_for a n v cur best) = length (max_clique_for a n (v + 1) cur ?B)"
      using True by (subst max_clique_for.simps) simp
    also have "\<dots> = fold max (clique_sizes_for a n (v + 1) cur) (length ?B)"
      using "2.IH"(2)[OF True] by simp
    also have "\<dots> = fold max (clique_sizes_for a n v cur) (length best)"
      unfolding lb using True by (subst (2) clique_sizes_for.simps) simp
    finally show ?thesis .
  qed
qed

lemma count_cliques_eq:
  "st \<le> n \<Longrightarrow> count_cliques_of_size_recursive a n st cur t c =
     c + int (length (filter (\<lambda>s. int s = t) (clique_sizes a n st cur)))"
  "v \<le> n \<Longrightarrow> count_cliques_of_size_for a n v cur t c =
     c + int (length (filter (\<lambda>s. int s = t) (clique_sizes_for a n v cur)))"
proof (induction a n st cur t c and a n v cur t c
       rule: count_cliques_of_size_recursive_count_cliques_of_size_for.induct)
  case (1 a n st cur t c)
  show ?case
  proof (cases "int (length cur) = t")
    case True
    have "filter (\<lambda>s. int s = t) (clique_sizes_for a n st cur) = []"
      using clique_sizes_lower(2)[of _ a n st cur] True by (fastforce simp: filter_empty_conv)
    with True show ?thesis by simp
  next
    case False
    note ne = this
    show ?thesis
    proof (cases "int (length cur) + (n - st) < t")
      case True
      have "filter (\<lambda>s. int s = t) (clique_sizes_for a n st cur) = []"
        using clique_sizes_upper(1)[OF "1.prems", of _ a cur] True
        by (fastforce simp: filter_empty_conv)
      with True ne show ?thesis by simp
    next
      case False
      with ne "1.IH"[OF ne False "1.prems"] show ?thesis by simp
    qed
  qed
next
  case (2 a n v cur t c)
  show ?case
  proof (cases "v < n")
    case False
    then show ?thesis by (simp add: count_cliques_of_size_for.simps clique_sizes_for.simps)
  next
    case True
    then have vn1: "v + 1 \<le> n" by simp
    let ?C = "if is_connected_to_all a v cur
           then count_cliques_of_size_recursive a n (v + 1) (cur @ [v]) t c else c"
    have lc: "?C = c + int (length (filter (\<lambda>s. int s = t) (if is_connected_to_all a v cur
         then clique_sizes a n (v + 1) (cur @ [v]) else [])))"
      using "2.IH"(1)[OF True _ vn1] by simp
    have "count_cliques_of_size_for a n v cur t c
        = count_cliques_of_size_for a n (v + 1) cur t ?C"
      using True by (subst count_cliques_of_size_for.simps) simp
    also have "\<dots> = ?C + int (length (filter (\<lambda>s. int s = t) (clique_sizes_for a n (v + 1) cur)))"
      using "2.IH"(2)[OF True vn1] by simp
    also have "\<dots> = c + int (length (filter (\<lambda>s. int s = t) (clique_sizes_for a n v cur)))"
      unfolding lc using True by (subst (2) clique_sizes_for.simps) simp
    finally show ?thesis .
  qed
qed

lemma max_clique_starts_for:
  "max_clique_starts a n st best = max_clique_for a n st [] best"
proof (induction a n st best rule: max_clique_starts.induct)
  case (1 a n st best)
  show ?case
  proof (cases "st < n")
    case True
    from "1.IH"[OF True] True show ?thesis
      by (subst max_clique_starts.simps, subst max_clique_for.simps) simp
  next
    case False
    then show ?thesis
      by (subst max_clique_starts.simps, subst max_clique_for.simps) simp
  qed
qed

lemma fold_max_Max: "fold max xs (b::nat) = Max (set (b # xs))"
  by (rule Max.set_eq_fold[symmetric])

lemma top_sizes_contain_one:
  assumes "0 < n"
  shows "1 \<in> set (clique_sizes_for a n 0 [])"
  using assms by (subst clique_sizes_for.simps) simp

lemma top_sizes_bounds:
  assumes "s \<in> set (clique_sizes_for a n 0 [])" "0 < n"
  shows "1 \<le> s \<and> int s \<le> n"
  using clique_sizes_lower(2)[OF assms(1)] clique_sizes_upper(2)[OF _ assms(1)] assms(2)
  by simp

lemma count_top:
  assumes "1 \<le> k" "k \<le> n"
  shows "count_cliques_of_size_recursive a n 0 [] k 0
       = int (length (filter (\<lambda>s. int s = k) (clique_sizes_for a n 0 [])))"
proof -
  have "0 \<le> n" using assms by simp
  from count_cliques_eq(1)[OF this, of a "[]" k 0] assms(1) show ?thesis by simp
qed

lemma max_top:
  assumes "0 < n"
  shows "length (max_clique_starts a n 0 []) \<in> set (clique_sizes_for a n 0 [])"
    and "\<forall>s \<in> set (clique_sizes_for a n 0 []). s \<le> length (max_clique_starts a n 0 [])"
proof -
  let ?S = "clique_sizes_for a n 0 []"
  have m: "length (max_clique_starts a n 0 []) = Max (set (0 # ?S))"
    by (simp only: max_clique_starts_for max_clique_length(2) fold_max_Max list.size)
  have "Max (set (0 # ?S)) \<in> set (0 # ?S)" by (rule Max_in) auto
  moreover have "1 \<le> Max (set (0 # ?S))"
    using top_sizes_contain_one[OF assms, of a] by (subst Max_ge_iff) auto
  ultimately show "length (max_clique_starts a n 0 []) \<in> set ?S"
    unfolding m by auto
  show "\<forall>s \<in> set ?S. s \<le> length (max_clique_starts a n 0 [])"
    unfolding m by (auto intro: Max_ge)
qed

lemma sizes_one_vertex: "clique_sizes_for a 1 0 [] = [1]"
  by (simp add: clique_sizes_for.simps)

text \<open>
  C8. For every graph with at least one vertex (every graph \<open>graph_create\<close> returns), and
  when the working storage can be allocated, \<open>graph_max_clique\<close> succeeds and the size it
  reports is the largest \<open>k\<close> for which \<open>graph_count_cliques_of_size\<close> reports a positive
  count: the count for that size is positive, and for every larger \<open>k\<close> the count is 0.
\<close>

theorem max_clique_size_is_largest_counted:
  assumes "0 < g_n g"
  shows "\<exists>r c. graph_max_clique True (Some g) = Some r \<and> 1 \<le> mc_size r
           \<and> graph_count_cliques_of_size True (Some g) (mc_size r) = Some c \<and> 0 < c
           \<and> (\<forall>k. mc_size r < k \<longrightarrow> graph_count_cliques_of_size True (Some g) k = Some 0)"
proof -
  let ?n = "g_n g" and ?a = "build_adjacency_matrix g"
  let ?S = "clique_sizes_for ?a ?n 0 []"
  define m where "m = (if ?n = 1 then 1 else length (max_clique_starts ?a ?n 0 []))"
  have m_in: "m \<in> set ?S" and m_max: "\<forall>s \<in> set ?S. s \<le> m"
    using max_top[OF assms, of ?a] by (auto simp: m_def sizes_one_vertex)
  from top_sizes_bounds[OF m_in assms] have mb: "1 \<le> m" "int m \<le> ?n" by auto
  define r where "r = (if ?n = 1
      then \<lparr>mc_vertices = Some [0], mc_size = 1, mc_is_valid = True\<rparr>
      else \<lparr>mc_vertices = Some (max_clique_starts ?a ?n 0 []), mc_size = int m, mc_is_valid = True\<rparr>)"
  have r: "graph_max_clique True (Some g) = Some r"
  proof (cases "?n = 1")
    case True
    then show ?thesis by (simp add: graph_max_clique_def r_def)
  next
    case False
    with mb have "0 < length (max_clique_starts ?a ?n 0 [])" by (auto simp: m_def)
    with False assms show ?thesis
      by (simp add: graph_max_clique_def Let_def r_def m_def)
  qed
  have rs: "mc_size r = int m" by (simp add: r_def m_def)
  have cnt: "graph_count_cliques_of_size True (Some g) k
      = Some (int (length (filter (\<lambda>s. int s = k) ?S)))" if "1 \<le> k" "k \<le> ?n" for k
    using that count_top[OF that, of ?a] by (simp add: graph_count_cliques_of_size_def)
  have "filter (\<lambda>s. int s = int m) ?S \<noteq> []"
    using m_in by (auto simp: filter_empty_conv)
  then have pos: "0 < int (length (filter (\<lambda>s. int s = int m) ?S))" by simp
  have zero: "graph_count_cliques_of_size True (Some g) k = Some 0" if "int m < k" for k
  proof (cases "k \<le> ?n")
    case True
    have "filter (\<lambda>s. int s = k) ?S = []"
      using m_max that by (fastforce simp: filter_empty_conv)
    with cnt[of k] that mb True show ?thesis by simp
  next
    case False
    with that mb show ?thesis by (simp add: graph_count_cliques_of_size_def)
  qed
  from r rs cnt[of "int m"] mb pos zero show ?thesis by auto
qed

lemma max_clique_triangle:
  "graph_max_clique True (Some triangle)
     = Some \<lparr>mc_vertices = Some [0, 1, 2], mc_size = 3, mc_is_valid = True\<rparr>"
  by code_simp

lemma count_cliques_triangle:
  "graph_count_cliques_of_size True (Some triangle) 3 = Some 1"
  "graph_count_cliques_of_size True (Some triangle) 2 = Some 3"
  by code_simp+

theorem max_clique_size_is_largest_counted_witness:
  "0 < g_n triangle
   \<and> graph_max_clique True (Some triangle)
       = Some \<lparr>mc_vertices = Some [0, 1, 2], mc_size = 3, mc_is_valid = True\<rparr>
   \<and> graph_count_cliques_of_size True (Some triangle) 3 = Some 1
   \<and> graph_count_cliques_of_size True (Some triangle) 4 = Some 0"
proof -
  have p: "0 < g_n triangle" by (simp add: triangle_def)
  from max_clique_size_is_largest_counted[OF p] max_clique_triangle
  have "graph_count_cliques_of_size True (Some triangle) 4 = Some 0" by auto
  with p max_clique_triangle count_cliques_triangle(1) show ?thesis by simp
qed

section \<open>Euler circuits: construction (graph.c)\<close>

text \<open>
  The edge view of \<open>build_edge_view\<close>: the array \<open>edges\<close> of undirected edges (the position
  of an edge is its id, \<open>m\<close> is the length) and, per vertex, the \<open>Vec\<close> \<open>incid\<close> of incident
  edge ids. Edge ids and cursors are never negative and are modelled as naturals; the
  capacity bookkeeping of the arrays (\<open>m_est\<close>, \<open>realloc\<close>) is not modelled.
\<close>

type_synonym UEEdge = "int \<times> int"

record EdgeView =
  ev_edges :: "UEEdge list"
  ev_incid :: "nat list list"

type_synonym ev_state = "UEEdge list \<times> nat list list \<times> int list"

text \<open>The inner loop of \<open>build_edge_view\<close> over the entries of \<open>adj[u]\<close>.\<close>

fun ev_scan :: "int \<Rightarrow> EdgeNode list \<Rightarrow> ev_state \<Rightarrow> ev_state" where
  "ev_scan u [] st = st"
| "ev_scan u (e # es) (edges, incid, loop_half) =
     (let v = en_to e; m = length edges in
      if u = v then
        (let loop_half1 = loop_half[nat u := loop_half ! nat u + 1] in
         if (loop_half1 ! nat u) mod 2 = 0 then
           (let incid1 = incid[nat u := incid ! nat u @ [m]];
                incid2 = incid1[nat u := incid1 ! nat u @ [m]]
            in ev_scan u es (edges @ [(u, u)], incid2, loop_half1))
         else ev_scan u es (edges, incid, loop_half1))
      else if u < v then
        (let incid1 = incid[nat u := incid ! nat u @ [m]];
             incid2 = incid1[nat v := incid1 ! nat v @ [m]]
         in ev_scan u es (edges @ [(u, v)], incid2, loop_half))
      else ev_scan u es (edges, incid, loop_half))"

fun ev_scan_all :: "Graph \<Rightarrow> int list \<Rightarrow> ev_state \<Rightarrow> ev_state" where
  "ev_scan_all g [] st = st"
| "ev_scan_all g (u # us) st = ev_scan_all g us (ev_scan u (adj_list g u) st)"

text \<open>\<open>None\<close> is the return value -1 (an allocation failed: \<open>mem\<close> is false).\<close>

definition build_edge_view :: "bool \<Rightarrow> Graph \<Rightarrow> EdgeView option" where
  "build_edge_view mem g =
     (if \<not> mem then None
      else
        (case ev_scan_all g (map int [0..<nat (g_n g)])
                ([], replicate (nat (g_n g)) [], replicate (nat (g_n g)) 0) of
           (edges, incid, loop_half) \<Rightarrow> Some \<lparr>ev_edges = edges, ev_incid = incid\<rparr>))"

text \<open>
  The state of the main loop of \<open>graph_find_euler_circuit\<close>: the vertex stack, the path
  built so far, the \<open>used\<close> flag per edge id and the cursor \<open>it\<close> per vertex.
\<close>

record hstate =
  h_stack :: "int list"
  h_path :: "int list"
  h_used :: "bool list"
  h_it :: "nat list"

text \<open>\<open>while (it[u] < incid[u].n && used[incid[u].a[it[u]]]) it[u]++\<close>, from cursor \<open>i\<close>.\<close>

function skip_used :: "nat list \<Rightarrow> bool list \<Rightarrow> nat \<Rightarrow> nat" where
  "skip_used inc used i =
     (if i < length inc \<and> used ! (inc ! i) then skip_used inc used (i + 1) else i)"
  by pat_completeness auto
termination
  by (relation "measure (\<lambda>(inc, used, i). length inc - i)") auto

declare skip_used.simps [simp del]

text \<open>One iteration of \<open>while (stack.n)\<close>.\<close>

definition euler_step :: "EdgeView \<Rightarrow> hstate \<Rightarrow> hstate" where
  "euler_step ev s =
     (let u = v_back (h_stack s);
          inc = ev_incid ev ! nat u;
          i = skip_used inc (h_used s) (h_it s ! nat u);
          it1 = (h_it s)[nat u := i]
      in
      if i = length inc then
        s\<lparr>h_stack := snd (v_pop (h_stack s)), h_path := v_push (h_path s) u, h_it := it1\<rparr>
      else
        (let ei = inc ! i;
             it2 = it1[nat u := i + 1]
         in
         if \<not> h_used s ! ei then
           (let used1 = (h_used s)[ei := True];
                a = fst (ev_edges ev ! ei);
                b = snd (ev_edges ev ! ei);
                v = (if u = a then b else a)
            in s\<lparr>h_stack := v_push (h_stack s) v, h_used := used1, h_it := it2\<rparr>)
         else s\<lparr>h_it := it2\<rparr>))"

text \<open>The loop itself; it has no result when it does not terminate.\<close>

partial_function (option) euler_loop :: "EdgeView \<Rightarrow> hstate \<Rightarrow> hstate option" where
  "euler_loop ev s = (if h_stack s = [] then Some s else euler_loop ev (euler_step ev s))"

declare euler_loop.simps [code]

text \<open>
  The outer \<open>None\<close> means that the run has no defined return (out-of-range access or
  non-termination). \<open>Some None\<close> is the return value 0; \<open>Some (Some cycle)\<close> is the return
  value 1 with \<open>*out_cycle = cycle\<close> and \<open>*out_len\<close> its length. The out-pointers are taken
  to be non-\<open>NULL\<close>. \<open>mem\<close> says whether the allocations of the call succeed.
\<close>

definition graph_find_euler_circuit :: "bool \<Rightarrow> Graph option \<Rightarrow> int list option option" where
  "graph_find_euler_circuit mem g =
     (case g of
        None \<Rightarrow> Some None
      | Some gr \<Rightarrow>
          (case graph_has_euler_circuit mem g of
             None \<Rightarrow> None
           | Some False \<Rightarrow> Some None
           | Some True \<Rightarrow>
               (case build_edge_view mem gr of
                  None \<Rightarrow> Some None
                | Some ev \<Rightarrow>
                    (case find (\<lambda>i. length (ev_incid ev ! nat i) > 0)
                            (map int [0..<length (ev_incid ev)]) of
                       None \<Rightarrow> Some None
                     | Some start \<Rightarrow>
                         if \<not> mem then Some None
                         else
                           (case euler_loop ev
                                   \<lparr>h_stack = v_push [] start, h_path = [],
                                    h_used = replicate (length (ev_edges ev)) False,
                                    h_it = replicate (length (ev_incid ev)) 0\<rparr> of
                              None \<Rightarrow> None
                            | Some s \<Rightarrow>
                                (let path = v_reverse (h_path s) in
                                 if length path < 1 then Some None else Some (Some path)))))))"

lemma find_euler_triangle:
  "graph_find_euler_circuit True (Some triangle) = Some (Some [0, 2, 1, 0])"
  by code_simp

subsection \<open>The invariant of the main loop\<close>

definition joins :: "UEEdge \<Rightarrow> int \<Rightarrow> int \<Rightarrow> bool" where
  "joins e x y = ((fst e = x \<and> snd e = y) \<or> (fst e = y \<and> snd e = x))"

definition incidence :: "UEEdge \<Rightarrow> int \<Rightarrow> nat" where
  "incidence e x = (if fst e = x then 1 else 0) + (if snd e = x then 1 else 0)"

text \<open>A well-formed edge view on \<open>n\<close> vertices.\<close>

definition ev_wf :: "int \<Rightarrow> UEEdge list \<Rightarrow> nat list list \<Rightarrow> bool" where
  "ev_wf n E inc =
     (length inc = nat n
      \<and> (\<forall>e \<in> set E. 0 \<le> fst e \<and> fst e \<le> snd e \<and> snd e < n)
      \<and> (\<forall>x i. 0 \<le> x \<and> x < n \<longrightarrow>
            count_list (inc ! nat x) i = (if i < length E then incidence (E ! i) x else 0)))"

definition unused_deg :: "bool list \<Rightarrow> nat list \<Rightarrow> nat" where
  "unused_deg used inc = length (filter (\<lambda>i. \<not> used ! i) inc)"

text \<open>\<open>es\<close> are the ids of the edges between consecutive vertices of \<open>vs\<close>.\<close>

definition trail :: "UEEdge list \<Rightarrow> int list \<Rightarrow> nat list \<Rightarrow> bool" where
  "trail E vs es =
     ((if vs = [] then es = [] else length vs = Suc (length es))
      \<and> (\<forall>i < length es. joins (E ! (es ! i)) (vs ! i) (vs ! Suc i)))"

lemma skip_used_step:
  "i < length inc \<Longrightarrow> used ! (inc ! i) \<Longrightarrow> skip_used inc used i = skip_used inc used (Suc i)"
  by (subst skip_used.simps) simp

lemma skip_used_done:
  assumes "\<not> (i < length inc \<and> used ! (inc ! i))"
  shows "skip_used inc used i = i"
proof -
  have "skip_used inc used i =
      (if i < length inc \<and> used ! (inc ! i) then skip_used inc used (i + 1) else i)"
    by (rule skip_used.simps)
  also have "\<dots> = i" using assms by (rule if_not_P)
  finally show ?thesis .
qed

lemma skip_used_ge: "i \<le> skip_used inc used i"
proof (induction inc used i rule: skip_used.induct)
  case (1 inc used i)
  show ?case
  proof (cases "i < length inc \<and> used ! (inc ! i)")
    case True
    with "1.IH" show ?thesis by (simp add: skip_used_step)
  next
    case False
    then show ?thesis by (simp add: skip_used_done)
  qed
qed

lemma skip_used_le: "i \<le> length inc \<Longrightarrow> skip_used inc used i \<le> length inc"
proof (induction inc used i rule: skip_used.induct)
  case (1 inc used i)
  show ?case
  proof (cases "i < length inc \<and> used ! (inc ! i)")
    case True
    with "1.IH" show ?thesis by (simp add: skip_used_step)
  next
    case False
    with "1.prems" show ?thesis by (simp add: skip_used_done)
  qed
qed

lemma skip_used_skipped: "i \<le> j \<Longrightarrow> j < skip_used inc used i \<Longrightarrow> used ! (inc ! j)"
proof (induction inc used i rule: skip_used.induct)
  case (1 inc used i)
  show ?case
  proof (cases "i < length inc \<and> used ! (inc ! i)")
    case True
    then have eq: "skip_used inc used i = skip_used inc used (i + 1)"
      by (simp add: skip_used_step)
    show ?thesis
    proof (cases "j = i")
      case True
      with \<open>i < length inc \<and> used ! (inc ! i)\<close> show ?thesis by simp
    next
      case False
      with "1.prems" eq "1.IH"[OF True] show ?thesis by simp
    qed
  next
    case False
    then have "skip_used inc used i = i" by (rule skip_used_done)
    with "1.prems" show ?thesis by simp
  qed
qed

lemma skip_used_stop:
  "skip_used inc used i < length inc \<Longrightarrow> \<not> used ! (inc ! skip_used inc used i)"
proof (induction inc used i rule: skip_used.induct)
  case (1 inc used i)
  show ?case
  proof (cases "i < length inc \<and> used ! (inc ! i)")
    case True
    then have eq: "skip_used inc used i = skip_used inc used (i + 1)"
      by (simp add: skip_used_step)
    with "1.prems" "1.IH"[OF True] show ?thesis by simp
  next
    case False
    then have eq: "skip_used inc used i = i" by (rule skip_used_done)
    with "1.prems" False show ?thesis by simp
  qed
qed

lemma unused_deg_mark:
  "\<not> used ! e \<Longrightarrow> e < length used \<Longrightarrow>
   unused_deg (used[e := True]) inc + count_list inc e = unused_deg used inc"
  unfolding unused_deg_def
  by (induction inc) (auto simp: nth_list_update)

lemma unused_deg_zero_iff: "unused_deg used inc = 0 \<longleftrightarrow> (\<forall>i \<in> set inc. used ! i)"
  unfolding unused_deg_def by (auto simp: filter_empty_conv)

lemma unused_deg_all_unused:
  "\<forall>i \<in> set inc. \<not> used ! i \<Longrightarrow> unused_deg used inc = length inc"
  unfolding unused_deg_def by (induction inc) auto

lemma trail_snoc:
  assumes "trail E vs es" "vs \<noteq> []" "joins (E ! e) (last vs) v"
  shows "trail E (vs @ [v]) (es @ [e])"
proof -
  from assms(1,2) have len: "length vs = Suc (length es)" by (simp add: trail_def)
  have "joins (E ! ((es @ [e]) ! i)) ((vs @ [v]) ! i) ((vs @ [v]) ! Suc i)"
    if "i < length (es @ [e])" for i
  proof (cases "i < length es")
    case True
    with assms(1) len show ?thesis by (simp add: trail_def nth_append)
  next
    case False
    with that have i: "i = length es" by simp
    with len assms(2,3) show ?thesis by (simp add: nth_append last_conv_nth)
  qed
  with len show ?thesis by (simp add: trail_def)
qed

lemma trail_single: "trail E [v] []"
  by (simp add: trail_def)

lemma trail_butlast:
  assumes "trail E vs es"
  shows "trail E (butlast vs) (butlast es)"
proof (cases "es = []")
  case True
  with assms have "length vs \<le> 1" by (auto simp: trail_def split: if_splits)
  then have "butlast vs = []" by (cases vs) auto
  with True show ?thesis by (simp add: trail_def)
next
  case False
  with assms have len: "length vs = Suc (length es)" by (auto simp: trail_def split: if_splits)
  have "joins (E ! (butlast es ! i)) (butlast vs ! i) (butlast vs ! Suc i)"
    if "i < length (butlast es)" for i
    using that assms len by (simp add: trail_def nth_butlast)
  moreover have "butlast vs \<noteq> []" using len False by (cases vs) auto
  moreover have "length (butlast vs) = Suc (length (butlast es))" using len False by simp
  ultimately show ?thesis by (simp add: trail_def)
qed

lemma trail_last_edge:
  assumes "trail E vs es" "es \<noteq> []"
  shows "joins (E ! last es) (last (butlast vs)) (last vs)"
proof -
  from assms have len: "length vs = Suc (length es)" by (auto simp: trail_def split: if_splits)
  with assms(2) have "length es - 1 < length es" by simp
  with assms(1) have "joins (E ! (es ! (length es - 1))) (vs ! (length es - 1)) (vs ! Suc (length es - 1))"
    unfolding trail_def by blast
  moreover have "last es = es ! (length es - 1)" using assms(2) by (simp add: last_conv_nth)
  moreover have "vs \<noteq> []" "butlast vs \<noteq> []" using len assms(2) by (cases vs; cases es; auto)+
  moreover have "last vs = vs ! Suc (length es - 1)" using len assms(2) \<open>vs \<noteq> []\<close>
    by (simp add: last_conv_nth)
  moreover have "last (butlast vs) = vs ! (length es - 1)" using len assms(2) \<open>butlast vs \<noteq> []\<close>
    by (simp add: last_conv_nth nth_butlast)
  ultimately show ?thesis by simp
qed

lemma trail_endpoints:
  assumes "trail E vs es" "e \<in> set es" "joins (E ! e) x y"
  shows "x \<in> set vs \<and> y \<in> set vs"
proof -
  from assms(2) obtain i where i: "i < length es" "es ! i = e" by (auto simp: in_set_conv_nth)
  with assms(1) have len: "length vs = Suc (length es)" and j: "joins (E ! e) (vs ! i) (vs ! Suc i)"
    by (auto simp: trail_def split: if_splits)
  from len i have "vs ! i \<in> set vs" "vs ! Suc i \<in> set vs" by auto
  with j assms(3) show ?thesis by (auto simp: joins_def)
qed

definition hinv_shape :: "int \<Rightarrow> UEEdge list \<Rightarrow> hstate \<Rightarrow> bool" where
  "hinv_shape n E s =
     (length (h_used s) = length E \<and> length (h_it s) = nat n
      \<and> (\<forall>x \<in> set (h_stack s) \<union> set (h_path s). 0 \<le> x \<and> x < n))"

definition hinv_cursor :: "int \<Rightarrow> nat list list \<Rightarrow> hstate \<Rightarrow> bool" where
  "hinv_cursor n inc s =
     (\<forall>x. 0 \<le> x \<and> x < n \<longrightarrow>
        h_it s ! nat x \<le> length (inc ! nat x)
        \<and> (\<forall>j < h_it s ! nat x. h_used s ! (inc ! nat x ! j)))"

definition hinv_ghost ::
  "UEEdge list \<Rightarrow> hstate \<Rightarrow> nat list \<Rightarrow> nat list \<Rightarrow> nat list \<Rightarrow> int \<Rightarrow> bool" where
  "hinv_ghost E s fs hs pe c =
     (trail E (h_stack s) fs \<and> trail E (h_path s) hs
      \<and> (pe = [] \<or> (\<exists>g. pe = [g] \<and> h_path s \<noteq> [] \<and> joins (E ! g) (last (h_path s)) c))
      \<and> (h_path s \<noteq> [] \<and> h_stack s \<noteq> [] \<longrightarrow> pe \<noteq> [])
      \<and> (h_stack s = [] \<longrightarrow> pe = [])
      \<and> distinct (fs @ hs @ pe)
      \<and> set (fs @ hs @ pe) = {i. i < length E \<and> h_used s ! i})"

definition hinv_parity :: "int \<Rightarrow> nat list list \<Rightarrow> hstate \<Rightarrow> int \<Rightarrow> bool" where
  "hinv_parity n inc s c =
     (h_stack s \<noteq> [] \<longrightarrow>
        0 \<le> c \<and> c < n
        \<and> (\<forall>x. 0 \<le> x \<and> x < n \<longrightarrow>
              (odd (unused_deg (h_used s) (inc ! nat x))
                 \<longleftrightarrow> last (h_stack s) \<noteq> c \<and> (x = last (h_stack s) \<or> x = c))))"

definition hinv_ends :: "nat list list \<Rightarrow> int \<Rightarrow> hstate \<Rightarrow> int \<Rightarrow> bool" where
  "hinv_ends inc start s c =
     ((\<forall>p \<in> set (h_path s). unused_deg (h_used s) (inc ! nat p) = 0)
      \<and> (h_stack s \<noteq> [] \<longrightarrow> hd (h_stack s) = start)
      \<and> (h_path s \<noteq> [] \<longrightarrow> hd (h_path s) = start)
      \<and> (h_path s = [] \<longrightarrow> c = start \<and> h_stack s \<noteq> [])
      \<and> (h_stack s = [] \<longrightarrow> last (h_path s) = start))"

definition hinv ::
  "int \<Rightarrow> UEEdge list \<Rightarrow> nat list list \<Rightarrow> int \<Rightarrow> hstate
     \<Rightarrow> nat list \<Rightarrow> nat list \<Rightarrow> nat list \<Rightarrow> int \<Rightarrow> bool" where
  "hinv n E inc start s fs hs pe c =
     (hinv_shape n E s \<and> hinv_cursor n inc s \<and> hinv_ghost E s fs hs pe c
      \<and> hinv_parity n inc s c \<and> hinv_ends inc start s c)"

definition hmeasure :: "hstate \<Rightarrow> nat" where
  "hmeasure s = 2 * unvisited (h_used s) + length (h_stack s)"

lemma wf_incid_lt:
  assumes "ev_wf n E inc" "0 \<le> x" "x < n" "i \<in> set (inc ! nat x)"
  shows "i < length E \<and> 0 < incidence (E ! i) x"
proof -
  from assms(4) have "count_list (inc ! nat x) i \<noteq> 0" by (simp add: count_list_0_iff)
  then have "0 < count_list (inc ! nat x) i" by simp
  moreover from assms(1-3) have "count_list (inc ! nat x) i
      = (if i < length E then incidence (E ! i) x else 0)"
    unfolding ev_wf_def by blast
  ultimately show ?thesis by (auto split: if_splits)
qed

lemma incidence_pos_iff: "0 < incidence e x \<longleftrightarrow> fst e = x \<or> snd e = x"
  by (simp add: incidence_def)

lemma wf_count:
  assumes "ev_wf n E inc" "0 \<le> x" "x < n" "i < length E"
  shows "count_list (inc ! nat x) i = incidence (E ! i) x"
  using assms unfolding ev_wf_def by simp

lemma wf_edge_range:
  assumes "ev_wf n E inc" "i < length E"
  shows "0 \<le> fst (E ! i) \<and> fst (E ! i) \<le> snd (E ! i) \<and> snd (E ! i) < n"
  using assms unfolding ev_wf_def by (meson nth_mem)

text \<open>The cursor of the top vertex after the skip loop.\<close>

lemma cursor_after_skip:
  assumes "hinv_cursor n inc s" "0 \<le> u" "u < n"
  defines "i \<equiv> skip_used (inc ! nat u) (h_used s) (h_it s ! nat u)"
  shows "i \<le> length (inc ! nat u)" "\<forall>j < i. h_used s ! (inc ! nat u ! j)"
    "i < length (inc ! nat u) \<longrightarrow> \<not> h_used s ! (inc ! nat u ! i)"
proof -
  from assms(1-3) have c: "h_it s ! nat u \<le> length (inc ! nat u)"
    "\<forall>j < h_it s ! nat u. h_used s ! (inc ! nat u ! j)"
    unfolding hinv_cursor_def by auto
  show "i \<le> length (inc ! nat u)" unfolding i_def using c(1) by (rule skip_used_le)
  show "\<forall>j < i. h_used s ! (inc ! nat u ! j)"
  proof (intro allI impI)
    fix j assume "j < i"
    show "h_used s ! (inc ! nat u ! j)"
    proof (cases "j < h_it s ! nat u")
      case True
      with c(2) show ?thesis by simp
    next
      case False
      then have "h_it s ! nat u \<le> j" by simp
      from skip_used_skipped[OF this] \<open>j < i\<close> show ?thesis unfolding i_def by simp
    qed
  qed
  show "i < length (inc ! nat u) \<longrightarrow> \<not> h_used s ! (inc ! nat u ! i)"
    unfolding i_def using skip_used_stop by blast
qed

lemma joins_sym: "joins e x y \<Longrightarrow> joins e y x"
  by (auto simp: joins_def)

lemma joins_incidence:
  "joins e u v \<Longrightarrow> incidence e x = (if x = u then 1 else 0) + (if x = v then 1 else 0)"
  by (auto simp: joins_def incidence_def)

lemma nat_neq: "0 \<le> x \<Longrightarrow> 0 \<le> u \<Longrightarrow> x \<noteq> u \<Longrightarrow> nat x \<noteq> nat u"
  by (simp add: eq_nat_nat_iff)

lemma hinv_pop:
  assumes wf: "ev_wf n E inc"
    and inv: "hinv n E inc start s fs hs pe c"
    and ne: "h_stack s \<noteq> []"
    and full: "skip_used (inc ! nat (last (h_stack s))) (h_used s) (h_it s ! nat (last (h_stack s)))
                 = length (inc ! nat (last (h_stack s)))"
  defines "s' \<equiv> s\<lparr>h_stack := butlast (h_stack s),
                    h_path := h_path s @ [last (h_stack s)],
                    h_it := (h_it s)[nat (last (h_stack s)) := length (inc ! nat (last (h_stack s)))]\<rparr>"
  shows "\<exists>fs' hs' pe' c'. hinv n E inc start s' fs' hs' pe' c'" and "hmeasure s' < hmeasure s"
proof -
  let ?u = "last (h_stack s)"
  let ?st = "h_stack s" and ?pa = "h_path s"
  from inv have sh: "hinv_shape n E s" and cu: "hinv_cursor n inc s"
    and gh: "hinv_ghost E s fs hs pe c" and pa: "hinv_parity n inc s c"
    and en: "hinv_ends inc start s c"
    by (simp_all add: hinv_def)
  have uin: "?u \<in> set ?st" using ne by simp
  then have ur: "0 \<le> ?u" "?u < n" using sh by (auto simp: hinv_shape_def)
  have lit: "nat ?u < length (h_it s)" using ur sh by (simp add: hinv_shape_def)
  from cursor_after_skip(2)[OF cu ur] full
  have allused: "\<forall>j < length (inc ! nat ?u). h_used s ! (inc ! nat ?u ! j)" by simp
  then have ud0: "unused_deg (h_used s) (inc ! nat ?u) = 0"
    by (auto simp: unused_deg_zero_iff in_set_conv_nth)
  have uc: "?u = c"
  proof (rule ccontr)
    assume "?u \<noteq> c"
    with pa ne ur have "odd (unused_deg (h_used s) (inc ! nat ?u))"
      unfolding hinv_parity_def by blast
    with ud0 show False by simp
  qed
  from gh have tr_st: "trail E ?st fs" and tr_pa: "trail E ?pa hs"
    and pe1: "pe = [] \<or> (\<exists>g. pe = [g] \<and> ?pa \<noteq> [] \<and> joins (E ! g) (last ?pa) c)"
    and pe2: "?pa \<noteq> [] \<and> ?st \<noteq> [] \<longrightarrow> pe \<noteq> []"
    and dist: "distinct (fs @ hs @ pe)"
    and sets: "set (fs @ hs @ pe) = {i. i < length E \<and> h_used s ! i}"
    by (simp_all add: hinv_ghost_def)
  from tr_st ne have lenst: "length ?st = Suc (length fs)" by (simp add: trail_def)
  define fs' where "fs' = butlast fs"
  define hs' where "hs' = hs @ pe"
  define pe' where "pe' = (if fs = [] then [] else [last fs])"
  define c' where "c' = (if butlast ?st = [] then c else last (butlast ?st))"
  have st's: "h_stack s' = butlast ?st" "h_path s' = ?pa @ [?u]" "h_used s' = h_used s"
    "h_it s' = (h_it s)[nat ?u := length (inc ! nat ?u)]"
    by (simp_all add: s'_def)
  have bl_empty: "butlast ?st = [] \<longleftrightarrow> fs = []"
    using lenst by (cases ?st rule: rev_cases) auto
  have 1: "hinv_shape n E s'"
    using sh ur by (auto simp: hinv_shape_def st's dest: in_set_butlastD)
  have 2: "hinv_cursor n inc s'"
    unfolding hinv_cursor_def st's
  proof (intro allI impI)
    fix x assume xr: "0 \<le> x \<and> x < n"
    show "(h_it s)[nat ?u := length (inc ! nat ?u)] ! nat x \<le> length (inc ! nat x) \<and>
        (\<forall>j<(h_it s)[nat ?u := length (inc ! nat ?u)] ! nat x. h_used s ! (inc ! nat x ! j))"
    proof (cases "x = ?u")
      case True
      with lit allused show ?thesis by simp
    next
      case False
      with xr ur have "nat x \<noteq> nat ?u" by (simp add: nat_neq)
      with cu xr show ?thesis by (simp add: hinv_cursor_def)
    qed
  qed
  have tr_pa': "trail E (?pa @ [?u]) hs'"
  proof (cases "?pa = []")
    case True
    with pe1 have "pe = []" by auto
    moreover from tr_pa True have "hs = []" by (simp add: trail_def)
    ultimately show ?thesis using True by (simp add: hs'_def trail_single)
  next
    case False
    with pe1 pe2 ne obtain g where g: "pe = [g]" "joins (E ! g) (last ?pa) c" by auto
    from trail_snoc[OF tr_pa False, of g ?u] g uc show ?thesis by (simp add: hs'_def)
  qed
  have pe'1: "pe' = [] \<or> (\<exists>g. pe' = [g] \<and> h_path s' \<noteq> [] \<and> joins (E ! g) (last (h_path s')) c')"
  proof (cases "fs = []")
    case True
    then show ?thesis by (simp add: pe'_def)
  next
    case False
    from trail_last_edge[OF tr_st False] have "joins (E ! last fs) (last (butlast ?st)) ?u" .
    then have "joins (E ! last fs) ?u (last (butlast ?st))" by (rule joins_sym)
    with False bl_empty show ?thesis by (simp add: pe'_def c'_def st's)
  qed
  have perm: "mset (fs' @ hs' @ pe') = mset (fs @ hs @ pe)"
  proof (cases "fs = []")
    case True
    then show ?thesis by (simp add: fs'_def hs'_def pe'_def)
  next
    case False
    then have "fs = butlast fs @ [last fs]" by simp
    then have "mset fs = mset (butlast fs) + {#last fs#}"
      by (metis mset.simps(1) mset.simps(2) mset_append)
    with False show ?thesis by (simp add: fs'_def hs'_def pe'_def)
  qed
  have 3: "hinv_ghost E s' fs' hs' pe' c'"
    unfolding hinv_ghost_def st's
  proof (intro conjI)
    show "trail E (butlast ?st) fs'" unfolding fs'_def using tr_st by (rule trail_butlast)
    show "trail E (?pa @ [?u]) hs'" by (rule tr_pa')
    show "pe' = [] \<or> (\<exists>g. pe' = [g] \<and> ?pa @ [?u] \<noteq> [] \<and> joins (E ! g) (last (?pa @ [?u])) c')"
      using pe'1 by (simp add: st's)
    show "?pa @ [?u] \<noteq> [] \<and> butlast ?st \<noteq> [] \<longrightarrow> pe' \<noteq> []"
      using bl_empty by (simp add: pe'_def)
    show "butlast ?st = [] \<longrightarrow> pe' = []"
      using bl_empty by (simp add: pe'_def)
    show "distinct (fs' @ hs' @ pe')"
      using dist perm by (metis mset_eq_imp_distinct_iff)
    show "set (fs' @ hs' @ pe') = {i. i < length E \<and> h_used s ! i}"
      using sets perm by (metis mset_eq_setD)
  qed
  have alleven: "\<forall>x. 0 \<le> x \<and> x < n \<longrightarrow> even (unused_deg (h_used s) (inc ! nat x))"
    using pa ne uc unfolding hinv_parity_def by blast
  have 4: "hinv_parity n inc s' c'"
    unfolding hinv_parity_def st's
  proof (intro impI conjI allI)
    assume b: "butlast ?st \<noteq> []"
    then have "last (butlast ?st) \<in> set ?st" by (meson in_set_butlastD last_in_set)
    with sh have "0 \<le> last (butlast ?st) \<and> last (butlast ?st) < n" by (auto simp: hinv_shape_def)
    with b show "0 \<le> c'" "c' < n" by (simp_all add: c'_def)
    fix x assume "0 \<le> x \<and> x < n"
    with alleven b show "odd (unused_deg (h_used s) (inc ! nat x)) =
        (last (butlast ?st) \<noteq> c' \<and> (x = last (butlast ?st) \<or> x = c'))"
      by (simp add: c'_def)
  qed
  have 5: "hinv_ends inc start s' c'"
    unfolding hinv_ends_def st's
  proof (intro conjI impI ballI)
    fix p assume "p \<in> set (?pa @ [?u])"
    with en ud0 show "unused_deg (h_used s) (inc ! nat p) = 0"
      by (auto simp: hinv_ends_def)
  next
    assume "butlast ?st \<noteq> []"
    then have "hd (butlast ?st) = hd ?st" by (cases ?st) auto
    with en ne show "hd (butlast ?st) = start" by (simp add: hinv_ends_def)
  next
    show "hd (?pa @ [?u]) = start"
    proof (cases "?pa = []")
      case True
      with en uc show ?thesis by (simp add: hinv_ends_def)
    next
      case False
      with en show ?thesis by (simp add: hinv_ends_def)
    qed
  next
    assume "?pa @ [?u] = []" then show "c' = start" "butlast ?st \<noteq> []" by simp_all
  next
    assume "butlast ?st = []"
    with ne have "?st = [?u]" by (cases ?st rule: rev_cases) auto
    then have "hd ?st = ?u" by (metis list.sel(1))
    with en ne show "last (?pa @ [?u]) = start" by (simp add: hinv_ends_def)
  qed
  from 1 2 3 4 5 show "\<exists>fs' hs' pe' c'. hinv n E inc start s' fs' hs' pe' c'"
    unfolding hinv_def by blast
  show "hmeasure s' < hmeasure s"
    using ne by (simp add: hmeasure_def st's)
qed

lemma parity_after_edge:
  fixes d d' :: nat
  assumes "d = d' + (if x = u then 1 else 0) + (if x = v then 1 else 0)"
    and "odd d \<longleftrightarrow> u \<noteq> c \<and> (x = u \<or> x = c)"
  shows "odd d' \<longleftrightarrow> v \<noteq> c \<and> (x = v \<or> x = c)"
proof (cases "x = u")
  case xu: True
  show ?thesis
  proof (cases "x = v")
    case True
    with xu assms show ?thesis by auto
  next
    case False
    with xu assms show ?thesis by auto
  qed
next
  case xu: False
  show ?thesis
  proof (cases "x = v")
    case True
    with xu assms show ?thesis by auto
  next
    case False
    with xu assms show ?thesis by auto
  qed
qed

lemma hinv_push:
  assumes wf: "ev_wf n E inc"
    and inv: "hinv n E inc start s fs hs pe c"
    and ne: "h_stack s \<noteq> []"
    and more: "skip_used (inc ! nat (last (h_stack s))) (h_used s) (h_it s ! nat (last (h_stack s)))
                 < length (inc ! nat (last (h_stack s)))"
  defines "i \<equiv> skip_used (inc ! nat (last (h_stack s))) (h_used s) (h_it s ! nat (last (h_stack s)))"
  defines "e \<equiv> inc ! nat (last (h_stack s)) ! i"
  defines "v \<equiv> (if last (h_stack s) = fst (E ! e) then snd (E ! e) else fst (E ! e))"
  defines "s' \<equiv> s\<lparr>h_stack := h_stack s @ [v],
                    h_used := (h_used s)[e := True],
                    h_it := (h_it s)[nat (last (h_stack s)) := i + 1]\<rparr>"
  shows "\<not> h_used s ! e"
    and "\<exists>fs' hs' pe' c'. hinv n E inc start s' fs' hs' pe' c'" and "hmeasure s' < hmeasure s"
proof -
  let ?u = "last (h_stack s)"
  let ?st = "h_stack s" and ?pa = "h_path s"
  from inv have sh: "hinv_shape n E s" and cu: "hinv_cursor n inc s"
    and gh: "hinv_ghost E s fs hs pe c" and pa: "hinv_parity n inc s c"
    and en: "hinv_ends inc start s c"
    by (simp_all add: hinv_def)
  have uin: "?u \<in> set ?st" using ne by simp
  then have ur: "0 \<le> ?u" "?u < n" using sh by (auto simp: hinv_shape_def)
  have lit: "nat ?u < length (h_it s)" using ur sh by (simp add: hinv_shape_def)
  have il: "i < length (inc ! nat ?u)" using more by (simp add: i_def)
  from cursor_after_skip(2)[OF cu ur]
  have before: "\<forall>j < i. h_used s ! (inc ! nat ?u ! j)" by (simp add: i_def)
  from cursor_after_skip(3)[OF cu ur] il
  show unused: "\<not> h_used s ! e" by (simp add: i_def e_def)
  have ein: "e \<in> set (inc ! nat ?u)" using il by (simp add: e_def)
  from wf_incid_lt[OF wf ur ein] have el: "e < length E" and ei: "0 < incidence (E ! e) ?u" by auto
  have elu: "e < length (h_used s)" using el sh by (simp add: hinv_shape_def)
  from ei have "fst (E ! e) = ?u \<or> snd (E ! e) = ?u" by (simp add: incidence_pos_iff)
  then have jn: "joins (E ! e) ?u v" by (auto simp: joins_def v_def)
  from wf_edge_range[OF wf el] have vr: "0 \<le> v" "v < n" by (auto simp: v_def)
  from gh have tr_st: "trail E ?st fs" and tr_pa: "trail E ?pa hs"
    and pe1: "pe = [] \<or> (\<exists>g. pe = [g] \<and> ?pa \<noteq> [] \<and> joins (E ! g) (last ?pa) c)"
    and pe2: "?pa \<noteq> [] \<and> ?st \<noteq> [] \<longrightarrow> pe \<noteq> []"
    and dist: "distinct (fs @ hs @ pe)"
    and sets: "set (fs @ hs @ pe) = {i. i < length E \<and> h_used s ! i}"
    by (simp_all add: hinv_ghost_def)
  have st's: "h_stack s' = ?st @ [v]" "h_path s' = ?pa" "h_used s' = (h_used s)[e := True]"
    "h_it s' = (h_it s)[nat ?u := i + 1]"
    by (simp_all add: s'_def)
  have used_mono: "(h_used s)[e := True] ! k" if "h_used s ! k" for k
    using that elu by (cases "k = e") simp_all
  have used_e: "(h_used s)[e := True] ! e" using elu by simp
  have ud: "unused_deg ((h_used s)[e := True]) (inc ! nat x) + incidence (E ! e) x
      = unused_deg (h_used s) (inc ! nat x)" if "0 \<le> x" "x < n" for x
    using unused_deg_mark[OF unused elu, of "inc ! nat x"] wf_count[OF wf that el] by simp
  have 1: "hinv_shape n E s'"
    using sh vr by (auto simp: hinv_shape_def st's)
  have 2: "hinv_cursor n inc s'"
    unfolding hinv_cursor_def st's
  proof (intro allI impI)
    fix x assume xr: "0 \<le> x \<and> x < n"
    show "(h_it s)[nat ?u := i + 1] ! nat x \<le> length (inc ! nat x) \<and>
        (\<forall>j<(h_it s)[nat ?u := i + 1] ! nat x. (h_used s)[e := True] ! (inc ! nat x ! j))"
    proof (cases "x = ?u")
      case True
      have "(h_used s)[e := True] ! (inc ! nat ?u ! j)" if "j < i + 1" for j
      proof (cases "j < i")
        case True
        with before used_mono show ?thesis by simp
      next
        case False
        with that have "j = i" by simp
        with used_e show ?thesis by (simp add: e_def)
      qed
      with True lit il show ?thesis by simp
    next
      case False
      with xr ur have "nat x \<noteq> nat ?u" by (simp add: nat_neq)
      with cu xr used_mono show ?thesis by (simp add: hinv_cursor_def)
    qed
  qed
  have enotin: "e \<notin> set (fs @ hs @ pe)" using sets unused by auto
  have 3: "hinv_ghost E s' (fs @ [e]) hs pe c"
    unfolding hinv_ghost_def st's
  proof (intro conjI)
    show "trail E (?st @ [v]) (fs @ [e])" using trail_snoc[OF tr_st ne jn] .
    show "trail E ?pa hs" by (rule tr_pa)
    show "pe = [] \<or> (\<exists>g. pe = [g] \<and> ?pa \<noteq> [] \<and> joins (E ! g) (last ?pa) c)" by (rule pe1)
    show "?pa \<noteq> [] \<and> ?st @ [v] \<noteq> [] \<longrightarrow> pe \<noteq> []" using pe2 ne by simp
    show "?st @ [v] = [] \<longrightarrow> pe = []" by simp
    show "distinct ((fs @ [e]) @ hs @ pe)" using dist enotin by auto
    have "{k. k < length E \<and> (h_used s)[e := True] ! k} = insert e {k. k < length E \<and> h_used s ! k}"
      using el elu by (auto simp: nth_list_update)
    then show "set ((fs @ [e]) @ hs @ pe) = {k. k < length E \<and> (h_used s)[e := True] ! k}"
      using sets by auto
  qed
  from pa ne have cr: "0 \<le> c" "c < n"
    and par: "\<And>x. 0 \<le> x \<Longrightarrow> x < n \<Longrightarrow>
       odd (unused_deg (h_used s) (inc ! nat x)) \<longleftrightarrow> ?u \<noteq> c \<and> (x = ?u \<or> x = c)"
    unfolding hinv_parity_def by blast+
  have 4: "hinv_parity n inc s' c"
    unfolding hinv_parity_def st's
  proof (intro impI conjI allI)
    show "0 \<le> c" "c < n" by (rule cr)+
    fix x assume xr: "0 \<le> x \<and> x < n"
    then have x: "0 \<le> x" "x < n" by auto
    have "unused_deg (h_used s) (inc ! nat x)
        = unused_deg ((h_used s)[e := True]) (inc ! nat x)
          + (if x = ?u then 1 else 0) + (if x = v then 1 else 0)"
      using ud[OF x] joins_incidence[OF jn, of x] by simp
    from parity_after_edge[OF this par[OF x]]
    show "odd (unused_deg ((h_used s)[e := True]) (inc ! nat x)) =
        (last (?st @ [v]) \<noteq> c \<and> (x = last (?st @ [v]) \<or> x = c))"
      by simp
  qed
  have 5: "hinv_ends inc start s' c"
    unfolding hinv_ends_def st's
  proof (intro conjI impI ballI)
    fix p assume p: "p \<in> set ?pa"
    with sh have pr: "0 \<le> p" "p < n" by (auto simp: hinv_shape_def)
    from p en have "unused_deg (h_used s) (inc ! nat p) = 0" by (simp add: hinv_ends_def)
    with ud[OF pr] show "unused_deg ((h_used s)[e := True]) (inc ! nat p) = 0" by simp
  next
    show "hd (?st @ [v]) = start" using en ne by (simp add: hinv_ends_def)
  next
    assume "?pa \<noteq> []" with en show "hd ?pa = start" by (simp add: hinv_ends_def)
  next
    assume "?pa = []" with en show "c = start" "?st @ [v] \<noteq> []" by (simp_all add: hinv_ends_def)
  next
    assume "?st @ [v] = []" then show "last ?pa = start" by simp
  qed
  from 1 2 3 4 5 show "\<exists>fs' hs' pe' c'. hinv n E inc start s' fs' hs' pe' c'"
    unfolding hinv_def by blast
  have "Suc (unvisited ((h_used s)[e := True])) = unvisited (h_used s)"
    using unvisited_mark[OF elu unused] .
  then show "hmeasure s' < hmeasure s"
    by (simp add: hmeasure_def st's)
qed

lemma hinv_step:
  assumes wf: "ev_wf n E inc"
    and inv: "hinv n E inc start s fs hs pe c"
    and ne: "h_stack s \<noteq> []"
  shows "(\<exists>fs' hs' pe' c'.
            hinv n E inc start (euler_step \<lparr>ev_edges = E, ev_incid = inc\<rparr> s) fs' hs' pe' c')
         \<and> hmeasure (euler_step \<lparr>ev_edges = E, ev_incid = inc\<rparr> s) < hmeasure s"
proof -
  let ?u = "last (h_stack s)"
  let ?i = "skip_used (inc ! nat ?u) (h_used s) (h_it s ! nat ?u)"
  from inv have sh: "hinv_shape n E s" and cu: "hinv_cursor n inc s"
    by (simp_all add: hinv_def)
  have "?u \<in> set (h_stack s)" using ne by simp
  then have ur: "0 \<le> ?u" "?u < n" using sh by (auto simp: hinv_shape_def)
  from cursor_after_skip(1)[OF cu ur] have ile: "?i \<le> length (inc ! nat ?u)" .
  show ?thesis
  proof (cases "?i = length (inc ! nat ?u)")
    case True
    then have "euler_step \<lparr>ev_edges = E, ev_incid = inc\<rparr> s
        = s\<lparr>h_stack := butlast (h_stack s), h_path := h_path s @ [?u],
             h_it := (h_it s)[nat ?u := length (inc ! nat ?u)]\<rparr>"
      by (simp add: euler_step_def Let_def v_back_def v_pop_def v_push_def)
    with hinv_pop[OF wf inv ne True] show ?thesis by simp
  next
    case False
    with ile have lt: "?i < length (inc ! nat ?u)" by simp
    note p = hinv_push[OF wf inv ne lt]
    from p(1) False have "euler_step \<lparr>ev_edges = E, ev_incid = inc\<rparr> s
        = s\<lparr>h_stack := h_stack s @
               [if ?u = fst (E ! (inc ! nat ?u ! ?i)) then snd (E ! (inc ! nat ?u ! ?i))
                else fst (E ! (inc ! nat ?u ! ?i))],
             h_used := (h_used s)[inc ! nat ?u ! ?i := True],
             h_it := (h_it s)[nat ?u := ?i + 1]\<rparr>"
      by (simp add: euler_step_def Let_def v_back_def v_pop_def v_push_def)
    with p(2,3) show ?thesis by simp
  qed
qed

lemma euler_loop_terminates:
  assumes wf: "ev_wf n E inc"
    and inv: "hinv n E inc start s fs hs pe c"
  shows "\<exists>s' fs' hs' pe' c'. euler_loop \<lparr>ev_edges = E, ev_incid = inc\<rparr> s = Some s'
           \<and> h_stack s' = [] \<and> hinv n E inc start s' fs' hs' pe' c'"
  using inv
proof (induction "hmeasure s" arbitrary: s fs hs pe c rule: less_induct)
  case less
  let ?ev = "\<lparr>ev_edges = E, ev_incid = inc\<rparr>"
  show ?case
  proof (cases "h_stack s = []")
    case True
    then have "euler_loop ?ev s = Some s" by (subst euler_loop.simps) simp
    with True less.prems show ?thesis by blast
  next
    case False
    from hinv_step[OF wf less.prems False] obtain fs1 hs1 pe1 c1 where
      i1: "hinv n E inc start (euler_step ?ev s) fs1 hs1 pe1 c1"
      and m1: "hmeasure (euler_step ?ev s) < hmeasure s" by blast
    from less.hyps[OF m1 i1] obtain s' fs' hs' pe' c' where
      r: "euler_loop ?ev (euler_step ?ev s) = Some s'" "h_stack s' = []"
         "hinv n E inc start s' fs' hs' pe' c'" by blast
    have "euler_loop ?ev s = euler_loop ?ev (euler_step ?ev s)"
      using False by (subst euler_loop.simps) simp
    with r show ?thesis by auto
  qed
qed

text \<open>An undirected edge, written with its smaller endpoint first.\<close>

definition norm_edge :: "int \<times> int \<Rightarrow> UEEdge" where
  "norm_edge p = (min (fst p) (snd p), max (fst p) (snd p))"

text \<open>The undirected edges a vertex sequence traverses, in order.\<close>

definition traversed :: "int list \<Rightarrow> UEEdge list" where
  "traversed cyc = map norm_edge (zip cyc (tl cyc))"

definition ev_rel :: "UEEdge list \<Rightarrow> (int \<times> int) set" where
  "ev_rel E = {(x, y). \<exists>i < length E. joins (E ! i) x y}"

lemma trail_rev:
  assumes "trail E vs es"
  shows "trail E (rev vs) (rev es)"
proof (cases "vs = []")
  case True
  with assms show ?thesis by (simp add: trail_def)
next
  case False
  with assms have len: "length vs = Suc (length es)" by (simp add: trail_def)
  have "joins (E ! (rev es ! i)) (rev vs ! i) (rev vs ! Suc i)" if "i < length es" for i
  proof -
    let ?k = "length es - Suc i"
    from that have k: "?k < length es" by simp
    with assms have "joins (E ! (es ! ?k)) (vs ! ?k) (vs ! Suc ?k)" by (simp add: trail_def)
    then have "joins (E ! (es ! ?k)) (vs ! Suc ?k) (vs ! ?k)" by (rule joins_sym)
    moreover have "rev es ! i = es ! ?k" using that by (simp add: rev_nth)
    moreover have "rev vs ! i = vs ! Suc ?k" using that len by (simp add: rev_nth Suc_diff_Suc)
    moreover have "rev vs ! Suc i = vs ! ?k" using that len by (simp add: rev_nth)
    ultimately show ?thesis by simp
  qed
  with len False show ?thesis by (simp add: trail_def)
qed

lemma trail_traversed:
  assumes "trail E vs es" "\<forall>e \<in> set es. e < length E" "\<forall>e \<in> set E. fst e \<le> snd e"
  shows "traversed vs = map (nth E) es"
proof (cases "vs = []")
  case True
  with assms(1) show ?thesis by (simp add: trail_def traversed_def)
next
  case False
  with assms(1) have len: "length vs = Suc (length es)" by (simp add: trail_def)
  show ?thesis
    unfolding traversed_def
  proof (rule nth_equalityI)
    show "length (map norm_edge (zip vs (tl vs))) = length (map (nth E) es)" using len by simp
    fix i assume "i < length (map norm_edge (zip vs (tl vs)))"
    with len have i: "i < length es" by simp
    with assms(1) have j: "joins (E ! (es ! i)) (vs ! i) (vs ! Suc i)" by (simp add: trail_def)
    from i assms(2,3) have "fst (E ! (es ! i)) \<le> snd (E ! (es ! i))" by auto
    with j have "norm_edge (vs ! i, vs ! Suc i) = E ! (es ! i)"
      by (auto simp: joins_def norm_edge_def prod_eq_iff)
    with i len show "map norm_edge (zip vs (tl vs)) ! i = map (nth E) es ! i"
      by (simp add: nth_tl)
  qed
qed

lemma final_circuit:
  assumes wf: "ev_wf n E inc"
    and inv: "hinv n E inc start s fs hs pe c"
    and emp: "h_stack s = []"
    and conn: "\<forall>i < length E. (start, fst (E ! i)) \<in> (ev_rel E)\<^sup>*"
  shows "mset (traversed (rev (h_path s))) = mset E"
    and "length (rev (h_path s)) = Suc (length E)"
    and "hd (rev (h_path s)) = last (rev (h_path s))"
proof -
  let ?pa = "h_path s"
  from inv have sh: "hinv_shape n E s" and gh: "hinv_ghost E s fs hs pe c"
    and en: "hinv_ends inc start s c"
    by (simp_all add: hinv_def)
  from en emp have pne: "?pa \<noteq> []" and lst: "last ?pa = start" and hdp: "hd ?pa = start"
    and fin: "\<forall>p \<in> set ?pa. unused_deg (h_used s) (inc ! nat p) = 0"
    by (auto simp: hinv_ends_def)
  from gh emp have pe: "pe = []" and tr: "trail E ?pa hs" and trs: "trail E [] fs"
    and dist: "distinct (fs @ hs @ pe)"
    and sets: "set (fs @ hs @ pe) = {i. i < length E \<and> h_used s ! i}"
    by (auto simp: hinv_ghost_def)
  from trs have fs: "fs = []" by (simp add: trail_def)
  from dist sets pe fs have dhs: "distinct hs" and shs: "set hs = {i. i < length E \<and> h_used s ! i}"
    by simp_all
  have pr: "\<And>p. p \<in> set ?pa \<Longrightarrow> 0 \<le> p \<and> p < n" using sh by (auto simp: hinv_shape_def)
  have used_at: "h_used s ! i" if "p \<in> set ?pa" "i < length E" "0 < incidence (E ! i) p" for p i
  proof -
    from pr[OF that(1)] have r: "0 \<le> p" "p < n" by auto
    from wf_count[OF wf r that(2)] that(3) have "count_list (inc ! nat p) i \<noteq> 0" by simp
    then have "i \<in> set (inc ! nat p)" by (simp add: count_list_0_iff)
    with fin that(1) show ?thesis by (auto simp: unused_deg_zero_iff)
  qed
  have reach: "y \<in> set ?pa" if "(start, y) \<in> (ev_rel E)\<^sup>*" for y
    using that
  proof (induction rule: rtrancl_induct)
    case base
    show ?case using pne lst by (metis last_in_set)
  next
    case (step y z)
    from step.hyps(2) obtain i where i: "i < length E" "joins (E ! i) y z"
      by (auto simp: ev_rel_def)
    from i(2) have "0 < incidence (E ! i) y" by (auto simp: joins_def incidence_def)
    from used_at[OF step.IH i(1) this] i(1) have "i \<in> set hs" by (simp add: shs)
    from trail_endpoints[OF tr this i(2)] show ?case by simp
  qed
  have allused: "h_used s ! i" if "i < length E" for i
  proof -
    from conn that have "(start, fst (E ! i)) \<in> (ev_rel E)\<^sup>*" by simp
    from reach[OF this] have "fst (E ! i) \<in> set ?pa" .
    moreover have "0 < incidence (E ! i) (fst (E ! i))" by (simp add: incidence_def)
    ultimately show ?thesis using used_at that by blast
  qed
  then have "set hs = set [0..<length E]" using shs by auto
  with dhs have mhs: "mset hs = mset [0..<length E]"
    by (metis distinct_upt set_eq_iff_mset_eq_distinct)
  have "mset (map (nth E) hs) = image_mset (nth E) (mset hs)" by simp
  also have "\<dots> = mset (map (nth E) [0..<length E])" unfolding mhs by simp
  also have "\<dots> = mset E" by (simp add: map_nth)
  finally have mE: "mset (map (nth E) hs) = mset E" .
  have lt: "\<forall>e \<in> set (rev hs). e < length E" using shs by auto
  have ord: "\<forall>e \<in> set E. fst e \<le> snd e" using wf by (auto simp: ev_wf_def)
  from trail_traversed[OF trail_rev[OF tr] lt ord]
  have "traversed (rev ?pa) = map (nth E) (rev hs)" .
  then show "mset (traversed (rev ?pa)) = mset E" using mE by (simp add: rev_map[symmetric])
  from mhs have "length hs = length E" by (metis length_upt mset_eq_length minus_nat.diff_0)
  with tr pne show "length (rev ?pa) = Suc (length E)" by (simp add: trail_def)
  show "hd (rev ?pa) = last (rev ?pa)"
    using pne lst hdp by (simp add: hd_rev last_rev)
qed

lemma hinv_initial:
  assumes wf: "ev_wf n E inc" and sr: "0 \<le> start" "start < n"
    and ev: "\<forall>x. 0 \<le> x \<and> x < n \<longrightarrow> even (length (inc ! nat x))"
  shows "hinv n E inc start
           \<lparr>h_stack = v_push [] start, h_path = [],
            h_used = replicate (length E) False, h_it = replicate (length inc) 0\<rparr> [] [] [] start"
proof -
  let ?s = "\<lparr>h_stack = v_push [] start, h_path = [],
            h_used = replicate (length E) False, h_it = replicate (length inc) 0\<rparr>"
  have li: "length inc = nat n" using wf by (simp add: ev_wf_def)
  have ud: "unused_deg (replicate (length E) False) (inc ! nat x) = length (inc ! nat x)"
    if "0 \<le> x" "x < n" for x
  proof (rule unused_deg_all_unused, rule ballI)
    fix i assume "i \<in> set (inc ! nat x)"
    from wf_incid_lt[OF wf that this] show "\<not> replicate (length E) False ! i" by simp
  qed
  have 1: "hinv_shape n E ?s" using sr li by (simp add: hinv_shape_def v_push_def)
  have 2: "hinv_cursor n inc ?s" using li by (simp add: hinv_cursor_def)
  have 3: "hinv_ghost E ?s [] [] [] start"
    by (simp add: hinv_ghost_def v_push_def trail_def)
  have 4: "hinv_parity n inc ?s start"
    using sr ev ud by (simp add: hinv_parity_def v_push_def)
  have 5: "hinv_ends inc start ?s start"
    by (simp add: hinv_ends_def v_push_def)
  from 1 2 3 4 5 show ?thesis by (simp add: hinv_def)
qed

subsection \<open>The edge view of a graph\<close>

text \<open>
  The undirected edges of a graph with their multiplicities: one edge \<open>(u, v)\<close> for every
  adjacency entry \<open>u \<rightarrow> v\<close> with \<open>u < v\<close>, and one self-loop \<open>(u, u)\<close> for every two entries
  \<open>u \<rightarrow> u\<close>.
\<close>

definition graph_edge_row :: "Graph \<Rightarrow> int \<Rightarrow> UEEdge list" where
  "graph_edge_row g u =
     map (\<lambda>e. (u, en_to e)) (filter (\<lambda>e. u < en_to e) (adj_list g u))
     @ replicate (nat (count_neighbor g u u) div 2) (u, u)"

definition graph_edge_list :: "Graph \<Rightarrow> UEEdge list" where
  "graph_edge_list g = concat (map (graph_edge_row g) (map int [0..<nat (g_n g)]))"

definition graph_edges :: "Graph \<Rightarrow> UEEdge multiset" where
  "graph_edges g = mset (graph_edge_list g)"

lemma ev_add_wf:
  assumes wf: "ev_wf n E inc" and r: "0 \<le> a" "a \<le> b" "b < n"
  defines "m \<equiv> length E"
  defines "inc1 \<equiv> inc[nat a := inc ! nat a @ [m]]"
  defines "inc2 \<equiv> inc1[nat b := inc1 ! nat b @ [m]]"
  shows "ev_wf n (E @ [(a, b)]) inc2"
proof -
  from wf have li: "length inc = nat n"
    and cnt: "\<And>x i. 0 \<le> x \<Longrightarrow> x < n \<Longrightarrow>
       count_list (inc ! nat x) i = (if i < length E then incidence (E ! i) x else 0)"
    and er: "\<forall>e \<in> set E. 0 \<le> fst e \<and> fst e \<le> snd e \<and> snd e < n"
    unfolding ev_wf_def by auto
  have la: "nat a < length inc" "nat b < length inc" using r li by auto
  have nth2: "inc2 ! nat x = inc ! nat x @ (if x = a then [m] else []) @ (if x = b then [m] else [])"
    if "0 \<le> x" "x < n" for x
  proof -
    have xl: "nat x < length inc" using that li by auto
    have e1: "nat x = nat a \<longleftrightarrow> x = a" using that r by (simp add: eq_nat_nat_iff)
    have e2: "nat x = nat b \<longleftrightarrow> x = b" using that r by (simp add: eq_nat_nat_iff)
    have l1: "length inc1 = length inc" by (simp add: inc1_def)
    have i1: "inc1 ! nat y = inc ! nat y @ (if y = a then [m] else [])" if "0 \<le> y" "y < n" for y
    proof (cases "y = a")
      case True
      then show ?thesis using la by (simp add: inc1_def)
    next
      case False
      then have "nat a \<noteq> nat y" using that r by (simp add: eq_nat_nat_iff)
      then show ?thesis using False by (simp add: inc1_def)
    qed
    show ?thesis
    proof (cases "x = b")
      case True
      then show ?thesis using la l1 i1[of b] r by (simp add: inc2_def)
    next
      case False
      then have "nat b \<noteq> nat x" using that r by (simp add: eq_nat_nat_iff)
      then have "inc2 ! nat x = inc1 ! nat x" by (simp add: inc2_def)
      with False i1[OF that] show ?thesis by simp
    qed
  qed
  have c2: "count_list (inc2 ! nat x) i
      = (if i < length (E @ [(a, b)]) then incidence ((E @ [(a, b)]) ! i) x else 0)"
    if "0 \<le> x" "x < n" for x i
  proof -
    consider "i < m" | "i = m" | "m < i" by linarith
    then show ?thesis
    proof cases
      case 1
      then show ?thesis using nth2[OF that] cnt[OF that, of i]
        by (simp add: m_def nth_append)
    next
      case 2
      then show ?thesis using nth2[OF that] cnt[OF that, of i]
        by (simp add: m_def nth_append incidence_def)
    next
      case 3
      then show ?thesis using nth2[OF that] cnt[OF that, of i]
        by (simp add: m_def)
    qed
  qed
  show ?thesis
    unfolding ev_wf_def
  proof (intro conjI)
    show "length inc2 = nat n" using li by (simp add: inc1_def inc2_def)
    show "\<forall>e \<in> set (E @ [(a, b)]). 0 \<le> fst e \<and> fst e \<le> snd e \<and> snd e < n"
      using er r by auto
    show "\<forall>x i. 0 \<le> x \<and> x < n \<longrightarrow> count_list (inc2 ! nat x) i
        = (if i < length (E @ [(a, b)]) then incidence ((E @ [(a, b)]) ! i) x else 0)"
      using c2 by blast
  qed
qed

text \<open>The number of loop edges emitted for \<open>k\<close> further loop entries when \<open>h\<close> were seen.\<close>

definition loops_emitted :: "int \<Rightarrow> nat \<Rightarrow> nat" where
  "loops_emitted h k = nat ((h + int k) div 2 - h div 2)"

lemma loops_emitted_0: "loops_emitted h 0 = 0"
  by (simp add: loops_emitted_def)

lemma loops_emitted_Suc:
  "loops_emitted h (Suc k) = (if (h + 1) mod 2 = 0 then 1 else 0) + loops_emitted (h + 1) k"
proof -
  have a: "(h + 1) div 2 - h div 2 = (if (h + 1) mod 2 = 0 then 1 else 0)" by presburger
  have b: "0 \<le> (h + 1 + int k) div 2 - (h + 1) div 2" by (simp add: zdiv_mono1)
  have c: "0 \<le> (h + 1) div 2 - h div 2" by (simp add: zdiv_mono1)
  have "loops_emitted h (Suc k) = nat (((h + 1 + int k) div 2 - (h + 1) div 2) + ((h + 1) div 2 - h div 2))"
    by (simp add: loops_emitted_def algebra_simps)
  also have "\<dots> = nat ((h + 1 + int k) div 2 - (h + 1) div 2) + nat ((h + 1) div 2 - h div 2)"
    using b c by (rule nat_add_distrib)
  finally show ?thesis unfolding a by (simp add: loops_emitted_def)
qed

lemma ev_scan_spec:
  assumes "ev_wf n E inc" "0 \<le> u" "u < n" "nat u < length lh"
    and "\<forall>e \<in> set es. 0 \<le> en_to e \<and> en_to e < n"
  shows "\<exists>E' inc' lh'. ev_scan u es (E, inc, lh) = (E', inc', lh') \<and> ev_wf n E' inc'
     \<and> length lh' = length lh
     \<and> (\<forall>x. x \<noteq> nat u \<longrightarrow> lh' ! x = lh ! x)
     \<and> mset E' = mset E
         + mset (map (\<lambda>e. (u, en_to e)) (filter (\<lambda>e. u < en_to e) es))
         + replicate_mset (loops_emitted (lh ! nat u) (length (filter (\<lambda>e. en_to e = u) es))) (u, u)"
  using assms
proof (induction es arbitrary: E inc lh)
  case Nil
  then show ?case by (simp add: loops_emitted_0)
next
  case (Cons e es)
  let ?v = "en_to e"
  from Cons.prems(5) have vr: "0 \<le> ?v" "?v < n"
    and rest: "\<forall>e \<in> set es. 0 \<le> en_to e \<and> en_to e < n" by auto
  show ?case
  proof (cases "u = ?v")
    case True
    let ?lh1 = "lh[nat u := lh ! nat u + 1]"
    have l1: "nat u < length ?lh1" "?lh1 ! nat u = lh ! nat u + 1"
      using Cons.prems(4) by simp_all
    have kk: "length (filter (\<lambda>e. en_to e = u) (e # es)) = Suc (length (filter (\<lambda>e. en_to e = u) es))"
      using True by simp
    have nof: "filter (\<lambda>e. u < en_to e) (e # es) = filter (\<lambda>e. u < en_to e) es"
      using True by simp
    show ?thesis
    proof (cases "(lh ! nat u + 1) mod 2 = 0")
      case even: True
      let ?m = "length E"
      let ?inc1 = "inc[nat u := inc ! nat u @ [?m]]"
      let ?inc2 = "?inc1[nat u := ?inc1 ! nat u @ [?m]]"
      have wf2: "ev_wf n (E @ [(u, u)]) ?inc2"
        using ev_add_wf[OF Cons.prems(1) Cons.prems(2) order_refl Cons.prems(3)] .
      from Cons.IH[OF wf2 Cons.prems(2,3) l1(1) rest] obtain E' inc' lh' where
        r: "ev_scan u es (E @ [(u, u)], ?inc2, ?lh1) = (E', inc', lh')" "ev_wf n E' inc'"
          "length lh' = length ?lh1" "\<forall>x. x \<noteq> nat u \<longrightarrow> lh' ! x = ?lh1 ! x"
          "mset E' = mset (E @ [(u, u)])
             + mset (map (\<lambda>e. (u, en_to e)) (filter (\<lambda>e. u < en_to e) es))
             + replicate_mset (loops_emitted (?lh1 ! nat u) (length (filter (\<lambda>e. en_to e = u) es))) (u, u)"
        by blast
      have step: "ev_scan u (e # es) (E, inc, lh) = (E', inc', lh')"
        using True even r(1) l1 by (simp add: Let_def)
      have "mset E' = mset E
         + mset (map (\<lambda>e. (u, en_to e)) (filter (\<lambda>e. u < en_to e) (e # es)))
         + replicate_mset (loops_emitted (lh ! nat u) (length (filter (\<lambda>e. en_to e = u) (e # es)))) (u, u)"
        unfolding r(5) nof kk loops_emitted_Suc l1(2) using even by simp
      with step r(2,3,4) show ?thesis by auto
    next
      case odd: False
      from Cons.IH[OF Cons.prems(1,2,3) l1(1) rest] obtain E' inc' lh' where
        r: "ev_scan u es (E, inc, ?lh1) = (E', inc', lh')" "ev_wf n E' inc'"
          "length lh' = length ?lh1" "\<forall>x. x \<noteq> nat u \<longrightarrow> lh' ! x = ?lh1 ! x"
          "mset E' = mset E
             + mset (map (\<lambda>e. (u, en_to e)) (filter (\<lambda>e. u < en_to e) es))
             + replicate_mset (loops_emitted (?lh1 ! nat u) (length (filter (\<lambda>e. en_to e = u) es))) (u, u)"
        by blast
      have step: "ev_scan u (e # es) (E, inc, lh) = (E', inc', lh')"
        using True odd r(1) l1 by (simp add: Let_def)
      have "mset E' = mset E
         + mset (map (\<lambda>e. (u, en_to e)) (filter (\<lambda>e. u < en_to e) (e # es)))
         + replicate_mset (loops_emitted (lh ! nat u) (length (filter (\<lambda>e. en_to e = u) (e # es)))) (u, u)"
        unfolding r(5) nof kk loops_emitted_Suc l1(2) using odd by simp
      with step r(2,3,4) show ?thesis by auto
    qed
  next
    case ne: False
    have kk: "filter (\<lambda>e. en_to e = u) (e # es) = filter (\<lambda>e. en_to e = u) es"
      using ne by auto
    show ?thesis
    proof (cases "u < ?v")
      case True
      let ?m = "length E"
      let ?inc1 = "inc[nat u := inc ! nat u @ [?m]]"
      let ?inc2 = "?inc1[nat ?v := ?inc1 ! nat ?v @ [?m]]"
      have wf2: "ev_wf n (E @ [(u, ?v)]) ?inc2"
        using ev_add_wf[OF Cons.prems(1) Cons.prems(2) less_imp_le[OF True] vr(2)] .
      from Cons.IH[OF wf2 Cons.prems(2,3,4) rest] obtain E' inc' lh' where
        r: "ev_scan u es (E @ [(u, ?v)], ?inc2, lh) = (E', inc', lh')" "ev_wf n E' inc'"
          "length lh' = length lh" "\<forall>x. x \<noteq> nat u \<longrightarrow> lh' ! x = lh ! x"
          "mset E' = mset (E @ [(u, ?v)])
             + mset (map (\<lambda>e. (u, en_to e)) (filter (\<lambda>e. u < en_to e) es))
             + replicate_mset (loops_emitted (lh ! nat u) (length (filter (\<lambda>e. en_to e = u) es))) (u, u)"
        by blast
      have step: "ev_scan u (e # es) (E, inc, lh) = (E', inc', lh')"
        using True ne r(1) by (simp add: Let_def)
      have "mset E' = mset E
         + mset (map (\<lambda>e. (u, en_to e)) (filter (\<lambda>e. u < en_to e) (e # es)))
         + replicate_mset (loops_emitted (lh ! nat u) (length (filter (\<lambda>e. en_to e = u) (e # es)))) (u, u)"
        unfolding r(5) kk using True by simp
      with step r(2,3,4) show ?thesis by auto
    next
      case False
      from Cons.IH[OF Cons.prems(1,2,3,4) rest] obtain E' inc' lh' where
        r: "ev_scan u es (E, inc, lh) = (E', inc', lh')" "ev_wf n E' inc'"
          "length lh' = length lh" "\<forall>x. x \<noteq> nat u \<longrightarrow> lh' ! x = lh ! x"
          "mset E' = mset E
             + mset (map (\<lambda>e. (u, en_to e)) (filter (\<lambda>e. u < en_to e) es))
             + replicate_mset (loops_emitted (lh ! nat u) (length (filter (\<lambda>e. en_to e = u) es))) (u, u)"
        by blast
      have step: "ev_scan u (e # es) (E, inc, lh) = (E', inc', lh')"
        using False ne r(1) by (simp add: Let_def)
      have "mset E' = mset E
         + mset (map (\<lambda>e. (u, en_to e)) (filter (\<lambda>e. u < en_to e) (e # es)))
         + replicate_mset (loops_emitted (lh ! nat u) (length (filter (\<lambda>e. en_to e = u) (e # es)))) (u, u)"
        unfolding r(5) kk using False by simp
      with step r(2,3,4) show ?thesis by auto
    qed
  qed
qed

lemma loops_emitted_from_zero: "loops_emitted 0 k = k div 2"
  by (simp add: loops_emitted_def)

lemma ev_scan_all_spec:
  assumes "targets_in_range g" "ev_wf (g_n g) E inc" "length lh = nat (g_n g)"
    and "distinct us" "\<forall>u \<in> set us. 0 \<le> u \<and> u < g_n g" "\<forall>u \<in> set us. lh ! nat u = 0"
  shows "\<exists>E' inc' lh'. ev_scan_all g us (E, inc, lh) = (E', inc', lh') \<and> ev_wf (g_n g) E' inc'
     \<and> mset E' = mset E + mset (concat (map (graph_edge_row g) us))"
  using assms(2-)
proof (induction us arbitrary: E inc lh)
  case Nil
  then show ?case by simp
next
  case (Cons u us)
  from Cons.prems(4) have ur: "0 \<le> u" "u < g_n g" by auto
  with Cons.prems(2) have ul: "nat u < length lh" by simp
  from assms(1) ur have tr: "\<forall>e \<in> set (adj_list g u). 0 \<le> en_to e \<and> en_to e < g_n g"
    unfolding targets_in_range_def by blast
  from ev_scan_spec[OF Cons.prems(1) ur ul tr] obtain E1 inc1 lh1 where
    s: "ev_scan u (adj_list g u) (E, inc, lh) = (E1, inc1, lh1)" "ev_wf (g_n g) E1 inc1"
       "length lh1 = length lh" "\<forall>x. x \<noteq> nat u \<longrightarrow> lh1 ! x = lh ! x"
       "mset E1 = mset E
         + mset (map (\<lambda>e. (u, en_to e)) (filter (\<lambda>e. u < en_to e) (adj_list g u)))
         + replicate_mset (loops_emitted (lh ! nat u)
              (length (filter (\<lambda>e. en_to e = u) (adj_list g u)))) (u, u)"
    by blast
  have lhu: "lh ! nat u = 0" using Cons.prems(5) by simp
  have "nat (count_neighbor g u u) = length (filter (\<lambda>e. en_to e = u) (adj_list g u))"
    by (simp add: count_neighbor_eq)
  then have row: "mset E1 = mset E + mset (graph_edge_row g u)"
    unfolding s(5) lhu loops_emitted_from_zero graph_edge_row_def by simp
  have z: "\<forall>x \<in> set us. lh1 ! nat x = 0"
  proof
    fix x assume x: "x \<in> set us"
    with Cons.prems(3) have "x \<noteq> u" by auto
    moreover from x Cons.prems(4) have "0 \<le> x" by auto
    ultimately have "nat x \<noteq> nat u" using ur by (simp add: eq_nat_nat_iff)
    with s(4) x Cons.prems(5) show "lh1 ! nat x = 0" by simp
  qed
  from Cons.prems(3,4) have d: "distinct us" "\<forall>u \<in> set us. 0 \<le> u \<and> u < g_n g" by auto
  from Cons.IH[OF s(2) _ d z] s(3) Cons.prems(2) obtain E' inc' lh' where
    r: "ev_scan_all g us (E1, inc1, lh1) = (E', inc', lh')" "ev_wf (g_n g) E' inc'"
       "mset E' = mset E1 + mset (concat (map (graph_edge_row g) us))"
    by auto
  from r s(1) row show ?case by simp
qed

lemma vertex_list_distinct: "distinct (map int [0..<k])"
  by (simp add: distinct_map inj_on_def)

lemma build_edge_view_spec:
  assumes "graph_inv g"
  shows "\<exists>ev. build_edge_view True g = Some ev
           \<and> ev_wf (g_n g) (ev_edges ev) (ev_incid ev)
           \<and> mset (ev_edges ev) = graph_edges g"
proof -
  let ?n = "g_n g"
  have tr: "targets_in_range g" using assms by (simp add: graph_inv_def)
  have wf0: "ev_wf ?n [] (replicate (nat ?n) [])"
    by (simp add: ev_wf_def)
  have l0: "length (replicate (nat ?n) (0::int)) = nat ?n" by simp
  have r0: "\<forall>u \<in> set (map int [0..<nat ?n]). 0 \<le> u \<and> u < ?n"
    unfolding vertex_list_set by simp
  have z0: "\<forall>u \<in> set (map int [0..<nat ?n]). replicate (nat ?n) (0::int) ! nat u = 0"
    by auto
  from ev_scan_all_spec[OF tr wf0 l0 vertex_list_distinct r0 z0] obtain E' inc' lh' where
    r: "ev_scan_all g (map int [0..<nat ?n]) ([], replicate (nat ?n) [], replicate (nat ?n) 0)
          = (E', inc', lh')" "ev_wf ?n E' inc'"
       "mset E' = mset [] + mset (concat (map (graph_edge_row g) (map int [0..<nat ?n])))"
    by blast
  then show ?thesis
    by (simp add: build_edge_view_def graph_edges_def graph_edge_list_def)
qed

lemma incid_length:
  assumes wf: "ev_wf n E inc" and r: "0 \<le> x" "x < n"
  shows "length (inc ! nat x) = sum_list (map (\<lambda>e. incidence e x) E)"
proof -
  have sub: "set (inc ! nat x) \<subseteq> {0..<length E}"
    using wf_incid_lt[OF wf r] by auto
  have "length (inc ! nat x) = sum (count_list (inc ! nat x)) {0..<length E}"
    using sum_count_set[OF sub] by simp
  also have "\<dots> = (\<Sum>i = 0..<length E. incidence (E ! i) x)"
    using wf_count[OF wf r] by simp
  also have "\<dots> = (\<Sum>i = 0..<length (map (\<lambda>e. incidence e x) E). map (\<lambda>e. incidence e x) E ! i)"
    by simp
  also have "\<dots> = sum_list (map (\<lambda>e. incidence e x) E)"
    by (rule sum_list_sum_nth[symmetric])
  finally show ?thesis .
qed

lemma sum_list_mset_cong:
  fixes f :: "'a \<Rightarrow> nat"
  assumes "mset xs = mset ys"
  shows "sum_list (map f xs) = sum_list (map f ys)"
proof -
  have "sum_list (map f xs) = sum_mset (image_mset f (mset xs))"
    by (metis mset_map sum_mset_sum_list)
  also have "\<dots> = sum_mset (image_mset f (mset ys))" using assms by simp
  also have "\<dots> = sum_list (map f ys)" by (metis mset_map sum_mset_sum_list)
  finally show ?thesis .
qed

lemma length_trichotomy:
  "length es = length (filter (\<lambda>e. x < en_to e) es) + length (filter (\<lambda>e. en_to e = x) es)
     + length (filter (\<lambda>e. en_to e < x) es)"
  by (induction es) auto

lemma count_below:
  assumes "\<forall>e \<in> set es. 0 \<le> en_to e"
  shows "length (filter (\<lambda>e. en_to e < x) es)
       = (\<Sum>u \<in> {0..<x}. length (filter (\<lambda>e. en_to e = u) es))"
  using assms
proof (induction es)
  case Nil
  then show ?case by simp
next
  case (Cons e es)
  have "(\<Sum>u \<in> {0..<x}. length (filter (\<lambda>e. en_to e = u) (e # es)))
      = (\<Sum>u \<in> {0..<x}. (if u = en_to e then 1 else 0) + length (filter (\<lambda>e. en_to e = u) es))"
    by (rule sum.cong) auto
  also have "\<dots> = (\<Sum>u \<in> {0..<x}. if u = en_to e then 1 else 0)
      + (\<Sum>u \<in> {0..<x}. length (filter (\<lambda>e. en_to e = u) es))"
    by (rule sum.distrib)
  also have "(\<Sum>u \<in> {0..<x}. if u = en_to e then 1 else 0) = (if en_to e < x then 1 else (0::nat))"
    using Cons.prems by (simp add: sum.delta)
  finally show ?case using Cons by simp
qed

lemma row_incidence:
  "sum_list (map (\<lambda>e. incidence e x) (graph_edge_row g u))
     = (if u = x then length (filter (\<lambda>e. x < en_to e) (adj_list g x))
                     + 2 * (nat (count_neighbor g x x) div 2) else 0)
       + (if u < x then length (filter (\<lambda>e. en_to e = x) (adj_list g u)) else 0)"
proof -
  have a: "sum_list (map (\<lambda>e. incidence e x) (map (\<lambda>e. (u, en_to e)) (filter (\<lambda>e. u < en_to e) es)))
      = (if u = x then length (filter (\<lambda>e. x < en_to e) es) else 0)
        + (if u < x then length (filter (\<lambda>e. en_to e = x) es) else 0)" for es
    by (induction es) (auto simp: incidence_def)
  have b: "sum_list (map (\<lambda>e. incidence e x) (replicate k (u, u))) = (if u = x then 2 * k else 0)" for k
    by (induction k) (auto simp: incidence_def)
  have "sum_list (map (\<lambda>e. incidence e x) (graph_edge_row g u))
      = sum_list (map (\<lambda>e. incidence e x)
           (map (\<lambda>e. (u, en_to e)) (filter (\<lambda>e. u < en_to e) (adj_list g u))))
        + sum_list (map (\<lambda>e. incidence e x) (replicate (nat (count_neighbor g u u) div 2) (u, u)))"
    unfolding graph_edge_row_def by (simp only: map_append sum_list_append)
  then show ?thesis unfolding a b by auto
qed

lemma sum_list_map_concat:
  fixes f :: "'a \<Rightarrow> nat"
  shows "sum_list (map f (concat xss)) = sum_list (map (\<lambda>xs. sum_list (map f xs)) xss)"
  by (induction xss) auto

lemma graph_degree:
  assumes inv: "graph_inv g" and r: "0 \<le> x" "x < g_n g"
  shows "sum_list (map (\<lambda>e. incidence e x) (graph_edge_list g)) = length (adj_list g x)"
proof -
  let ?n = "g_n g" and ?es = "adj_list g x"
  let ?A = "length (filter (\<lambda>e. x < en_to e) ?es) + 2 * (nat (count_neighbor g x x) div 2)"
  let ?F = "\<lambda>u. (if u = x then ?A else 0)
       + (if u < x then length (filter (\<lambda>e. en_to e = x) (adj_list g u)) else 0)"
  have "sum_list (map (\<lambda>e. incidence e x) (graph_edge_list g))
      = sum_list (map (\<lambda>u. sum_list (map (\<lambda>e. incidence e x) (graph_edge_row g u)))
           (map int [0..<nat ?n]))"
    unfolding graph_edge_list_def by (simp add: sum_list_map_concat comp_def)
  also have "\<dots> = sum_list (map ?F (map int [0..<nat ?n]))"
    by (simp only: row_incidence)
  also have "\<dots> = sum ?F (set (map int [0..<nat ?n]))"
    by (rule sum_list_distinct_conv_sum_set[OF vertex_list_distinct])
  also have "set (map int [0..<nat ?n]) = {0..<?n}"
    unfolding vertex_list_set by auto
  also have "sum ?F {0..<?n} = (\<Sum>u \<in> {0..<?n}. if u = x then ?A else 0)
      + (\<Sum>u \<in> {0..<?n}. if u < x then length (filter (\<lambda>e. en_to e = x) (adj_list g u)) else 0)"
    by (rule sum.distrib)
  also have "(\<Sum>u \<in> {0..<?n}. if u = x then ?A else 0) = ?A"
    using r by (simp add: sum.delta)
  also have "(\<Sum>u \<in> {0..<?n}. if u < x then length (filter (\<lambda>e. en_to e = x) (adj_list g u)) else 0)
      = (\<Sum>u \<in> {0..<x}. length (filter (\<lambda>e. en_to e = x) (adj_list g u)))"
  proof -
    have "{0..<x} = {u \<in> {0..<?n}. u < x}" using r by auto
    then show ?thesis by (simp add: sum.If_cases Int_def)
  qed
  also have "\<dots> = (\<Sum>u \<in> {0..<x}. length (filter (\<lambda>e. en_to e = u) ?es))"
  proof (rule sum.cong[OF refl])
    fix u assume "u \<in> {0..<x}"
    with r have ur: "0 \<le> u" "u < ?n" by auto
    have "int (length (filter (\<lambda>e. en_to e = x) (adj_list g u))) = count_neighbor g u x"
      by (simp add: count_neighbor_eq)
    also have "\<dots> = count_neighbor g x u" using inv_count_sym[OF inv ur r] .
    also have "\<dots> = int (length (filter (\<lambda>e. en_to e = u) ?es))"
      by (simp add: count_neighbor_eq)
    finally show "length (filter (\<lambda>e. en_to e = x) (adj_list g u))
        = length (filter (\<lambda>e. en_to e = u) ?es)" by simp
  qed
  also have "\<dots> = length (filter (\<lambda>e. en_to e < x) ?es)"
  proof (rule count_below[symmetric], rule ballI)
    fix e assume "e \<in> set ?es"
    from inv_targets[OF inv r this] show "0 \<le> en_to e" by simp
  qed
  also have "2 * (nat (count_neighbor g x x) div 2) = length (filter (\<lambda>e. en_to e = x) ?es)"
  proof -
    from inv_loop_count[OF inv r] have "even (nat (count_neighbor g x x))" by auto
    then have "2 * (nat (count_neighbor g x x) div 2) = nat (count_neighbor g x x)" by simp
    then show ?thesis by (simp add: count_neighbor_eq)
  qed
  finally show ?thesis using length_trichotomy[of ?es x] by simp
qed

lemma edge_list_member:
  assumes inv: "graph_inv g" and "(p, q) \<in> set (graph_edge_list g)"
  shows "nonisolated g p \<and> nonisolated g q \<and> p \<le> q
       \<and> (\<exists>e \<in> set (adj_list g p). en_to e = q)"
proof -
  from assms(2) obtain u where "u \<in> set (map int [0..<nat (g_n g)])"
    and u3: "(p, q) \<in> set (graph_edge_row g u)"
    unfolding graph_edge_list_def by auto
  then have u: "0 \<le> u" "u < g_n g" "(p, q) \<in> set (graph_edge_row g u)"
    unfolding vertex_list_set by auto
  from u(3) consider e where "e \<in> set (adj_list g u)" "u < en_to e" "p = u" "q = en_to e"
    | "p = u" "q = u" "0 < nat (count_neighbor g u u) div 2"
    unfolding graph_edge_row_def by auto
  then show ?thesis
  proof cases
    case 1
    from inv_targets[OF inv u(1,2) 1(1)] have qr: "0 \<le> q" "q < g_n g" using 1(4) by auto
    from inv_entry_sym[OF inv u(1,2) 1(1)] 1(4) have "adj_list g q \<noteq> []" by auto
    with 1 u qr show ?thesis by (auto simp: nonisolated_def)
  next
    case 2
    then have "1 \<le> count_neighbor g u u" by linarith
    then have "\<exists>e \<in> set (adj_list g u). en_to e = u" by (simp add: has_entry_count)
    with 2 u show ?thesis by (auto simp: nonisolated_def)
  qed
qed

lemma induced_edge_listed:
  assumes inv: "graph_inv g" and ab: "(a, b) \<in> induced_edges g"
  shows "norm_edge (a, b) \<in> set (graph_edge_list g)"
proof -
  from ab obtain e where ar: "0 \<le> a" "a < g_n g" and br: "0 \<le> b" "b < g_n g"
    and e: "e \<in> set (adj_list g a)" "en_to e = b"
    by (auto simp: induced_edges_def nonisolated_def)
  have row: "set (graph_edge_row g u) \<subseteq> set (graph_edge_list g)" if "0 \<le> u" "u < g_n g" for u
  proof -
    from that have "u \<in> set (map int [0..<nat (g_n g)])" unfolding vertex_list_set by simp
    then show ?thesis unfolding graph_edge_list_def by auto
  qed
  consider "a < b" | "b < a" | "a = b" by linarith
  then show ?thesis
  proof cases
    case 1
    with e have "(a, b) \<in> set (graph_edge_row g a)" by (auto simp: graph_edge_row_def)
    with row[OF ar] 1 show ?thesis by (auto simp: norm_edge_def)
  next
    case 2
    from inv_entry_sym[OF inv ar e(1)] e(2) obtain e' where
      "e' \<in> set (adj_list g b)" "en_to e' = a" by auto
    with 2 have "(b, a) \<in> set (graph_edge_row g b)" by (auto simp: graph_edge_row_def)
    with row[OF br] 2 show ?thesis by (auto simp: norm_edge_def)
  next
    case 3
    with e have "1 \<le> count_neighbor g a a" using has_entry_count[of g a a] by auto
    with inv_loop_count[OF inv ar] have "count_neighbor g a a = 2" by auto
    then have "(a, a) \<in> set (graph_edge_row g a)" by (simp add: graph_edge_row_def)
    with row[OF ar] 3 show ?thesis by (auto simp: norm_edge_def)
  qed
qed

lemma induced_sub_ev_rel:
  assumes inv: "graph_inv g" and E: "mset E = graph_edges g"
  shows "induced_edges g \<subseteq> ev_rel E"
proof
  fix p assume p: "p \<in> induced_edges g"
  obtain a b where ab: "p = (a, b)" by (cases p)
  from induced_edge_listed[OF inv p[unfolded ab]] E
  have "norm_edge (a, b) \<in> set E" unfolding graph_edges_def by (metis mset_eq_setD)
  then obtain i where i: "i < length E" "E ! i = norm_edge (a, b)"
    by (auto simp: in_set_conv_nth)
  then have "joins (E ! i) a b" by (auto simp: joins_def norm_edge_def min_def max_def)
  with i(1) ab show "p \<in> ev_rel E" by (auto simp: ev_rel_def)
qed

lemma find_euler_correct:
  assumes inv: "graph_inv g"
  shows "\<exists>r. graph_find_euler_circuit True (Some g) = Some r
          \<and> (r \<noteq> None \<longleftrightarrow> euler_condition g)
          \<and> (\<forall>cyc. r = Some cyc \<longrightarrow>
                mset (traversed cyc) = graph_edges g
                \<and> length cyc = Suc (size (graph_edges g))
                \<and> hd cyc = last cyc)"
proof (cases "euler_condition g")
  case False
  then have "graph_find_euler_circuit True (Some g) = Some None"
    by (simp add: graph_find_euler_circuit_def has_euler_circuit_correct[OF inv])
  with False show ?thesis by simp
next
  case True
  let ?n = "g_n g"
  from build_edge_view_spec[OF inv] obtain ev where
    bev: "build_edge_view True g = Some ev"
    and wf: "ev_wf ?n (ev_edges ev) (ev_incid ev)"
    and ms: "mset (ev_edges ev) = graph_edges g" by blast
  let ?E = "ev_edges ev" and ?inc = "ev_incid ev"
  have evrec: "ev = \<lparr>ev_edges = ?E, ev_incid = ?inc\<rparr>" by simp
  have li: "length ?inc = nat ?n" using wf by (simp add: ev_wf_def)
  have deg: "length (?inc ! nat x) = length (adj_list g x)" if "0 \<le> x" "x < ?n" for x
  proof -
    have "length (?inc ! nat x) = sum_list (map (\<lambda>e. incidence e x) ?E)"
      by (rule incid_length[OF wf that])
    also have "\<dots> = sum_list (map (\<lambda>e. incidence e x) (graph_edge_list g))"
      by (rule sum_list_mset_cong) (simp add: ms graph_edges_def)
    also have "\<dots> = length (adj_list g x)" by (rule graph_degree[OF inv that])
    finally show ?thesis .
  qed
  from True obtain u0 where u0: "nonisolated g u0" and ev_deg: "all_degrees_even g"
    and conn: "connected_nonisolated g"
    by (auto simp: euler_condition_def)
  let ?P = "\<lambda>i. length (?inc ! nat i) > 0" and ?xs = "map int [0..<length ?inc]"
  have "u0 \<in> set ?xs \<and> ?P u0"
    using u0 deg[of u0] unfolding li vertex_list_set by (auto simp: nonisolated_def)
  then have "find ?P ?xs \<noteq> None" by (auto simp: find_None_iff)
  then obtain start where st: "find ?P ?xs = Some start" by auto
  then have "start \<in> set ?xs" "?P start" by (auto simp: find_Some_iff)
  then have sr: "0 \<le> start" "start < ?n" and sp: "0 < length (?inc ! nat start)"
    unfolding li vertex_list_set by auto
  have sni: "nonisolated g start" using sr sp deg[OF sr] by (auto simp: nonisolated_def)
  have even: "\<forall>x. 0 \<le> x \<and> x < ?n \<longrightarrow> even (length (?inc ! nat x))"
    using ev_deg deg by (auto simp: all_degrees_even_def)
  from euler_loop_terminates[OF wf hinv_initial[OF wf sr even]]
  obtain s fs hs pe c where
    loop: "euler_loop \<lparr>ev_edges = ?E, ev_incid = ?inc\<rparr>
             \<lparr>h_stack = v_push [] start, h_path = [],
              h_used = replicate (length ?E) False, h_it = replicate (length ?inc) 0\<rparr> = Some s"
    and emp: "h_stack s = []" and hi: "hinv ?n ?E ?inc start s fs hs pe c" by blast
  have setE: "set ?E = set (graph_edge_list g)"
    using ms unfolding graph_edges_def by (rule mset_eq_setD)
  have reach: "\<forall>i < length ?E. (start, fst (?E ! i)) \<in> (ev_rel ?E)\<^sup>*"
  proof (intro allI impI)
    fix i assume "i < length ?E"
    then have "(fst (?E ! i), snd (?E ! i)) \<in> set (graph_edge_list g)"
      using setE by (metis nth_mem prod.collapse)
    from edge_list_member[OF inv this] have "nonisolated g (fst (?E ! i))" by simp
    with conn sni have "(start, fst (?E ! i)) \<in> (induced_edges g)\<^sup>*"
      by (simp add: connected_nonisolated_def)
    with rtrancl_mono[OF induced_sub_ev_rel[OF inv ms]]
    show "(start, fst (?E ! i)) \<in> (ev_rel ?E)\<^sup>*" by blast
  qed
  note fc = final_circuit[OF wf hi emp reach]
  have len: "length ?E = size (graph_edges g)" using ms by (metis size_mset)
  have loop': "euler_loop ev
             \<lparr>h_stack = v_push [] start, h_path = [],
              h_used = replicate (length ?E) False, h_it = replicate (length ?inc) 0\<rparr> = Some s"
    using loop by (simp only: evrec[symmetric])
  have pne: "h_path s \<noteq> []" using fc(2) by auto
  have "graph_find_euler_circuit True (Some g) = Some (Some (rev (h_path s)))"
    using True bev st loop' pne
    by (simp add: graph_find_euler_circuit_def has_euler_circuit_correct[OF inv] v_reverse_def
        Let_def)
  with fc ms len True show ?thesis by simp
qed

text \<open>
  C1. For every graph satisfying the data-model invariant (every graph built through the
  interface does) and with all allocations succeeding, \<open>graph_find_euler_circuit\<close> returns:
  it returns ok exactly when \<open>graph_has_euler_circuit\<close> holds, and for every returned
  cycle the undirected edges traversed by consecutive vertices are, with multiplicity,
  exactly the undirected edges of the graph (each once, a self-loop being one edge), the
  cycle has \<open>m + 1\<close> vertices for \<open>m\<close> edges, and its first vertex is its last.
\<close>

theorem find_euler_circuit_traverses_each_edge_once:
  assumes "graph_inv g"
  shows "(\<exists>r. graph_find_euler_circuit True (Some g) = Some r \<and> (r \<noteq> None \<longleftrightarrow> euler_condition g))
       \<and> (\<forall>cyc. graph_find_euler_circuit True (Some g) = Some (Some cyc) \<longrightarrow>
             mset (traversed cyc) = graph_edges g
             \<and> int (length cyc) = int (size (graph_edges g)) + 1
             \<and> hd cyc = last cyc)"
  using find_euler_correct[OF assms] by auto

theorem find_euler_circuit_traverses_each_edge_once_witness:
  "graph_inv triangle
   \<and> graph_find_euler_circuit True (Some triangle) = Some (Some [0, 2, 1, 0])
   \<and> mset (traversed [0, 2, 1, 0]) = graph_edges triangle
   \<and> size (graph_edges triangle) = 3
   \<and> traversed [0, 2, 1, 0] = [(0, 2), (1, 2), (0, 1)]"
proof -
  have i: "graph_inv triangle" by (rule built_inv[OF built_triangle])
  have t: "traversed [0, 2, 1, 0] = [(0, 2), (1, 2), (0, 1)]"
    by (simp add: traversed_def norm_edge_def)
  from find_euler_circuit_traverses_each_edge_once[OF i] find_euler_triangle
  have "mset (traversed [0, 2, 1, 0]) = graph_edges triangle
      \<and> int (length [0, 2, 1, 0 :: int]) = int (size (graph_edges triangle)) + 1" by simp
  with i find_euler_triangle t show ?thesis by simp
qed

section \<open>Minimum spanning tree (OS_project/part7/mst.c)\<close>

text \<open>
  The priority queue is a binary min-heap in an array. The model keeps the occupied part
  \<open>data[0..size-1]\<close> as a list and the capacity beside it.
\<close>

record PQ_Node =
  pq_weight :: int
  pq_vertex :: int

record PriorityQueue =
  pq_data :: "PQ_Node list"
  pq_capacity :: nat

definition pq_swap :: "PQ_Node list \<Rightarrow> nat \<Rightarrow> nat \<Rightarrow> PQ_Node list" where
  "pq_swap d i j = d[i := d ! j, j := d ! i]"

function pq_heapify_up :: "PQ_Node list \<Rightarrow> nat \<Rightarrow> PQ_Node list" where
  "pq_heapify_up d index =
     (if index > 0 then
        (let parent = (index - 1) div 2 in
         if pq_weight (d ! index) \<ge> pq_weight (d ! parent) then d
         else pq_heapify_up (pq_swap d index parent) parent)
      else d)"
  by pat_completeness auto
termination
  by (relation "measure (\<lambda>(d, index). index)") auto

function pq_heapify_down :: "PQ_Node list \<Rightarrow> nat \<Rightarrow> PQ_Node list" where
  "pq_heapify_down d index =
     (let left = 2 * index + 1;
          right = 2 * index + 2;
          smallest1 = (if left < length d \<and> pq_weight (d ! left) < pq_weight (d ! index)
                       then left else index);
          smallest = (if right < length d \<and> pq_weight (d ! right) < pq_weight (d ! smallest1)
                      then right else smallest1)
      in if smallest = index then d
         else pq_heapify_down (pq_swap d index smallest) smallest)"
  by pat_completeness auto
termination
  by (relation "measure (\<lambda>(d, index). length d - index)")
     (auto simp: pq_swap_def split: if_splits)

declare pq_heapify_up.simps [simp del] pq_heapify_down.simps [simp del]

text \<open>\<open>pq_push\<close> returns the C return value (1 pushed, 0 queue full) and the queue.\<close>

definition pq_push :: "PriorityQueue \<Rightarrow> int \<Rightarrow> int \<Rightarrow> int \<times> PriorityQueue" where
  "pq_push pq weight vertex =
     (if length (pq_data pq) \<ge> pq_capacity pq then (0, pq)
      else
        (1, pq\<lparr>pq_data := pq_heapify_up (pq_data pq @ [\<lparr>pq_weight = weight, pq_vertex = vertex\<rparr>])
                               (length (pq_data pq))\<rparr>))"

text \<open>\<open>pq_pop\<close> is only called on a non-empty queue.\<close>

definition pq_pop :: "PriorityQueue \<Rightarrow> PQ_Node \<times> PriorityQueue" where
  "pq_pop pq =
     (let d = pq_data pq;
          result = d ! 0;
          size = length d - 1
      in if size > 0
         then (result, pq\<lparr>pq_data := pq_heapify_down ((butlast d)[0 := d ! size]) 0\<rparr>)
         else (result, pq\<lparr>pq_data := butlast d\<rparr>))"

definition pq_is_empty :: "PriorityQueue \<Rightarrow> bool" where
  "pq_is_empty pq = (length (pq_data pq) = 0)"

text \<open>
  \<open>build_weight_matrix\<close> (and the identical \<open>build_capacity_matrix\<close> of maxflow.c): every
  non-loop adjacency entry \<open>u \<rightarrow> v\<close> stores its weight at \<open>[u][v]\<close>.
\<close>

fun weight_fill_row :: "int \<Rightarrow> EdgeNode list \<Rightarrow> int list list \<Rightarrow> int list list" where
  "weight_fill_row u [] m = m"
| "weight_fill_row u (e # es) m =
     (let v = en_to e in
      weight_fill_row u es (if u \<noteq> v then m[nat u := (m ! nat u)[nat v := en_weight e]] else m))"

fun weight_fill_rows :: "Graph \<Rightarrow> int list \<Rightarrow> int list list \<Rightarrow> int list list" where
  "weight_fill_rows g [] m = m"
| "weight_fill_rows g (u # us) m = weight_fill_rows g us (weight_fill_row u (adj_list g u) m)"

definition build_weight_matrix :: "Graph \<Rightarrow> int list list" where
  "build_weight_matrix g =
     weight_fill_rows g (map int [0..<nat (g_n g)])
       (replicate (nat (g_n g)) (replicate (nat (g_n g)) 0))"

definition INT_MAX :: int where
  "INT_MAX = 2147483647"

text \<open>
  Sums and differences the code computes in a C \<open>int\<close> are reduced to the 32-bit
  two's-complement range, as the compiled code does when a result leaves it.
\<close>

definition int32 :: "int \<Rightarrow> int" where
  "int32 x = (x + 2147483648) mod 4294967296 - 2147483648"

record prim_state =
  ps_pq :: PriorityQueue
  ps_in_mst :: "bool list"
  ps_key :: "int list"
  ps_parent :: "int list"

text \<open>The \<open>for (v = 0; v < n; v++)\<close> loop that relaxes the neighbours of \<open>u\<close>.\<close>

fun prim_relax :: "int list list \<Rightarrow> int \<Rightarrow> int list \<Rightarrow> prim_state \<Rightarrow> prim_state" where
  "prim_relax wm u [] s = s"
| "prim_relax wm u (v # vs) s =
     (let weight = wm ! nat u ! nat v in
      if weight > 0 \<and> \<not> ps_in_mst s ! nat v \<and> weight < ps_key s ! nat v then
        prim_relax wm u vs
          (s\<lparr>ps_key := (ps_key s)[nat v := weight],
              ps_parent := (ps_parent s)[nat v := u],
              ps_pq := snd (pq_push (ps_pq s) weight v)\<rparr>)
      else prim_relax wm u vs s)"

text \<open>One iteration of \<open>while (!pq_is_empty(pq))\<close>.\<close>

definition prim_step :: "int list list \<Rightarrow> int \<Rightarrow> prim_state \<Rightarrow> prim_state" where
  "prim_step wm n s =
     (case pq_pop (ps_pq s) of (current, pq1) \<Rightarrow>
        (let u = pq_vertex current in
         if ps_in_mst s ! nat u then s\<lparr>ps_pq := pq1\<rparr>
         else prim_relax wm u (map int [0..<nat n])
                (s\<lparr>ps_pq := pq1, ps_in_mst := (ps_in_mst s)[nat u := True]\<rparr>)))"

partial_function (option) prim_loop :: "int list list \<Rightarrow> int \<Rightarrow> prim_state \<Rightarrow> prim_state option" where
  "prim_loop wm n s =
     (if pq_is_empty (ps_pq s) then Some s else prim_loop wm n (prim_step wm n s))"

declare prim_loop.simps [code]

record MST_Edge =
  me_u :: int
  me_v :: int
  me_weight :: int

record MST_Result =
  mst_edges :: "MST_Edge list option"
  mst_num_edges :: int
  mst_total_weight :: int
  mst_is_connected :: bool

text \<open>The loop that emits the edges \<open>{parent[v], v, weight}\<close> for \<open>v = 1..n-1\<close>.\<close>

fun mst_collect :: "int list list \<Rightarrow> int list \<Rightarrow> int list \<Rightarrow> MST_Edge list \<times> int
      \<Rightarrow> MST_Edge list \<times> int" where
  "mst_collect wm parent [] acc = acc"
| "mst_collect wm parent (v # vs) (edges, total_weight) =
     (if parent ! nat v \<noteq> - 1 then
        mst_collect wm parent vs
          (edges @ [\<lparr>me_u = parent ! nat v, me_v = v,
                     me_weight = wm ! nat (parent ! nat v) ! nat v\<rparr>],
           int32 (total_weight + wm ! nat (parent ! nat v) ! nat v))
      else mst_collect wm parent vs (edges, total_weight))"

text \<open>
  The outer \<open>None\<close>: the run has no defined return. \<open>Some None\<close>: return value 0.
  \<open>Some (Some r)\<close>: return value 1 with the result structure \<open>r\<close>. \<open>mem\<close> says whether the
  allocations before the main loop succeed (the matrix, the three arrays and the queue),
  \<open>edges_mem\<close> whether that of the edge array does, which is only attempted when every
  vertex has been reached.
\<close>

definition graph_mst_prim :: "bool \<Rightarrow> bool \<Rightarrow> Graph option \<Rightarrow> MST_Result option option" where
  "graph_mst_prim mem edges_mem g =
     (case g of
        None \<Rightarrow> Some None
      | Some gr \<Rightarrow>
          let n = g_n gr in
          if n < 1 then Some None
          else if n = 1 then
            Some (Some \<lparr>mst_edges = None, mst_num_edges = 0, mst_total_weight = 0,
                        mst_is_connected = True\<rparr>)
          else if \<not> mem then Some None
          else
            (let wm = build_weight_matrix gr;
                 in_mst = replicate (nat n) False;
                 key = (replicate (nat n) INT_MAX)[0 := 0];
                 parent = replicate (nat n) (- 1);
                 pq = snd (pq_push \<lparr>pq_data = [], pq_capacity = nat (int32 (n * n))\<rparr> 0 0)
             in case prim_loop wm n
                       \<lparr>ps_pq = pq, ps_in_mst = in_mst, ps_key = key, ps_parent = parent\<rparr> of
                  None \<Rightarrow> None
                | Some s \<Rightarrow>
                    (let vertices_in_mst = int (length (filter (\<lambda>b. b) (ps_in_mst s))) in
                     if vertices_in_mst \<noteq> n then
                       Some (Some \<lparr>mst_edges = None, mst_num_edges = 0, mst_total_weight = 0,
                                   mst_is_connected = False\<rparr>)
                     else if \<not> edges_mem then Some None
                     else
                       (case mst_collect wm (ps_parent s) (map int [1..<nat n]) ([], 0) of
                          (edges, total_weight) \<Rightarrow>
                            Some (Some \<lparr>mst_edges = Some edges,
                                        mst_num_edges = int (length edges),
                                        mst_total_weight = total_weight,
                                        mst_is_connected = True\<rparr>)))))"



text \<open>A triangle whose three edges have weight 2000000000.\<close>

definition heavy_triangle :: Graph where
  "heavy_triangle = \<lparr>g_n = 3, g_adj =
     [[\<lparr>en_to = 2, en_weight = 2000000000\<rparr>, \<lparr>en_to = 1, en_weight = 2000000000\<rparr>],
      [\<lparr>en_to = 2, en_weight = 2000000000\<rparr>, \<lparr>en_to = 0, en_weight = 2000000000\<rparr>],
      [\<lparr>en_to = 0, en_weight = 2000000000\<rparr>, \<lparr>en_to = 1, en_weight = 2000000000\<rparr>]]\<rparr>"

subsection \<open>The binary heap\<close>







lemma pq_swap_length [simp]: "length (pq_swap d i j) = length d"
  by (simp add: pq_swap_def)



lemma heapify_up_length [simp]: "length (pq_heapify_up d i) = length d"
  by (induction d i rule: pq_heapify_up.induct) (subst pq_heapify_up.simps, simp add: Let_def)





text \<open>The child the loop of \<open>pq_heapify_down\<close> selects (or \<open>i\<close> itself).\<close>

definition smallest_of :: "PQ_Node list \<Rightarrow> nat \<Rightarrow> nat" where
  "smallest_of d i =
     (let s1 = (if 2 * i + 1 < length d \<and> pq_weight (d ! (2 * i + 1)) < pq_weight (d ! i)
                then 2 * i + 1 else i)
      in if 2 * i + 2 < length d \<and> pq_weight (d ! (2 * i + 2)) < pq_weight (d ! s1)
         then 2 * i + 2 else s1)"

lemma heapify_down_step:
  "pq_heapify_down d i =
     (if smallest_of d i = i then d
      else pq_heapify_down (pq_swap d i (smallest_of d i)) (smallest_of d i))"
  apply (rule trans[OF pq_heapify_down.simps])
  apply (unfold smallest_of_def Let_def)
  apply (rule refl)
  done





lemma heapify_down_induct:
  assumes "\<And>d i. (smallest_of d i \<noteq> i \<Longrightarrow> P (pq_swap d i (smallest_of d i)) (smallest_of d i))
             \<Longrightarrow> P d i"
  shows "P d i"
proof (induction d i rule: pq_heapify_down.induct)
  case (1 d i)
  show ?case
  proof (rule assms)
    assume ne: "smallest_of d i \<noteq> i"
    show "P (pq_swap d i (smallest_of d i)) (smallest_of d i)"
      using "1.IH"[OF refl refl refl refl] ne unfolding smallest_of_def Let_def by simp
  qed
qed

lemma heapify_down_length [simp]: "length (pq_heapify_down d i) = length d"
  by (induction d i rule: heapify_down_induct) (subst heapify_down_step, simp)







subsection \<open>Spanning trees of a weight matrix\<close>

text \<open>
  The entry \<open>weight_matrix[u][v]\<close>. A positive entry is an edge the algorithm can use.
\<close>

definition wt :: "int list list \<Rightarrow> int \<Rightarrow> int \<Rightarrow> int" where
  "wt wm u v = wm ! nat u ! nat v"

definition wm_sym :: "int list list \<Rightarrow> int \<Rightarrow> bool" where
  "wm_sym wm n = (\<forall>u v. 0 \<le> u \<and> u < n \<and> 0 \<le> v \<and> v < n \<longrightarrow> wt wm u v = wt wm v u)"

text \<open>The adjacency relation of a set of undirected edges.\<close>

definition adj_rel :: "UEEdge set \<Rightarrow> (int \<times> int) set" where
  "adj_rel M = {(x, y). (x, y) \<in> M \<or> (y, x) \<in> M}"












subsection \<open>The invariant of Prim's loop\<close>

















































subsection \<open>The result\<close>


lemma int32_id: "- 2147483648 \<le> x \<Longrightarrow> x \<le> INT_MAX \<Longrightarrow> int32 x = x"
  by (simp add: int32_def INT_MAX_def)

lemma int32_nonneg_id: "0 \<le> x \<Longrightarrow> x \<le> INT_MAX \<Longrightarrow> int32 x = x"
  by (rule int32_id) simp_all










subsection \<open>The weight matrix of a graph\<close>

text \<open>What \<open>weight_fill_row\<close> does to the row of \<open>u\<close>.\<close>

fun fill_vec :: "int \<Rightarrow> EdgeNode list \<Rightarrow> int list \<Rightarrow> int list" where
  "fill_vec u [] r = r"
| "fill_vec u (e # es) r = fill_vec u es (if u \<noteq> en_to e then r[nat (en_to e) := en_weight e] else r)"

lemma fill_vec_length [simp]: "length (fill_vec u es r) = length r"
  by (induction es arbitrary: r) auto

lemma fill_row_vec:
  "nat u < length m \<Longrightarrow> weight_fill_row u es m = m[nat u := fill_vec u es (m ! nat u)]"
  by (induction es arbitrary: m) (auto simp: Let_def)

lemma fill_rows_spec:
  assumes "\<forall>u \<in> set us. 0 \<le> u \<and> nat u < length m" and "distinct us"
  shows "length (weight_fill_rows g us m) = length m
       \<and> (\<forall>u. 0 \<le> u \<and> nat u < length m \<longrightarrow>
            weight_fill_rows g us m ! nat u
              = (if u \<in> set us then fill_vec u (adj_list g u) (m ! nat u) else m ! nat u))"
  using assms
proof (induction us arbitrary: m)
  case Nil
  show ?case by simp
next
  case (Cons a us)
  let ?m = "m[nat a := fill_vec a (adj_list g a) (m ! nat a)]"
  from Cons.prems have a: "0 \<le> a" "nat a < length m" "a \<notin> set us" by auto
  have e: "weight_fill_rows g (a # us) m = weight_fill_rows g us ?m"
    using a by (simp add: fill_row_vec)
  have "\<forall>u \<in> set us. 0 \<le> u \<and> nat u < length ?m" using Cons.prems by simp
  moreover have "distinct us" using Cons.prems by simp
  ultimately have IH: "length (weight_fill_rows g us ?m) = length ?m"
    "\<And>u. 0 \<le> u \<Longrightarrow> nat u < length ?m \<Longrightarrow>
        weight_fill_rows g us ?m ! nat u
          = (if u \<in> set us then fill_vec u (adj_list g u) (?m ! nat u) else ?m ! nat u)"
    using Cons.IH[of ?m] by auto
  show ?case unfolding e
  proof (intro conjI allI impI)
    show "length (weight_fill_rows g us ?m) = length m" using IH(1) by simp
    fix u assume u: "0 \<le> u \<and> nat u < length m"
    then have r: "weight_fill_rows g us ?m ! nat u
          = (if u \<in> set us then fill_vec u (adj_list g u) (?m ! nat u) else ?m ! nat u)"
      using IH(2)[of u] by simp
    show "weight_fill_rows g us ?m ! nat u
       = (if u \<in> set (a # us) then fill_vec u (adj_list g u) (m ! nat u) else m ! nat u)"
    proof (cases "u = a")
      case True
      then show ?thesis using r a by simp
    next
      case False
      then have "nat u \<noteq> nat a" using u a by (simp add: eq_nat_nat_iff)
      then show ?thesis using r False by simp
    qed
  qed
qed

lemma fill_vec_val:
  assumes "nat v < length r" and "0 \<le> v" and "\<forall>e \<in> set es. 0 \<le> en_to e"
    and "\<forall>e \<in> set es. en_to e = v \<longrightarrow> en_weight e = w"
  shows "fill_vec u es r ! nat v
           = (if u \<noteq> v \<and> (\<exists>e \<in> set es. en_to e = v) then w else r ! nat v)"
  using assms
proof (induction es arbitrary: r)
  case Nil
  show ?case by simp
next
  case (Cons e es)
  let ?r = "if u \<noteq> en_to e then r[nat (en_to e) := en_weight e] else r"
  have l: "nat v < length ?r" using Cons.prems(1) by simp
  have IH: "fill_vec u es ?r ! nat v
      = (if u \<noteq> v \<and> (\<exists>e \<in> set es. en_to e = v) then w else ?r ! nat v)"
    using Cons.IH[OF l Cons.prems(2)] Cons.prems(3,4) by simp
  show ?case
  proof (cases "en_to e = v")
    case True
    then have "en_weight e = w" using Cons.prems(4) by simp
    then show ?thesis using IH True Cons.prems(1) by auto
  next
    case False
    have "0 \<le> en_to e" using Cons.prems(3) by simp
    then have "nat (en_to e) \<noteq> nat v" using False Cons.prems(2) by (simp add: eq_nat_nat_iff)
    then show ?thesis using IH False by auto
  qed
qed

lemma find_weight_member:
  "\<exists>e \<in> set es. en_to e = v \<Longrightarrow> \<exists>e \<in> set es. en_to e = v \<and> find_weight es v = en_weight e"
  by (induction es) auto

lemma inv_uniform_weight:
  assumes inv: "graph_inv g" and u: "0 \<le> u" "u < g_n g" and v: "0 \<le> v" "v < g_n g"
    and e: "e \<in> set (adj_list g u)" "en_to e = v"
  shows "en_weight e = find_weight (adj_list g u) v"
    and "find_weight (adj_list g v) u = en_weight e"
proof -
  from inv_entry_sym[OF inv u e(1)] e(2) obtain e' where e': "e' \<in> set (adj_list g v)" "en_to e' = u"
    by auto
  from find_weight_member[of "adj_list g u" v] e obtain e0 where
    e0: "e0 \<in> set (adj_list g u)" "en_to e0 = v" "find_weight (adj_list g u) v = en_weight e0"
    by blast
  from find_weight_member[of "adj_list g v" u] e' obtain e1 where
    e1: "e1 \<in> set (adj_list g v)" "en_to e1 = u" "find_weight (adj_list g v) u = en_weight e1"
    by blast
  have "en_weight e' = en_weight e" using inv_weights[OF inv u v e(1) e'(1) e(2) e'(2)] .
  moreover have "en_weight e' = en_weight e0" using inv_weights[OF inv u v e0(1) e'(1) e0(2) e'(2)] .
  moreover have "en_weight e1 = en_weight e" using inv_weights[OF inv u v e(1) e1(1) e(2) e1(2)] .
  ultimately show "en_weight e = find_weight (adj_list g u) v"
    and "find_weight (adj_list g v) u = en_weight e"
    using e0(3) e1(3) by simp_all
qed

lemma weight_matrix_entry:
  assumes inv: "graph_inv g" and u: "0 \<le> u" "u < g_n g" and v: "0 \<le> v" "v < g_n g"
  shows "wt (build_weight_matrix g) u v
           = (if u = v then 0 else graph_get_edge_weight (Some g) u v)"
proof -
  let ?n = "nat (g_n g)"
  let ?m = "replicate ?n (replicate ?n (0::int))"
  have un: "nat u < ?n" and vn: "nat v < ?n" using u v by auto
  have "\<forall>a \<in> set (map int [0..<?n]). 0 \<le> a \<and> nat a < length ?m" by auto
  moreover have "distinct (map int [0..<?n])" by (simp add: distinct_map)
  ultimately have "weight_fill_rows g (map int [0..<?n]) ?m ! nat u
      = (if u \<in> set (map int [0..<?n]) then fill_vec u (adj_list g u) (?m ! nat u) else ?m ! nat u)"
    using fill_rows_spec[of "map int [0..<?n]" ?m g] u(1) un by simp
  moreover have "u \<in> set (map int [0..<?n])" unfolding vertex_list_set using u by simp
  ultimately have row: "build_weight_matrix g ! nat u = fill_vec u (adj_list g u) (replicate ?n 0)"
    using un by (simp add: build_weight_matrix_def)
  have tr: "\<forall>e \<in> set (adj_list g u). 0 \<le> en_to e" using inv_targets[OF inv u] by blast
  have un': "\<forall>e \<in> set (adj_list g u). en_to e = v \<longrightarrow> en_weight e = find_weight (adj_list g u) v"
    using inv_uniform_weight(1)[OF inv u v] by blast
  have "fill_vec u (adj_list g u) (replicate ?n 0) ! nat v
      = (if u \<noteq> v \<and> (\<exists>e \<in> set (adj_list g u). en_to e = v) then find_weight (adj_list g u) v
         else replicate ?n 0 ! nat v)"
    by (rule fill_vec_val[OF _ v(1) tr un']) (use v in simp)
  moreover have "find_weight (adj_list g u) v = 0" if "\<not> (\<exists>e \<in> set (adj_list g u). en_to e = v)"
    using that find_weight_absent[of "adj_list g u" v] by blast
  moreover have "graph_get_edge_weight (Some g) u v = find_weight (adj_list g u) v"
    using u v by (simp add: graph_get_edge_weight_def in_bounds_def)
  ultimately show ?thesis using vn unfolding wt_def row by auto
qed

lemma weight_matrix_sym:
  assumes inv: "graph_inv g"
  shows "wm_sym (build_weight_matrix g) (g_n g)"
  unfolding wm_sym_def
proof (intro allI impI)
  fix u v assume h: "0 \<le> u \<and> u < g_n g \<and> 0 \<le> v \<and> v < g_n g"
  then have u: "0 \<le> u" "u < g_n g" and v: "0 \<le> v" "v < g_n g" by auto
  have gw: "graph_get_edge_weight (Some g) a b = find_weight (adj_list g a) b"
    if "0 \<le> a" "a < g_n g" "0 \<le> b" "b < g_n g" for a b
    using that by (simp add: graph_get_edge_weight_def in_bounds_def)
  have "find_weight (adj_list g u) v = find_weight (adj_list g v) u"
  proof (cases "\<exists>e \<in> set (adj_list g u). en_to e = v")
    case True
    then obtain e where e: "e \<in> set (adj_list g u)" "en_to e = v" by blast
    from inv_uniform_weight[OF inv u v e] show ?thesis by simp
  next
    case False
    have "\<not> (\<exists>e \<in> set (adj_list g v). en_to e = u)"
    proof
      assume "\<exists>e \<in> set (adj_list g v). en_to e = u"
      then obtain e where e: "e \<in> set (adj_list g v)" "en_to e = u" by blast
      from inv_entry_sym[OF inv v e(1)] e(2) False show False by simp
    qed
    with False show ?thesis
      using find_weight_absent[of "adj_list g u" v] find_weight_absent[of "adj_list g v" u]
      by (metis (full_types))
  qed
  then show "wt (build_weight_matrix g) u v = wt (build_weight_matrix g) v u"
    using weight_matrix_entry[OF inv u v] weight_matrix_entry[OF inv v u] gw[OF u v] gw[OF v u]
    by auto
qed


subsection \<open>Spanning trees of a graph\<close>





text \<open>
  The arithmetic of the program is done in C \<open>int\<close>. The weights of a graph fit when
  \<open>n\<close> times every stored weight is at most \<open>INT_MAX\<close>: then no sum of at most \<open>n\<close> of
  them leaves the range of an \<open>int\<close>.
\<close>

definition weights_fit :: "Graph \<Rightarrow> bool" where
  "weights_fit g = list_all (list_all (\<lambda>e. en_weight e * g_n g \<le> INT_MAX)) (g_adj g)"

lemma find_weight_cases:
  "find_weight es v = 0 \<or> (\<exists>e \<in> set es. find_weight es v = en_weight e)"
  by (induction es) auto

lemma edge_weight_fits:
  assumes inv: "graph_inv g" and fit: "weights_fit g"
    and u: "0 \<le> u" "u < g_n g" and v: "0 \<le> v" "v < g_n g"
    and nn: "\<forall>e \<in> set (adj_list g u). 0 \<le> en_weight e"
  shows "0 \<le> graph_get_edge_weight (Some g) u v
       \<and> graph_get_edge_weight (Some g) u v * g_n g \<le> INT_MAX"
proof -
  have w: "graph_get_edge_weight (Some g) u v = find_weight (adj_list g u) v"
    using u v by (simp add: graph_get_edge_weight_def in_bounds_def)
  have "nat u < length (g_adj g)" using inv_alloc[OF inv] u by (simp add: graph_alloc_def)
  then have "adj_list g u \<in> set (g_adj g)" by (simp add: adj_list_def)
  with fit have f: "\<forall>e \<in> set (adj_list g u). en_weight e * g_n g \<le> INT_MAX"
    by (auto simp: weights_fit_def list_all_iff)
  from find_weight_cases[of "adj_list g u" v] show ?thesis
  proof
    assume "find_weight (adj_list g u) v = 0"
    then show ?thesis unfolding w by (simp add: INT_MAX_def)
  next
    assume "\<exists>e \<in> set (adj_list g u). find_weight (adj_list g u) v = en_weight e"
    then obtain e where "e \<in> set (adj_list g u)" "find_weight (adj_list g u) v = en_weight e"
      by blast
    then show ?thesis unfolding w using f nn by simp
  qed
qed




subsection \<open>Correctness of \<open>graph_mst_prim\<close>\<close>


lemma adj_rel_empty [simp]: "adj_rel {} = {}"
  by (simp add: adj_rel_def)








text \<open>
  When the weights do not fit, the sum \<open>total_weight\<close> leaves the range of an \<open>int\<close>: on the
  triangle with three edges of weight 2000000000 the two emitted edges weigh 4000000000
  together and the reported total is \<open>-294967296\<close>.
\<close>

lemma mst_heavy_triangle:
  "graph_mst_prim True True (Some heavy_triangle) =
     Some (Some \<lparr>mst_edges = Some [\<lparr>me_u = 0, me_v = 1, me_weight = 2000000000\<rparr>,
                                    \<lparr>me_u = 0, me_v = 2, me_weight = 2000000000\<rparr>],
                 mst_num_edges = 2, mst_total_weight = - 294967296, mst_is_connected = True\<rparr>)"
  by code_simp




section \<open>Maximum flow (OS_project/part7/maxflow.c)\<close>

text \<open>
  The queue of the breadth-first search is a circular buffer. Its indices and its size
  are natural numbers here; the items are vertices.
\<close>

record Queue =
  q_data :: "int list"
  q_front :: nat
  q_rear :: nat
  q_size :: nat
  q_capacity :: nat

definition queue_create :: "nat \<Rightarrow> Queue" where
  "queue_create capacity =
     \<lparr>q_data = replicate capacity 0, q_front = 0, q_rear = 0, q_size = 0, q_capacity = capacity\<rparr>"

definition queue_is_empty :: "Queue \<Rightarrow> bool" where
  "queue_is_empty q = (q_size q = 0)"

definition queue_enqueue :: "Queue \<Rightarrow> int \<Rightarrow> int \<times> Queue" where
  "queue_enqueue q item =
     (if q_size q \<ge> q_capacity q then (0, q)
      else (1, q\<lparr>q_data := (q_data q)[q_rear q := item],
                  q_rear := (q_rear q + 1) mod q_capacity q,
                  q_size := q_size q + 1\<rparr>))"

definition queue_dequeue :: "Queue \<Rightarrow> int \<times> Queue" where
  "queue_dequeue q =
     (if queue_is_empty q then (- 1, q)
      else (q_data q ! q_front q,
            q\<lparr>q_front := (q_front q + 1) mod q_capacity q, q_size := q_size q - 1\<rparr>))"

record bfs_state =
  bs_visited :: "bool list"
  bs_queue :: Queue
  bs_parent :: "int list"
  bs_found :: bool

text \<open>
  The loop \<open>for (v = 0; v < n; v++)\<close> of \<open>bfs_find_path\<close>, from the vertex at the head of
  the list on; reaching the sink sets \<open>found\<close> and leaves the loop.
\<close>

fun bfs_scan :: "int list list \<Rightarrow> int \<Rightarrow> int \<Rightarrow> int list \<Rightarrow> bfs_state \<Rightarrow> bfs_state" where
  "bfs_scan res u sink [] st = st"
| "bfs_scan res u sink (v # vs) st =
     (if \<not> bs_visited st ! nat v \<and> res ! nat u ! nat v > 0 then
        (let st' = st\<lparr>bs_parent := (bs_parent st)[nat v := u],
                       bs_visited := (bs_visited st)[nat v := True],
                       bs_queue := snd (queue_enqueue (bs_queue st) v)\<rparr>
         in if v = sink then st'\<lparr>bs_found := True\<rparr> else bfs_scan res u sink vs st')
      else bfs_scan res u sink vs st)"

definition bfs_step :: "int list list \<Rightarrow> int \<Rightarrow> int \<Rightarrow> bfs_state \<Rightarrow> bfs_state" where
  "bfs_step res n sink st =
     (case queue_dequeue (bs_queue st) of (u, q') \<Rightarrow>
        bfs_scan res u sink (map int [0..<nat n]) (st\<lparr>bs_queue := q'\<rparr>))"

partial_function (option) bfs_loop ::
  "int list list \<Rightarrow> int \<Rightarrow> int \<Rightarrow> bfs_state \<Rightarrow> bfs_state option" where
  "bfs_loop res n sink st =
     (if \<not> queue_is_empty (bs_queue st) \<and> \<not> bs_found st
      then bfs_loop res n sink (bfs_step res n sink st)
      else Some st)"

declare bfs_loop.simps [code]

text \<open>
  \<open>bfs_find_path\<close> returns \<open>found\<close> and the parent array. \<open>mem\<close> says whether its two
  allocations succeed.
\<close>

definition bfs_find_path ::
  "bool \<Rightarrow> int list list \<Rightarrow> int \<Rightarrow> int \<Rightarrow> int \<Rightarrow> int list \<Rightarrow> (bool \<times> int list) option" where
  "bfs_find_path mem res n source sink parent =
     (if \<not> mem then Some (False, parent)
      else
        (case bfs_loop res n sink
                \<lparr>bs_visited = (replicate (nat n) False)[nat source := True],
                 bs_queue = snd (queue_enqueue (queue_create (nat n)) source),
                 bs_parent = parent[nat source := - 1],
                 bs_found = False\<rparr> of
           None \<Rightarrow> None
         | Some st \<Rightarrow> Some (bs_found st, bs_parent st)))"

text \<open>The loop of \<open>find_path_flow\<close>, at vertex \<open>v\<close> with the minimum so far.\<close>

partial_function (option) find_path_flow_loop ::
  "int list list \<Rightarrow> int \<Rightarrow> int list \<Rightarrow> int \<Rightarrow> int \<Rightarrow> int option" where
  "find_path_flow_loop res source parent v path_flow =
     (if v \<noteq> source then
        (let u = parent ! nat v in
         find_path_flow_loop res source parent u
           (if res ! nat u ! nat v < path_flow then res ! nat u ! nat v else path_flow))
      else Some path_flow)"

declare find_path_flow_loop.simps [code]

definition find_path_flow :: "int list list \<Rightarrow> int \<Rightarrow> int \<Rightarrow> int list \<Rightarrow> int option" where
  "find_path_flow res source sink parent = find_path_flow_loop res source parent sink INT_MAX"

text \<open>One assignment \<open>res_graph[u][v] = x\<close>.\<close>

definition mat_set :: "int list list \<Rightarrow> int \<Rightarrow> int \<Rightarrow> int \<Rightarrow> int list list" where
  "mat_set m u v x = m[nat u := (m ! nat u)[nat v := x]]"

partial_function (option) update_residual_loop ::
  "int list list \<Rightarrow> int \<Rightarrow> int list \<Rightarrow> int \<Rightarrow> int \<Rightarrow> int list list option" where
  "update_residual_loop res source parent path_flow v =
     (if v \<noteq> source then
        (let u = parent ! nat v;
             res1 = mat_set res u v (int32 (res ! nat u ! nat v - path_flow));
             res2 = mat_set res1 v u (int32 (res1 ! nat v ! nat u + path_flow))
         in update_residual_loop res2 source parent path_flow u)
      else Some res)"

declare update_residual_loop.simps [code]

definition update_residual_graph ::
  "int list list \<Rightarrow> int \<Rightarrow> int \<Rightarrow> int list \<Rightarrow> int \<Rightarrow> int list list option" where
  "update_residual_graph res source sink parent path_flow =
     update_residual_loop res source parent path_flow sink"

text \<open>
  One round of the main loop; \<open>None\<close> inside the result means that the loop ends. \<open>mem\<close>
  says whether the two allocations of this round's search succeed.
\<close>

definition flow_round ::
  "bool \<Rightarrow> int \<Rightarrow> int \<Rightarrow> int \<Rightarrow> int list list \<times> int list \<times> int
     \<Rightarrow> (int list list \<times> int list \<times> int) option option" where
  "flow_round mem n source sink st =
     (case st of (res, parent, max_flow) \<Rightarrow>
        (case bfs_find_path mem res n source sink parent of
           None \<Rightarrow> None
         | Some (found, parent') \<Rightarrow>
             if found then
               (case find_path_flow res source sink parent' of
                  None \<Rightarrow> None
                | Some path_flow \<Rightarrow>
                    (case update_residual_graph res source sink parent' path_flow of
                       None \<Rightarrow> None
                     | Some res' \<Rightarrow>
                         Some (Some (res', parent', int32 (max_flow + path_flow)))))
             else Some None))"

text \<open>
  The main loop. \<open>bfs_mem i\<close> says whether the allocations of the search succeed in the
  round \<open>i\<close> rounds from now; a search that cannot allocate reports no path, which ends
  the loop.
\<close>

partial_function (option) max_flow_loop ::
  "(nat \<Rightarrow> bool) \<Rightarrow> int \<Rightarrow> int \<Rightarrow> int \<Rightarrow> int list list \<times> int list \<times> int \<Rightarrow> int option" where
  "max_flow_loop bfs_mem n source sink st =
     (case flow_round (bfs_mem 0) n source sink st of
        None \<Rightarrow> None
      | Some None \<Rightarrow> Some (snd (snd st))
      | Some (Some st') \<Rightarrow> max_flow_loop (\<lambda>i. bfs_mem (Suc i)) n source sink st')"

declare max_flow_loop.simps [code]

text \<open>
  \<open>build_capacity_matrix\<close> runs the same two loops as \<open>build_weight_matrix\<close>: the matrix
  is cleared, then every adjacency entry \<open>u \<rightarrow> v\<close> with \<open>u \<noteq> v\<close> stores its weight at
  \<open>[u][v]\<close>.
\<close>

definition build_capacity_matrix :: "Graph \<Rightarrow> int list list" where
  "build_capacity_matrix g =
     weight_fill_rows g (map int [0..<nat (g_n g)])
       (replicate (nat (g_n g)) (replicate (nat (g_n g)) 0))"

text \<open>
  The outer \<open>None\<close>: the run has no defined return. \<open>Some None\<close>: return value 0.
  \<open>Some (Some v)\<close>: return value 1 with \<open>*max_flow_value = v\<close>. \<open>mem\<close> says whether the
  allocations of \<open>graph_max_flow\<close> itself (the matrix and the parent array) succeed,
  \<open>bfs_mem\<close> whether those of the search do, round by round: when they fail the function
  still returns 1, with the flow found so far. The parent array is not initialised by the
  code; only entries the search has written are ever read, and the model starts it with
  zeros.
\<close>

definition graph_max_flow ::
  "bool \<Rightarrow> (nat \<Rightarrow> bool) \<Rightarrow> Graph option \<Rightarrow> int \<Rightarrow> int \<Rightarrow> int option option" where
  "graph_max_flow mem bfs_mem g source sink =
     (case g of
        None \<Rightarrow> Some None
      | Some gr \<Rightarrow>
          if source < 0 \<or> sink < 0 \<or> source \<ge> g_n gr \<or> sink \<ge> g_n gr \<or> source = sink
          then Some None
          else if \<not> mem then Some None
          else
            (let n = g_n gr;
                 res_graph = build_capacity_matrix gr;
                 parent = replicate (nat n) 0
             in case max_flow_loop bfs_mem n source sink (res_graph, parent, 0) of
                  None \<Rightarrow> None
                | Some max_flow \<Rightarrow> Some (Some max_flow)))"

text \<open>The graph of scenario S5: \<open>n = 4\<close>, weighted edges \<open>(0,1,5)\<close>, \<open>(1,3,3)\<close>, \<open>(0,2,4)\<close>, \<open>(2,3,6)\<close>.\<close>

definition diamond :: Graph where
  "diamond = \<lparr>g_n = 4, g_adj =
     [[\<lparr>en_to = 2, en_weight = 4\<rparr>, \<lparr>en_to = 1, en_weight = 5\<rparr>],
      [\<lparr>en_to = 3, en_weight = 3\<rparr>, \<lparr>en_to = 0, en_weight = 5\<rparr>],
      [\<lparr>en_to = 3, en_weight = 6\<rparr>, \<lparr>en_to = 0, en_weight = 4\<rparr>],
      [\<lparr>en_to = 2, en_weight = 6\<rparr>, \<lparr>en_to = 1, en_weight = 3\<rparr>]]\<rparr>"

text \<open>Two vertices joined by an edge of weight \<open>-5\<close>.\<close>

definition negative_edge :: Graph where
  "negative_edge = \<lparr>g_n = 2, g_adj =
     [[\<lparr>en_to = 1, en_weight = - 5\<rparr>], [\<lparr>en_to = 0, en_weight = - 5\<rparr>]]\<rparr>"

subsection \<open>The circular queue\<close>

definition q_ok :: "Queue \<Rightarrow> bool" where
  "q_ok q = (length (q_data q) = q_capacity q \<and> q_front q < q_capacity q
             \<and> q_rear q = (q_front q + q_size q) mod q_capacity q
             \<and> q_size q \<le> q_capacity q)"

text \<open>The items waiting in the queue, oldest first.\<close>

definition q_list :: "Queue \<Rightarrow> int list" where
  "q_list q = map (\<lambda>i. q_data q ! ((q_front q + i) mod q_capacity q)) [0..<q_size q]"

lemma q_list_length [simp]: "length (q_list q) = q_size q"
  by (simp add: q_list_def)

lemma queue_create_ok:
  "0 < c \<Longrightarrow> q_ok (queue_create c)"
  "q_list (queue_create c) = []"
  "q_capacity (queue_create c) = c"
  "q_size (queue_create c) = 0"
  by (simp_all add: queue_create_def q_ok_def q_list_def)

lemma mod_offset_inj_le:
  fixes a i j c :: nat
  assumes "i \<le> j" "j < c" "(a + i) mod c = (a + j) mod c"
  shows "i = j"
proof -
  have "a + i \<le> a + j" using assms(1) by simp
  from mod_eq_dvd_iff_nat[OF this, of c] assms(3) have "c dvd (a + j) - (a + i)" by simp
  then have "c dvd j - i" by simp
  moreover have "j - i < c" using assms(2) by simp
  ultimately have "j - i = 0" using nat_dvd_not_less by (cases "j - i = 0") auto
  with assms(1) show ?thesis by simp
qed

lemma mod_offset_inj:
  fixes a i j c :: nat
  assumes "i < c" "j < c" "(a + i) mod c = (a + j) mod c"
  shows "i = j"
proof (cases "i \<le> j")
  case True
  from mod_offset_inj_le[OF True assms(2,3)] show ?thesis .
next
  case False
  then have "j \<le> i" by simp
  from mod_offset_inj_le[OF this assms(1) assms(3)[symmetric]] show ?thesis by simp
qed

lemma enqueue_ok:
  assumes ok: "q_ok q" and room: "q_size q < q_capacity q"
  shows "q_ok (snd (queue_enqueue q x))"
    and "q_list (snd (queue_enqueue q x)) = q_list q @ [x]"
    and "q_capacity (snd (queue_enqueue q x)) = q_capacity q"
    and "q_size (snd (queue_enqueue q x)) = Suc (q_size q)"
proof -
  let ?c = "q_capacity q"
  let ?q = "q\<lparr>q_data := (q_data q)[q_rear q := x], q_rear := (q_rear q + 1) mod ?c,
               q_size := q_size q + 1\<rparr>"
  have e: "snd (queue_enqueue q x) = ?q" using room by (simp add: queue_enqueue_def)
  from ok have len: "length (q_data q) = ?c" and fr: "q_front q < ?c"
    and rear: "q_rear q = (q_front q + q_size q) mod ?c"
    unfolding q_ok_def by auto
  have c0: "0 < ?c" using room by simp
  have r': "(q_rear q + 1) mod ?c = (q_front q + (q_size q + 1)) mod ?c"
    unfolding rear by (simp add: mod_Suc_eq)
  show "q_ok (snd (queue_enqueue q x))"
    unfolding e q_ok_def using len fr r' room by simp
  show "q_capacity (snd (queue_enqueue q x)) = q_capacity q" by (simp add: e)
  show "q_size (snd (queue_enqueue q x)) = Suc (q_size q)" by (simp add: e)
  have old: "(q_data q)[q_rear q := x] ! ((q_front q + i) mod ?c) = q_data q ! ((q_front q + i) mod ?c)"
    if "i < q_size q" for i
  proof -
    have "(q_front q + i) mod ?c \<noteq> (q_front q + q_size q) mod ?c"
      using mod_offset_inj[of i ?c "q_size q" "q_front q"] that room by auto
    then show ?thesis unfolding rear by simp
  qed
  have new: "(q_data q)[q_rear q := x] ! ((q_front q + q_size q) mod ?c) = x"
    unfolding rear using len c0 by simp
  show "q_list (snd (queue_enqueue q x)) = q_list q @ [x]"
    unfolding e q_list_def using old new by simp
qed

lemma dequeue_ok:
  assumes ok: "q_ok q" and ne: "0 < q_size q"
  shows "fst (queue_dequeue q) = hd (q_list q)"
    and "q_ok (snd (queue_dequeue q))"
    and "q_list (snd (queue_dequeue q)) = tl (q_list q)"
    and "q_capacity (snd (queue_dequeue q)) = q_capacity q"
    and "Suc (q_size (snd (queue_dequeue q))) = q_size q"
proof -
  let ?c = "q_capacity q"
  let ?q = "q\<lparr>q_front := (q_front q + 1) mod ?c, q_size := q_size q - 1\<rparr>"
  have e: "queue_dequeue q = (q_data q ! q_front q, ?q)"
    using ne by (simp add: queue_dequeue_def queue_is_empty_def)
  from ok have len: "length (q_data q) = ?c" and fr: "q_front q < ?c"
    and rear: "q_rear q = (q_front q + q_size q) mod ?c" and sz: "q_size q \<le> ?c"
    unfolding q_ok_def by auto
  have c0: "0 < ?c" using fr by simp
  obtain k where k: "q_size q = Suc k" using ne by (cases "q_size q") auto
  have upt: "[0..<q_size q] = 0 # map Suc [0..<k]"
    unfolding k by (simp add: upt_conv_Cons map_Suc_upt del: upt_Suc)
  have ql: "q_list q = q_data q ! q_front q
      # map (\<lambda>i. q_data q ! ((q_front q + Suc i) mod ?c)) [0..<k]"
    unfolding q_list_def upt using fr by (simp add: comp_def)
  show "fst (queue_dequeue q) = hd (q_list q)" by (simp add: e ql)
  have r': "q_rear q = ((q_front q + 1) mod ?c + (q_size q - 1)) mod ?c"
    unfolding rear k by (simp add: mod_Suc_eq mod_add_left_eq)
  show "q_ok (snd (queue_dequeue q))"
    unfolding e q_ok_def using len c0 r' sz by simp
  show "q_capacity (snd (queue_dequeue q)) = q_capacity q" by (simp add: e)
  show "Suc (q_size (snd (queue_dequeue q))) = q_size q" using ne by (simp add: e)
  have "((q_front q + 1) mod ?c + i) mod ?c = (q_front q + Suc i) mod ?c" for i
    by (simp add: mod_add_left_eq)
  then show "q_list (snd (queue_dequeue q)) = tl (q_list q)"
    unfolding ql by (simp add: e q_list_def k)
qed

subsection \<open>Flows and cuts of a capacity matrix\<close>

definition mat_shape :: "int \<Rightarrow> int list list \<Rightarrow> bool" where
  "mat_shape n m = (length m = nat n \<and> (\<forall>i < nat n. length (m ! i) = nat n))"

text \<open>The flow out of \<open>u\<close> that a residual matrix stands for.\<close>

definition excess :: "int list list \<Rightarrow> int list list \<Rightarrow> int \<Rightarrow> int \<Rightarrow> int" where
  "excess cap res n u = (\<Sum>v \<in> {0..<n}. wt cap u v - wt res u v)"

definition flow_inv ::
  "int list list \<Rightarrow> int \<Rightarrow> int \<Rightarrow> int \<Rightarrow> int list list \<Rightarrow> int \<Rightarrow> bool" where
  "flow_inv cap n s t res val =
     (mat_shape n res
      \<and> (\<forall>u v. 0 \<le> u \<and> u < n \<and> 0 \<le> v \<and> v < n \<longrightarrow> 0 \<le> wt res u v)
      \<and> (\<forall>u v. 0 \<le> u \<and> u < n \<and> 0 \<le> v \<and> v < n \<longrightarrow>
            wt res u v + wt res v u = wt cap u v + wt cap v u)
      \<and> (\<forall>u. 0 \<le> u \<and> u < n \<and> u \<noteq> s \<and> u \<noteq> t \<longrightarrow> excess cap res n u = 0)
      \<and> excess cap res n s = val)"

text \<open>An \<open>s\<close>-\<open>t\<close> cut is given by its source side; its capacity sums the entries leaving it.\<close>

definition st_cut :: "int \<Rightarrow> int \<Rightarrow> int \<Rightarrow> int set \<Rightarrow> bool" where
  "st_cut n s t S = (S \<subseteq> {0..<n} \<and> s \<in> S \<and> t \<notin> S)"

definition cut_capacity :: "int list list \<Rightarrow> int \<Rightarrow> int set \<Rightarrow> int" where
  "cut_capacity cap n S = (\<Sum>u \<in> S. \<Sum>v \<in> {0..<n} - S. wt cap u v)"

lemma flow_across_cut:
  assumes inv: "flow_inv cap n s t res val" and cut: "st_cut n s t S"
  shows "(\<Sum>u \<in> S. \<Sum>v \<in> {0..<n} - S. wt cap u v - wt res u v) = val"
proof -
  let ?f = "\<lambda>u v. wt cap u v - wt res u v"
  let ?V = "{0..<n}"
  from cut have SV: "S \<subseteq> ?V" and sS: "s \<in> S" and tS: "t \<notin> S" unfolding st_cut_def by auto
  have fS: "finite S" using SV by (rule finite_subset) simp
  from inv have pair: "\<And>u v. 0 \<le> u \<Longrightarrow> u < n \<Longrightarrow> 0 \<le> v \<Longrightarrow> v < n \<Longrightarrow>
        wt res u v + wt res v u = wt cap u v + wt cap v u"
    and cons: "\<And>u. 0 \<le> u \<Longrightarrow> u < n \<Longrightarrow> u \<noteq> s \<Longrightarrow> u \<noteq> t \<Longrightarrow> excess cap res n u = 0"
    and src: "excess cap res n s = val"
    unfolding flow_inv_def by auto
  have skew: "?f u v = - ?f v u" if "u \<in> S" "v \<in> S" for u v
  proof -
    from that SV have "0 \<le> u" "u < n" "0 \<le> v" "v < n" by auto
    from pair[OF this] show ?thesis by simp
  qed
  have "(\<Sum>u \<in> S. excess cap res n u) = excess cap res n s + (\<Sum>u \<in> S - {s}. excess cap res n u)"
    using sum.remove[OF fS sS] by simp
  also have "(\<Sum>u \<in> S - {s}. excess cap res n u) = 0"
  proof (rule sum.neutral, rule ballI)
    fix u assume u: "u \<in> S - {s}"
    with SV have "0 \<le> u" "u < n" by auto
    moreover from u tS have "u \<noteq> s" "u \<noteq> t" by auto
    ultimately show "excess cap res n u = 0" by (rule cons)
  qed
  finally have tot: "(\<Sum>u \<in> S. excess cap res n u) = val" using src by simp
  have split: "excess cap res n u = (\<Sum>v \<in> ?V - S. ?f u v) + (\<Sum>v \<in> S. ?f u v)" for u
    unfolding excess_def using sum.subset_diff[OF SV, of "?f u"] by simp
  have inner: "(\<Sum>u \<in> S. \<Sum>v \<in> S. ?f u v) = 0"
  proof -
    have "(\<Sum>u \<in> S. \<Sum>v \<in> S. ?f u v) = (\<Sum>u \<in> S. \<Sum>v \<in> S. - ?f v u)"
      by (intro sum.cong refl) (rule skew)
    also have "\<dots> = - (\<Sum>u \<in> S. \<Sum>v \<in> S. ?f v u)" by (simp only: sum_negf)
    also have "(\<Sum>u \<in> S. \<Sum>v \<in> S. ?f v u) = (\<Sum>u \<in> S. \<Sum>v \<in> S. ?f u v)" by (rule sum.swap)
    finally show ?thesis by simp
  qed
  have "(\<Sum>u \<in> S. excess cap res n u)
      = (\<Sum>u \<in> S. \<Sum>v \<in> ?V - S. ?f u v) + (\<Sum>u \<in> S. \<Sum>v \<in> S. ?f u v)"
    unfolding split by (simp add: sum.distrib)
  with tot inner show ?thesis by simp
qed

lemma flow_le_cut:
  assumes inv: "flow_inv cap n s t res val" and cut: "st_cut n s t S"
  shows "val \<le> cut_capacity cap n S"
proof -
  from cut have SV: "S \<subseteq> {0..<n}" unfolding st_cut_def by auto
  from inv have nn: "\<And>u v. 0 \<le> u \<Longrightarrow> u < n \<Longrightarrow> 0 \<le> v \<Longrightarrow> v < n \<Longrightarrow> 0 \<le> wt res u v"
    unfolding flow_inv_def by auto
  have "(\<Sum>u \<in> S. \<Sum>v \<in> {0..<n} - S. wt cap u v - wt res u v)
      \<le> (\<Sum>u \<in> S. \<Sum>v \<in> {0..<n} - S. wt cap u v)"
  proof (intro sum_mono)
    fix u v assume "u \<in> S" "v \<in> {0..<n} - S"
    with SV have "0 \<le> u" "u < n" "0 \<le> v" "v < n" by auto
    from nn[OF this] show "wt cap u v - wt res u v \<le> wt cap u v" by simp
  qed
  then show ?thesis unfolding cut_capacity_def flow_across_cut[OF inv cut] .
qed

lemma flow_eq_cut:
  assumes inv: "flow_inv cap n s t res val" and cut: "st_cut n s t S"
    and sat: "\<And>u v. u \<in> S \<Longrightarrow> v \<in> {0..<n} - S \<Longrightarrow> wt res u v = 0"
  shows "val = cut_capacity cap n S"
proof -
  have "(\<Sum>u \<in> S. \<Sum>v \<in> {0..<n} - S. wt cap u v - wt res u v)
      = (\<Sum>u \<in> S. \<Sum>v \<in> {0..<n} - S. wt cap u v)"
    by (intro sum.cong refl) (simp add: sat)
  then show ?thesis unfolding cut_capacity_def flow_across_cut[OF inv cut] by simp
qed

subsection \<open>Augmenting along a path\<close>

text \<open>The two assignments of one round of the loop of \<open>update_residual_graph\<close>.\<close>

definition edge_update :: "int list list \<Rightarrow> int \<Rightarrow> int \<Rightarrow> int \<Rightarrow> int list list" where
  "edge_update res u v d =
     (let res1 = mat_set res u v (res ! nat u ! nat v - d)
      in mat_set res1 v u (res1 ! nat v ! nat u + d))"

definition res_ok :: "int list list \<Rightarrow> int \<Rightarrow> int list list \<Rightarrow> bool" where
  "res_ok cap n res =
     (mat_shape n res
      \<and> (\<forall>u v. 0 \<le> u \<and> u < n \<and> 0 \<le> v \<and> v < n \<longrightarrow> 0 \<le> wt res u v)
      \<and> (\<forall>u v. 0 \<le> u \<and> u < n \<and> 0 \<le> v \<and> v < n \<longrightarrow>
            wt res u v + wt res v u = wt cap u v + wt cap v u))"

text \<open>
  The entries of a capacity matrix fit when the two entries of every pair of vertices add
  up to at most \<open>INT_MAX\<close>: a residual entry never exceeds that sum.
\<close>

definition cap_fits :: "int list list \<Rightarrow> int \<Rightarrow> bool" where
  "cap_fits cap n =
     (\<forall>u v. 0 \<le> u \<and> u < n \<and> 0 \<le> v \<and> v < n \<longrightarrow> wt cap u v + wt cap v u \<le> INT_MAX)"

lemma flow_inv_alt:
  "flow_inv cap n s t res val \<longleftrightarrow>
     res_ok cap n res
     \<and> (\<forall>u. 0 \<le> u \<and> u < n \<and> u \<noteq> s \<and> u \<noteq> t \<longrightarrow> excess cap res n u = 0)
     \<and> excess cap res n s = val"
  unfolding flow_inv_def res_ok_def by blast

lemma mat_set_shape:
  assumes "mat_shape n m"
  shows "mat_shape n (mat_set m u v x)"
proof -
  from assms have l: "length m = nat n" and r: "\<And>i. i < nat n \<Longrightarrow> length (m ! i) = nat n"
    unfolding mat_shape_def by auto
  have "length (m[nat u := (m ! nat u)[nat v := x]] ! i) = nat n" if "i < nat n" for i
  proof (cases "i = nat u")
    case True
    then show ?thesis using that l r[OF that] by simp
  next
    case False
    then show ?thesis using r[OF that] by simp
  qed
  then show ?thesis unfolding mat_shape_def mat_set_def using l by simp
qed

lemma mat_set_wt:
  assumes "mat_shape n m" "0 \<le> u" "u < n" "0 \<le> v" "v < n" "0 \<le> a" "a < n" "0 \<le> b" "b < n"
  shows "wt (mat_set m u v x) a b = (if a = u \<and> b = v then x else wt m a b)"
proof -
  have l: "nat u < length m" "nat a < length m" using assms unfolding mat_shape_def by auto
  have "nat u < nat n" using assms by simp
  then have "length (m ! nat u) = nat n" using assms(1) unfolding mat_shape_def by blast
  then have lv: "nat v < length (m ! nat u)" using assms by simp
  have uv: "nat a = nat u \<longleftrightarrow> a = u" "nat b = nat v \<longleftrightarrow> b = v"
    using assms by (auto simp: eq_nat_nat_iff)
  show ?thesis unfolding wt_def mat_set_def using l lv uv
    by (auto simp: nth_list_update)
qed

lemma edge_update_shape: "mat_shape n res \<Longrightarrow> mat_shape n (edge_update res u v d)"
  unfolding edge_update_def Let_def by (intro mat_set_shape)

lemma edge_update_wt:
  assumes sh: "mat_shape n res" and u: "0 \<le> u" "u < n" and v: "0 \<le> v" "v < n" and ne: "u \<noteq> v"
    and a: "0 \<le> a" "a < n" and b: "0 \<le> b" "b < n"
  shows "wt (edge_update res u v d) a b
           = wt res a b + (if a = u \<and> b = v then - d else 0) + (if a = v \<and> b = u then d else 0)"
proof -
  let ?r1 = "mat_set res u v (wt res u v - d)"
  have sh1: "mat_shape n ?r1" by (rule mat_set_shape[OF sh])
  have e: "edge_update res u v d = mat_set ?r1 v u (wt ?r1 v u + d)"
    by (simp add: edge_update_def Let_def wt_def)
  have 1: "wt ?r1 x y = (if x = u \<and> y = v then wt res u v - d else wt res x y)"
    if "0 \<le> x" "x < n" "0 \<le> y" "y < n" for x y
    using mat_set_wt[OF sh u v that] .
  have 2: "wt (edge_update res u v d) a b = (if a = v \<and> b = u then wt ?r1 v u + d else wt ?r1 a b)"
    unfolding e using mat_set_wt[OF sh1 v u a b] .
  show ?thesis unfolding 2 using 1[OF a b] 1[OF v u] ne by auto
qed

lemma edge_update_excess:
  assumes sh: "mat_shape n res" and u: "0 \<le> u" "u < n" and v: "0 \<le> v" "v < n" and ne: "u \<noteq> v"
    and x: "0 \<le> x" "x < n"
  shows "excess cap (edge_update res u v d) n x
           = excess cap res n x + (if x = u then d else 0) - (if x = v then d else 0)"
proof -
  have "excess cap (edge_update res u v d) n x
      = (\<Sum>b \<in> {0..<n}. (wt cap x b - wt res x b)
            + ((if b = v then (if x = u then d else 0) else 0)
               - (if b = u then (if x = v then d else 0) else 0)))"
    unfolding excess_def
  proof (rule sum.cong[OF refl])
    fix b assume "b \<in> {0..<n}"
    then have b: "0 \<le> b" "b < n" by auto
    show "wt cap x b - wt (edge_update res u v d) x b
        = (wt cap x b - wt res x b)
            + ((if b = v then (if x = u then d else 0) else 0)
               - (if b = u then (if x = v then d else 0) else 0))"
      unfolding edge_update_wt[OF sh u v ne x b] by auto
  qed
  also have "\<dots> = excess cap res n x
      + ((\<Sum>b \<in> {0..<n}. if b = v then (if x = u then d else 0) else 0)
         - (\<Sum>b \<in> {0..<n}. if b = u then (if x = v then d else 0) else 0))"
    unfolding excess_def by (simp only: sum.distrib sum_subtractf)
  also have "(\<Sum>b \<in> {0..<n}. if b = v then (if x = u then d else 0) else 0)
      = (if x = u then d else 0)"
    using v by (simp add: sum.delta)
  also have "(\<Sum>b \<in> {0..<n}. if b = u then (if x = v then d else 0) else 0)
      = (if x = v then d else 0)"
    using u by (simp add: sum.delta)
  finally show ?thesis by simp
qed

text \<open>
  The vertices the loops of \<open>find_path_flow\<close> and \<open>update_residual_graph\<close> walk through:
  from a vertex along the parent pointers to the source.
\<close>

fun parent_chain :: "int list \<Rightarrow> int \<Rightarrow> int list \<Rightarrow> bool" where
  "parent_chain parent s [] = False"
| "parent_chain parent s [v] = (v = s)"
| "parent_chain parent s (v # w # vs) =
     (v \<noteq> s \<and> parent ! nat v = w \<and> parent_chain parent s (w # vs))"

fun chain_min :: "int list list \<Rightarrow> int list \<Rightarrow> int \<Rightarrow> int" where
  "chain_min res (v # w # vs) pf =
     chain_min res (w # vs) (if wt res w v < pf then wt res w v else pf)"
| "chain_min res vs pf = pf"

fun chain_update :: "int list list \<Rightarrow> int list \<Rightarrow> int \<Rightarrow> int list list" where
  "chain_update res (v # w # vs) d = chain_update (edge_update res w v d) (w # vs) d"
| "chain_update res vs d = res"

text \<open>The residual edges of a chain, each from a parent to its child.\<close>

fun chain_edges :: "int list \<Rightarrow> (int \<times> int) list" where
  "chain_edges (v # w # vs) = (w, v) # chain_edges (w # vs)"
| "chain_edges vs = []"

lemma chain_edges_set: "(a, b) \<in> set (chain_edges c) \<Longrightarrow> a \<in> set c \<and> b \<in> set c"
  by (induction c rule: chain_edges.induct) auto

lemma chain_edges_tl: "(a, b) \<in> set (chain_edges (w # vs)) \<Longrightarrow> a \<in> set vs"
  by (induction vs arbitrary: w b) auto

lemma edge_update_ok:
  assumes ok: "res_ok cap n res" and w: "0 \<le> w" "w < n" and v: "0 \<le> v" "v < n"
    and ne: "w \<noteq> v" and d: "0 \<le> d" and dw: "d \<le> wt res w v"
  shows "res_ok cap n (edge_update res w v d)"
proof -
  let ?r = "edge_update res w v d"
  from ok have sh: "mat_shape n res"
    and nn: "\<And>a b. 0 \<le> a \<Longrightarrow> a < n \<Longrightarrow> 0 \<le> b \<Longrightarrow> b < n \<Longrightarrow> 0 \<le> wt res a b"
    and pr: "\<And>a b. 0 \<le> a \<Longrightarrow> a < n \<Longrightarrow> 0 \<le> b \<Longrightarrow> b < n \<Longrightarrow>
        wt res a b + wt res b a = wt cap a b + wt cap b a"
    unfolding res_ok_def by auto
  note W = edge_update_wt[OF sh w v ne]
  show ?thesis unfolding res_ok_def
  proof (intro conjI allI impI)
    show "mat_shape n ?r" by (rule edge_update_shape[OF sh])
    fix a b assume h: "0 \<le> a \<and> a < n \<and> 0 \<le> b \<and> b < n"
    then have a: "0 \<le> a" "a < n" and b: "0 \<le> b" "b < n" by auto
    show "0 \<le> wt ?r a b" unfolding W[OF a b] using nn[OF a b] dw d by auto
    show "wt ?r a b + wt ?r b a = wt cap a b + wt cap b a"
      unfolding W[OF a b] W[OF b a] using pr[OF a b] ne by auto
  qed
qed

lemma edge_update_rest:
  assumes sh: "mat_shape n res" and dist: "distinct (v # w # vs)"
    and rng: "\<forall>x \<in> set (v # w # vs). 0 \<le> x \<and> x < n"
    and rest: "\<forall>(a, b) \<in> set (chain_edges (w # vs)). d \<le> wt res a b"
  shows "\<forall>(a, b) \<in> set (chain_edges (w # vs)). d \<le> wt (edge_update res w v d) a b"
proof (clarify)
  fix a b assume ab: "(a, b) \<in> set (chain_edges (w # vs))"
  from rng have v: "0 \<le> v" "v < n" and w: "0 \<le> w" "w < n" by auto
  have ne: "w \<noteq> v" using dist by auto
  have m: "a \<in> set (w # vs)" "b \<in> set (w # vs)" "a \<in> set vs"
    using chain_edges_set[OF ab] chain_edges_tl[OF ab] by auto
  then have a: "0 \<le> a" "a < n" and b: "0 \<le> b" "b < n" using rng by auto
  have "a \<noteq> w" "b \<noteq> v" "a \<noteq> v" using m dist by auto
  then have "wt (edge_update res w v d) a b = wt res a b"
    unfolding edge_update_wt[OF sh w v ne a b] by simp
  with rest ab show "d \<le> wt (edge_update res w v d) a b" by auto
qed

text \<open>
  Within the bounds of a residual matrix whose capacities fit, the two assignments stay
  in the range of an \<open>int\<close>.
\<close>

lemma edge_update_int32:
  assumes ok: "res_ok cap n res" and fit: "cap_fits cap n"
    and w: "0 \<le> w" "w < n" and v: "0 \<le> v" "v < n"
    and ne: "w \<noteq> v" and d: "0 \<le> d" and dw: "d \<le> wt res w v"
  shows "mat_set (mat_set res w v (int32 (res ! nat w ! nat v - d))) v w
           (int32 (mat_set res w v (int32 (res ! nat w ! nat v - d)) ! nat v ! nat w + d))
         = edge_update res w v d"
proof -
  from ok have sh: "mat_shape n res"
    and nn: "\<And>a b. 0 \<le> a \<Longrightarrow> a < n \<Longrightarrow> 0 \<le> b \<Longrightarrow> b < n \<Longrightarrow> 0 \<le> wt res a b"
    and pr: "\<And>a b. 0 \<le> a \<Longrightarrow> a < n \<Longrightarrow> 0 \<le> b \<Longrightarrow> b < n \<Longrightarrow>
        wt res a b + wt res b a = wt cap a b + wt cap b a"
    unfolding res_ok_def by auto
  have b: "wt res w v + wt res v w \<le> INT_MAX"
    using pr[OF w v] fit w v unfolding cap_fits_def by auto
  have x: "res ! nat w ! nat v = wt res w v" by (simp add: wt_def)
  have 1: "int32 (wt res w v - d) = wt res w v - d"
    by (rule int32_nonneg_id) (use b nn[OF v w] d dw in auto)
  let ?r1 = "mat_set res w v (wt res w v - d)"
  have y: "?r1 ! nat v ! nat w = wt ?r1 v w" by (simp add: wt_def)
  have z: "wt ?r1 v w = wt res v w"
    using mat_set_wt[OF sh w v v w] ne by auto
  have 2: "int32 (wt ?r1 v w + d) = wt ?r1 v w + d"
    unfolding z by (rule int32_nonneg_id) (use b nn[OF v w] d dw in auto)
  show ?thesis
    unfolding x 1 y 2 by (simp add: edge_update_def Let_def wt_def)
qed

lemma find_path_flow_chain:
  "parent_chain parent s (v # vs) \<Longrightarrow>
   find_path_flow_loop res s parent v pf = Some (chain_min res (v # vs) pf)"
proof (induction vs arbitrary: v pf)
  case Nil
  then show ?case by (subst find_path_flow_loop.simps) simp
next
  case (Cons w vs)
  then have h: "v \<noteq> s" "parent ! nat v = w" "parent_chain parent s (w # vs)" by auto
  show ?case
    by (subst find_path_flow_loop.simps) (simp add: h Let_def Cons.IH[OF h(3)] wt_def)
qed

lemma update_residual_chain:
  assumes fit: "cap_fits cap n" and d: "0 \<le> d"
  shows "parent_chain parent s (v # vs) \<Longrightarrow> res_ok cap n res \<Longrightarrow> distinct (v # vs) \<Longrightarrow>
   \<forall>x \<in> set (v # vs). 0 \<le> x \<and> x < n \<Longrightarrow>
   \<forall>(a, b) \<in> set (chain_edges (v # vs)). d \<le> wt res a b \<Longrightarrow>
   update_residual_loop res s parent d v = Some (chain_update res (v # vs) d)"
proof (induction vs arbitrary: v res)
  case Nil
  then show ?case by (subst update_residual_loop.simps) simp
next
  case (Cons w vs)
  from Cons.prems(1) have h: "v \<noteq> s" "parent ! nat v = w" "parent_chain parent s (w # vs)"
    by auto
  from Cons.prems(4) have v: "0 \<le> v" "v < n" and w: "0 \<le> w" "w < n"
    and rng: "\<forall>x \<in> set (w # vs). 0 \<le> x \<and> x < n" by auto
  from Cons.prems(3) have ne: "w \<noteq> v" and dist: "distinct (w # vs)" by auto
  from Cons.prems(5) have dw: "d \<le> wt res w v"
    and rest: "\<forall>(a, b) \<in> set (chain_edges (w # vs)). d \<le> wt res a b" by auto
  from Cons.prems(2) have sh: "mat_shape n res" unfolding res_ok_def by simp
  note ok' = edge_update_ok[OF Cons.prems(2) w v ne d dw]
  note rest' = edge_update_rest[OF sh Cons.prems(3,4) rest]
  note e = edge_update_int32[OF Cons.prems(2) fit w v ne d dw]
  have "update_residual_loop res s parent d v
      = update_residual_loop (edge_update res w v d) s parent d w"
    by (rule trans[OF update_residual_loop.simps]) (simp add: h Let_def e)
  also have "\<dots> = Some (chain_update (edge_update res w v d) (w # vs) d)"
    by (rule Cons.IH[OF h(3) ok' dist rng rest'])
  finally show ?case by simp
qed

lemma chain_min_le: "chain_min res c pf \<le> pf"
proof (induction res c pf rule: chain_min.induct)
  case (1 res v w vs pf)
  then show ?case by (auto split: if_splits)
qed simp_all

lemma chain_min_edge: "(a, b) \<in> set (chain_edges c) \<Longrightarrow> chain_min res c pf \<le> wt res a b"
proof (induction res c pf rule: chain_min.induct)
  case (1 res v w vs pf)
  from "1.prems" consider "a = w" "b = v" | "(a, b) \<in> set (chain_edges (w # vs))" by auto
  then show ?case
  proof cases
    case 1
    have "chain_min res (v # w # vs) pf \<le> (if wt res w v < pf then wt res w v else pf)"
      by (simp add: chain_min_le)
    then show ?thesis using 1 by (auto split: if_splits)
  next
    case 2
    then show ?thesis using "1.IH" by simp
  qed
qed simp_all

lemma chain_min_pos:
  "0 < pf \<Longrightarrow> \<forall>(a, b) \<in> set (chain_edges c). 0 < wt res a b \<Longrightarrow> 0 < chain_min res c pf"
  by (induction res c pf rule: chain_min.induct) auto

lemma chain_update_ok:
  assumes "res_ok cap n res" and "distinct c" and "\<forall>x \<in> set c. 0 \<le> x \<and> x < n"
    and "0 \<le> d" and "\<forall>(a, b) \<in> set (chain_edges c). d \<le> wt res a b" and "c \<noteq> []"
  shows "res_ok cap n (chain_update res c d)
       \<and> (\<forall>x. 0 \<le> x \<and> x < n \<longrightarrow>
            excess cap (chain_update res c d) n x
              = excess cap res n x + (if x = last c then d else 0) - (if x = hd c then d else 0))"
  using assms
proof (induction res c d rule: chain_update.induct)
  case (1 res v w vs d)
  let ?r = "edge_update res w v d"
  from "1.prems" have ok: "res_ok cap n res" and dist: "distinct (v # w # vs)"
    and v: "0 \<le> v" "v < n" and w: "0 \<le> w" "w < n" and d: "0 \<le> d"
    and dw: "d \<le> wt res w v"
    and rest: "\<forall>(a, b) \<in> set (chain_edges (w # vs)). d \<le> wt res a b"
    by auto
  from ok have sh: "mat_shape n res"
    and nn: "\<And>a b. 0 \<le> a \<Longrightarrow> a < n \<Longrightarrow> 0 \<le> b \<Longrightarrow> b < n \<Longrightarrow> 0 \<le> wt res a b"
    and pr: "\<And>a b. 0 \<le> a \<Longrightarrow> a < n \<Longrightarrow> 0 \<le> b \<Longrightarrow> b < n \<Longrightarrow>
        wt res a b + wt res b a = wt cap a b + wt cap b a"
    unfolding res_ok_def by auto
  have ne: "w \<noteq> v" using dist by auto
  have ok': "res_ok cap n ?r" by (rule edge_update_ok[OF ok w v ne d dw])
  have rest': "\<forall>(a, b) \<in> set (chain_edges (w # vs)). d \<le> wt ?r a b"
    by (rule edge_update_rest[OF sh dist "1.prems"(3) rest])
  have IH: "res_ok cap n (chain_update ?r (w # vs) d)"
    "\<And>x. 0 \<le> x \<Longrightarrow> x < n \<Longrightarrow>
        excess cap (chain_update ?r (w # vs) d) n x
          = excess cap ?r n x + (if x = last (w # vs) then d else 0) - (if x = hd (w # vs) then d else 0)"
    using "1.IH"[OF ok' _ _ d rest'] dist "1.prems"(3) by auto
  show ?case
  proof (intro conjI allI impI)
    show "res_ok cap n (chain_update res (v # w # vs) d)" using IH(1) by simp
    fix x assume "0 \<le> x \<and> x < n"
    then have x: "0 \<le> x" "x < n" by auto
    show "excess cap (chain_update res (v # w # vs) d) n x
        = excess cap res n x + (if x = last (v # w # vs) then d else 0)
            - (if x = hd (v # w # vs) then d else 0)"
      using IH(2)[OF x] edge_update_excess[OF sh w v ne x, of cap d] by auto
  qed
qed simp_all

subsection \<open>The breadth-first search\<close>

definition is_vis :: "bfs_state \<Rightarrow> int \<Rightarrow> bool" where
  "is_vis st v = bs_visited st ! nat v"

definition par :: "bfs_state \<Rightarrow> int \<Rightarrow> int" where
  "par st v = bs_parent st ! nat v"

definition unvis :: "bfs_state \<Rightarrow> nat" where
  "unvis st = length (filter Not (bs_visited st))"

definition queued :: "bfs_state \<Rightarrow> int set" where
  "queued st = set (q_list (bs_queue st))"

text \<open>
  The invariant, for a state in which the scan of the dequeued vertex \<open>u0\<close> has reached
  \<open>k\<close>; at the head of the outer loop \<open>k = n\<close>.
\<close>

definition bi_shape :: "int \<Rightarrow> int \<Rightarrow> int \<Rightarrow> bfs_state \<Rightarrow> int \<Rightarrow> int \<Rightarrow> bool" where
  "bi_shape n s t st u0 k =
     (length (bs_visited st) = nat n \<and> length (bs_parent st) = nat n
      \<and> q_ok (bs_queue st) \<and> q_capacity (bs_queue st) = nat n
      \<and> q_size (bs_queue st) + unvis st \<le> nat n
      \<and> 0 \<le> s \<and> s < n \<and> 0 \<le> t \<and> t < n \<and> s \<noteq> t
      \<and> 0 \<le> u0 \<and> u0 < n \<and> is_vis st u0 \<and> 0 \<le> k \<and> k \<le> n
      \<and> is_vis st s \<and> (bs_found st \<longleftrightarrow> is_vis st t))"

definition bi_queue :: "int \<Rightarrow> bfs_state \<Rightarrow> bool" where
  "bi_queue n st = (\<forall>x \<in> queued st. 0 \<le> x \<and> x < n \<and> is_vis st x)"

definition bi_tree :: "int list list \<Rightarrow> int \<Rightarrow> int \<Rightarrow> bfs_state \<Rightarrow> (int \<Rightarrow> nat) \<Rightarrow> bool" where
  "bi_tree res n s st rk =
     (\<forall>v. 0 \<le> v \<and> v < n \<and> is_vis st v \<and> v \<noteq> s \<longrightarrow>
        0 \<le> par st v \<and> par st v < n \<and> is_vis st (par st v) \<and> 0 < wt res (par st v) v
        \<and> rk (par st v) < rk v)"

definition bi_closed :: "int list list \<Rightarrow> int \<Rightarrow> bfs_state \<Rightarrow> int \<Rightarrow> int \<Rightarrow> bool" where
  "bi_closed res n st u0 k =
     (bs_found st \<or>
      (\<forall>u v. 0 \<le> u \<and> u < n \<and> 0 \<le> v \<and> v < n \<and> is_vis st u \<and> u \<notin> queued st \<and> 0 < wt res u v
         \<longrightarrow> is_vis st v \<or> (u = u0 \<and> k \<le> v)))"

definition bfs_inv ::
  "int list list \<Rightarrow> int \<Rightarrow> int \<Rightarrow> int \<Rightarrow> bfs_state \<Rightarrow> int \<Rightarrow> int \<Rightarrow> bool" where
  "bfs_inv res n s t st u0 k =
     (bi_shape n s t st u0 k \<and> bi_queue n st \<and> (\<exists>rk. bi_tree res n s st rk)
      \<and> bi_closed res n st u0 k)"

definition bmeasure :: "bfs_state \<Rightarrow> nat" where
  "bmeasure st = 2 * unvis st + q_size (bs_queue st)"

text \<open>The state after the body of the scan has marked \<open>v\<close>.\<close>

definition visit :: "int \<Rightarrow> int \<Rightarrow> bfs_state \<Rightarrow> bfs_state" where
  "visit u v st =
     st\<lparr>bs_parent := (bs_parent st)[nat v := u],
        bs_visited := (bs_visited st)[nat v := True],
        bs_queue := snd (queue_enqueue (bs_queue st) v)\<rparr>"

definition scan_from :: "int list list \<Rightarrow> int \<Rightarrow> int \<Rightarrow> int \<Rightarrow> int \<Rightarrow> bfs_state \<Rightarrow> bfs_state" where
  "scan_from res n u t k st = bfs_scan res u t (map int [nat k..<nat n]) st"

lemma scan_from_done: "n \<le> k \<Longrightarrow> scan_from res n u t k st = st"
  by (simp add: scan_from_def)

lemma scan_from_step:
  assumes k: "0 \<le> k" "k < n"
  shows "scan_from res n u t k st =
     (if \<not> is_vis st k \<and> 0 < wt res u k then
        (if k = t then (visit u k st)\<lparr>bs_found := True\<rparr>
         else scan_from res n u t (k + 1) (visit u k st))
      else scan_from res n u t (k + 1) st)"
proof -
  from k have "nat k < nat n" by simp
  then have "[nat k..<nat n] = nat k # [Suc (nat k)..<nat n]" by (rule upt_conv_Cons)
  moreover have "Suc (nat k) = nat (k + 1)" using k by (simp add: nat_add_distrib)
  moreover have "int (nat k) = k" using k by simp
  ultimately have "map int [nat k..<nat n] = k # map int [nat (k + 1)..<nat n]"
    by (simp only: list.map)
  then show ?thesis unfolding scan_from_def
    by (simp add: is_vis_def wt_def visit_def Let_def)
qed

lemma filter_not_update:
  "i < length xs \<Longrightarrow> \<not> xs ! i \<Longrightarrow>
   Suc (length (filter Not (xs[i := True]))) = length (filter Not xs)"
proof (induction xs arbitrary: i)
  case Nil
  then show ?case by simp
next
  case (Cons x xs)
  then show ?case by (cases i) auto
qed

lemma visit_facts:
  assumes sh: "bi_shape n s t st u0 k0" and v: "0 \<le> v" "v < n" and nv: "\<not> is_vis st v"
  shows "\<And>x. 0 \<le> x \<Longrightarrow> is_vis (visit u v st) x = (x = v \<or> is_vis st x)"
    and "\<And>x. 0 \<le> x \<Longrightarrow> par (visit u v st) x = (if x = v then u else par st x)"
    and "queued (visit u v st) = insert v (queued st)"
    and "q_ok (bs_queue (visit u v st))"
    and "q_capacity (bs_queue (visit u v st)) = nat n"
    and "q_size (bs_queue (visit u v st)) = Suc (q_size (bs_queue st))"
    and "Suc (unvis (visit u v st)) = unvis st"
    and "length (bs_visited (visit u v st)) = nat n"
    and "length (bs_parent (visit u v st)) = nat n"
    and "bs_found (visit u v st) = bs_found st"
proof -
  from sh have len: "length (bs_visited st) = nat n" "length (bs_parent st) = nat n"
    and qok: "q_ok (bs_queue st)" and cap: "q_capacity (bs_queue st) = nat n"
    and bound: "q_size (bs_queue st) + unvis st \<le> nat n"
    unfolding bi_shape_def by auto
  have vl: "nat v < nat n" using v by simp
  have nv': "\<not> bs_visited st ! nat v" using nv by (simp add: is_vis_def)
  have un: "Suc (length (filter Not ((bs_visited st)[nat v := True]))) = unvis st"
    unfolding unvis_def using filter_not_update[of "nat v" "bs_visited st"] vl len nv' by simp
  then have "0 < unvis st" by simp
  with bound cap have room: "q_size (bs_queue st) < q_capacity (bs_queue st)" by simp
  note E = enqueue_ok[OF qok room, of v]
  show "is_vis (visit u v st) x = (x = v \<or> is_vis st x)" if "0 \<le> x" for x
    using that v vl len by (auto simp: is_vis_def visit_def nth_list_update eq_nat_nat_iff)
  show "par (visit u v st) x = (if x = v then u else par st x)" if "0 \<le> x" for x
    using that v vl len by (auto simp: par_def visit_def nth_list_update eq_nat_nat_iff)
  show "queued (visit u v st) = insert v (queued st)"
    using E(2) by (simp add: queued_def visit_def)
  show "q_ok (bs_queue (visit u v st))" using E(1) by (simp add: visit_def)
  show "q_capacity (bs_queue (visit u v st)) = nat n" using E(3) cap by (simp add: visit_def)
  show "q_size (bs_queue (visit u v st)) = Suc (q_size (bs_queue st))"
    using E(4) by (simp add: visit_def)
  show "Suc (unvis (visit u v st)) = unvis st" using un by (simp add: unvis_def visit_def)
  show "length (bs_visited (visit u v st)) = nat n" using len by (simp add: visit_def)
  show "length (bs_parent (visit u v st)) = nat n" using len by (simp add: visit_def)
  show "bs_found (visit u v st) = bs_found st" by (simp add: visit_def)
qed

lemma visit_inv:
  assumes inv: "bfs_inv res n s t st u k" and k: "k < n" and nf: "\<not> bs_found st"
    and c: "\<not> is_vis st k" "0 < wt res u k"
  shows "k \<noteq> t \<Longrightarrow> bfs_inv res n s t (visit u k st) u (k + 1)"
    and "k = t \<Longrightarrow> bfs_inv res n s t ((visit u k st)\<lparr>bs_found := True\<rparr>) u n"
    and "bmeasure (visit u k st) < bmeasure st"
proof -
  let ?st = "visit u k st"
  from inv obtain rk where sh: "bi_shape n s t st u k" and qu: "bi_queue n st"
    and tr: "bi_tree res n s st rk" and cl: "bi_closed res n st u k"
    unfolding bfs_inv_def by auto
  from sh have k0: "0 \<le> k" and u: "0 \<le> u" "u < n" "is_vis st u"
    and st: "0 \<le> s" "s < n" "0 \<le> t" "t < n" "s \<noteq> t" "is_vis st s"
    and ft: "bs_found st \<longleftrightarrow> is_vis st t"
    and bound: "q_size (bs_queue st) + unvis st \<le> nat n"
    unfolding bi_shape_def by auto
  note V = visit_facts[OF sh k0 k c(1), where u = u]
  have uk: "u \<noteq> k" using u c by auto
  show m: "bmeasure ?st < bmeasure st"
    unfolding bmeasure_def V(6) using V(7) by simp
  have qu': "bi_queue n ?st" unfolding bi_queue_def V(3)
  proof
    fix x assume "x \<in> insert k (queued st)"
    then consider "x = k" | "x \<in> queued st" by auto
    then show "0 \<le> x \<and> x < n \<and> is_vis ?st x"
    proof cases
      case 1
      then show ?thesis using k k0 by (simp add: V(1))
    next
      case 2
      with qu have "0 \<le> x \<and> x < n \<and> is_vis st x" unfolding bi_queue_def by blast
      then show ?thesis by (simp add: V(1))
    qed
  qed
  let ?rk = "rk(k := Suc (rk u))"
  have tr': "bi_tree res n s ?st ?rk" unfolding bi_tree_def
  proof (intro allI impI)
    fix v assume h: "0 \<le> v \<and> v < n \<and> is_vis ?st v \<and> v \<noteq> s"
    show "0 \<le> par ?st v \<and> par ?st v < n \<and> is_vis ?st (par ?st v) \<and> 0 < wt res (par ?st v) v
        \<and> ?rk (par ?st v) < ?rk v"
    proof (cases "v = k")
      case True
      then show ?thesis using u uk c(2) k0 by (simp add: V(1,2))
    next
      case False
      with h have "0 \<le> v \<and> v < n \<and> is_vis st v \<and> v \<noteq> s" by (auto simp: V(1))
      with tr have o: "0 \<le> par st v" "par st v < n" "is_vis st (par st v)" "0 < wt res (par st v) v"
        "rk (par st v) < rk v" unfolding bi_tree_def by blast+
      have "par st v \<noteq> k" using o(3) c(1) by auto
      then show ?thesis using o False h by (simp add: V(1,2))
    qed
  qed
  have bound': "q_size (bs_queue ?st) + unvis ?st \<le> nat n"
    unfolding V(6) using V(7) bound by simp
  have vis: "is_vis ?st u" "is_vis ?st s" "is_vis ?st k" "is_vis ?st t \<longleftrightarrow> k = t"
    using u st k0 ft nf by (auto simp: V(1))
  show "bfs_inv res n s t ?st u (k + 1)" if kt: "k \<noteq> t"
  proof -
    have sh': "bi_shape n s t ?st u (k + 1)" unfolding bi_shape_def
      using V(4,5,8,9,10) bound' st u k k0 nf kt vis by simp
    have cl': "bi_closed res n ?st u (k + 1)" unfolding bi_closed_def
    proof (rule disjI2, intro allI impI)
      fix a v
      assume h: "0 \<le> a \<and> a < n \<and> 0 \<le> v \<and> v < n \<and> is_vis ?st a \<and> a \<notin> queued ?st \<and> 0 < wt res a v"
      then have ak: "a \<noteq> k" unfolding V(3) by auto
      with h have "0 \<le> a \<and> a < n \<and> 0 \<le> v \<and> v < n \<and> is_vis st a \<and> a \<notin> queued st \<and> 0 < wt res a v"
        unfolding V(3) by (auto simp: V(1))
      with cl nf have "is_vis st v \<or> (a = u \<and> k \<le> v)" unfolding bi_closed_def by blast
      then show "is_vis ?st v \<or> (a = u \<and> k + 1 \<le> v)" using h by (cases "v = k") (auto simp: V(1))
    qed
    show "bfs_inv res n s t ?st u (k + 1)"
      unfolding bfs_inv_def using sh' qu' tr' cl' by blast
  qed
  show "bfs_inv res n s t (?st\<lparr>bs_found := True\<rparr>) u n" if kt: "k = t"
  proof -
    let ?sf = "?st\<lparr>bs_found := True\<rparr>"
    have acc: "is_vis ?sf = is_vis ?st" "par ?sf = par ?st" "queued ?sf = queued ?st"
      "unvis ?sf = unvis ?st"
      by (simp_all add: is_vis_def par_def queued_def unvis_def fun_eq_iff)
    have sh': "bi_shape n s t ?sf u n" unfolding bi_shape_def acc
      using V(4,5,8,9) bound' st u k k0 vis kt by simp
    have "bi_queue n ?sf" using qu' unfolding bi_queue_def acc .
    moreover have "bi_tree res n s ?sf ?rk" using tr' unfolding bi_tree_def acc .
    moreover have "bi_closed res n ?sf u n" unfolding bi_closed_def by simp
    ultimately show "bfs_inv res n s t ?sf u n" unfolding bfs_inv_def using sh' by blast
  qed
qed

lemma skip_inv:
  assumes inv: "bfs_inv res n s t st u k" and k: "k < n"
    and c: "\<not> (\<not> is_vis st k \<and> 0 < wt res u k)"
  shows "bfs_inv res n s t st u (k + 1)"
proof -
  from inv obtain rk where sh: "bi_shape n s t st u k" and qu: "bi_queue n st"
    and tr: "bi_tree res n s st rk" and cl: "bi_closed res n st u k"
    unfolding bfs_inv_def by auto
  have sh': "bi_shape n s t st u (k + 1)" using sh k unfolding bi_shape_def by auto
  have cl': "bi_closed res n st u (k + 1)"
  proof (cases "bs_found st")
    case True
    then show ?thesis unfolding bi_closed_def by simp
  next
    case False
    show ?thesis unfolding bi_closed_def
    proof (rule disjI2, intro allI impI)
      fix a v
      assume h: "0 \<le> a \<and> a < n \<and> 0 \<le> v \<and> v < n \<and> is_vis st a \<and> a \<notin> queued st \<and> 0 < wt res a v"
      with cl False have "is_vis st v \<or> (a = u \<and> k \<le> v)" unfolding bi_closed_def by blast
      then show "is_vis st v \<or> (a = u \<and> k + 1 \<le> v)" using h c by (cases "v = k") auto
    qed
  qed
  show ?thesis unfolding bfs_inv_def using sh' qu tr cl' by blast
qed

lemma scan_from_spec:
  assumes "bfs_inv res n s t st u k" and "\<not> bs_found st"
  shows "bfs_inv res n s t (scan_from res n u t k st) u n
       \<and> bmeasure (scan_from res n u t k st) \<le> bmeasure st"
  using assms
proof (induction "nat n - nat k" arbitrary: k st)
  case 0
  from "0.prems" have k: "0 \<le> k" "k \<le> n" unfolding bfs_inv_def bi_shape_def by auto
  with "0.hyps" have "k = n" by simp
  then show ?case using "0.prems" by (simp add: scan_from_done)
next
  case (Suc j)
  from Suc.prems have k: "0 \<le> k" "k \<le> n" and tr: "0 \<le> t" "t < n"
    unfolding bfs_inv_def bi_shape_def by auto
  with Suc.hyps(2) have kn: "k < n" by simp
  have j: "j = nat n - nat (k + 1)" using Suc.hyps(2) k by (simp add: nat_add_distrib)
  note step = scan_from_step[OF k(1) kn, of res u t st]
  show ?case
  proof (cases "\<not> is_vis st k \<and> 0 < wt res u k")
    case False
    have e: "scan_from res n u t k st = scan_from res n u t (k + 1) st"
      by (rule trans[OF step]) (simp only: False if_False)
    from Suc.hyps(1)[OF j skip_inv[OF Suc.prems(1) kn False] Suc.prems(2)]
    show ?thesis unfolding e .
  next
    case True
    then have c: "\<not> is_vis st k" "0 < wt res u k" by auto
    note V = visit_inv[OF Suc.prems(1) kn Suc.prems(2) c]
    show ?thesis
    proof (cases "k = t")
      case kt: True
      have e: "scan_from res n u t k st = (visit u k st)\<lparr>bs_found := True\<rparr>"
        by (rule trans[OF step]) (use c kt in simp)
      have "bmeasure ((visit u k st)\<lparr>bs_found := True\<rparr>) = bmeasure (visit u k st)"
        by (simp add: bmeasure_def unvis_def)
      then show ?thesis unfolding e using V(2)[OF kt] V(3) by simp
    next
      case kt: False
      have e: "scan_from res n u t k st = scan_from res n u t (k + 1) (visit u k st)"
        by (rule trans[OF step]) (use c kt in simp)
      have nf: "\<not> bs_found (visit u k st)" using Suc.prems(2) by (simp add: visit_def)
      from Suc.hyps(1)[OF j V(1)[OF kt] nf] V(3)
      show ?thesis unfolding e by simp
    qed
  qed
qed

text \<open>One iteration of the outer loop.\<close>

lemma bfs_step_spec:
  assumes inv: "bfs_inv res n s t st u0 n" and ne: "\<not> queue_is_empty (bs_queue st)"
    and nf: "\<not> bs_found st"
  shows "\<exists>u. bfs_inv res n s t (bfs_step res n t st) u n"
    and "bmeasure (bfs_step res n t st) < bmeasure st"
proof -
  from inv obtain rk where sh: "bi_shape n s t st u0 n" and qu: "bi_queue n st"
    and tr: "bi_tree res n s st rk" and cl: "bi_closed res n st u0 n"
    unfolding bfs_inv_def by auto
  from sh have qok: "q_ok (bs_queue st)" unfolding bi_shape_def by simp
  from ne have sz: "0 < q_size (bs_queue st)" by (simp add: queue_is_empty_def)
  note D = dequeue_ok[OF qok sz]
  let ?u = "fst (queue_dequeue (bs_queue st))"
  let ?st = "st\<lparr>bs_queue := snd (queue_dequeue (bs_queue st))\<rparr>"
  have ql: "q_list (bs_queue st) \<noteq> []" using sz by (metis q_list_length length_0_conv less_numeral_extra(3))
  have uq: "?u \<in> queued st" unfolding queued_def D(1) using ql by simp
  with qu have u: "0 \<le> ?u" "?u < n" "is_vis st ?u" unfolding bi_queue_def by auto
  have e: "bfs_step res n t st = scan_from res n ?u t 0 ?st"
    by (simp add: bfs_step_def scan_from_def split: prod.splits)
  have acc: "is_vis ?st = is_vis st" "par ?st = par st" "unvis ?st = unvis st"
    "queued ?st = set (tl (q_list (bs_queue st)))"
    by (simp_all add: is_vis_def par_def unvis_def queued_def fun_eq_iff D(3))
  have sub: "queued ?st \<subseteq> queued st"
  proof
    fix x assume "x \<in> queued ?st"
    then have "x \<in> set (tl (q_list (bs_queue st)))" unfolding acc .
    then show "x \<in> queued st" unfolding queued_def using ql by (rule list.set_sel(2)[rotated])
  qed
  have other: "x \<in> queued ?st" if "x \<in> queued st" "x \<noteq> ?u" for x
  proof -
    from that(1) have "x \<in> set (hd (q_list (bs_queue st)) # tl (q_list (bs_queue st)))"
      unfolding queued_def using ql by simp
    with that(2) show ?thesis unfolding acc D(1) by simp
  qed
  have sh': "bi_shape n s t ?st ?u 0" using sh u D(2,4,5) unfolding bi_shape_def acc by auto
  have qu': "bi_queue n ?st" using qu sub unfolding bi_queue_def acc(1) by blast
  have tr': "bi_tree res n s ?st rk" using tr unfolding bi_tree_def acc .
  have cl': "bi_closed res n ?st ?u 0" unfolding bi_closed_def
  proof (rule disjI2, intro allI impI)
    fix a v
    assume h: "0 \<le> a \<and> a < n \<and> 0 \<le> v \<and> v < n \<and> is_vis ?st a \<and> a \<notin> queued ?st \<and> 0 < wt res a v"
    show "is_vis ?st v \<or> (a = ?u \<and> 0 \<le> v)"
    proof (cases "a = ?u")
      case True
      with h show ?thesis by simp
    next
      case False
      with h other have "a \<notin> queued st" by blast
      with h cl nf have "is_vis st v \<or> (a = u0 \<and> n \<le> v)"
        unfolding bi_closed_def acc(1) by blast
      with h show ?thesis unfolding acc(1) by auto
    qed
  qed
  have inv': "bfs_inv res n s t ?st ?u 0" unfolding bfs_inv_def using sh' qu' tr' cl' by blast
  have nf': "\<not> bs_found ?st" using nf by simp
  note S = scan_from_spec[OF inv' nf']
  show "\<exists>u. bfs_inv res n s t (bfs_step res n t st) u n" unfolding e using S by blast
  have "bmeasure ?st < bmeasure st" unfolding bmeasure_def acc using D(5) by simp
  with S show "bmeasure (bfs_step res n t st) < bmeasure st" unfolding e by simp
qed

lemma bfs_loop_spec:
  "bfs_inv res n s t st u0 n \<Longrightarrow>
   \<exists>st' u. bfs_loop res n t st = Some st' \<and> bfs_inv res n s t st' u n
          \<and> (queue_is_empty (bs_queue st') \<or> bs_found st')"
proof (induction "bmeasure st" arbitrary: st u0 rule: less_induct)
  case less
  show ?case
  proof (cases "\<not> queue_is_empty (bs_queue st) \<and> \<not> bs_found st")
    case False
    then have "bfs_loop res n t st = Some st" by (subst bfs_loop.simps) auto
    with False less.prems show ?thesis by auto
  next
    case True
    then have c: "\<not> queue_is_empty (bs_queue st)" "\<not> bs_found st" by auto
    from bfs_step_spec[OF less.prems c] obtain u where
      i: "bfs_inv res n s t (bfs_step res n t st) u n"
      and m: "bmeasure (bfs_step res n t st) < bmeasure st" by blast
    from less.hyps[OF m i] obtain st' u' where
      "bfs_loop res n t (bfs_step res n t st) = Some st'" "bfs_inv res n s t st' u' n"
      "queue_is_empty (bs_queue st') \<or> bs_found st'" by blast
    moreover have "bfs_loop res n t st = bfs_loop res n t (bfs_step res n t st)"
      using True by (subst bfs_loop.simps) simp
    ultimately show ?thesis by auto
  qed
qed

text \<open>Every marked vertex is joined to the source by its chain of parents.\<close>

lemma parent_chain_exists:
  assumes tr: "bi_tree res n s st rk" and s: "0 \<le> s" "s < n"
  shows "0 \<le> v \<Longrightarrow> v < n \<Longrightarrow> is_vis st v \<Longrightarrow>
     \<exists>c. parent_chain (bs_parent st) s (v # c) \<and> distinct (v # c)
        \<and> (\<forall>x \<in> set (v # c). 0 \<le> x \<and> x < n)
        \<and> (\<forall>(a, b) \<in> set (chain_edges (v # c)). 0 < wt res a b)
        \<and> (\<forall>x \<in> set c. rk x < rk v) \<and> last (v # c) = s"
proof (induction "rk v" arbitrary: v rule: less_induct)
  case less
  show ?case
  proof (cases "v = s")
    case True
    then have "parent_chain (bs_parent st) s (v # []) \<and> distinct (v # [])
        \<and> (\<forall>x \<in> set (v # []). 0 \<le> x \<and> x < n)
        \<and> (\<forall>(a, b) \<in> set (chain_edges (v # [])). 0 < wt res a b)
        \<and> (\<forall>x \<in> set []. rk x < rk v) \<and> last (v # []) = s"
      using s by simp
    then show ?thesis by blast
  next
    case False
    let ?w = "par st v"
    from tr less.prems False have w: "0 \<le> ?w" "?w < n" "is_vis st ?w" "0 < wt res ?w v"
      "rk ?w < rk v" unfolding bi_tree_def by blast+
    from less.hyps[OF w(5) w(1,2,3)] obtain c where
      c: "parent_chain (bs_parent st) s (?w # c)" "distinct (?w # c)"
      "\<forall>x \<in> set (?w # c). 0 \<le> x \<and> x < n"
      "\<forall>(a, b) \<in> set (chain_edges (?w # c)). 0 < wt res a b"
      "\<forall>x \<in> set c. rk x < rk ?w" "last (?w # c) = s" by blast
    have lt: "\<forall>x \<in> set (?w # c). rk x < rk v" using c(5) w(5) by auto
    then have "v \<notin> set (?w # c)" by auto
    then have "parent_chain (bs_parent st) s (v # ?w # c) \<and> distinct (v # ?w # c)
        \<and> (\<forall>x \<in> set (v # ?w # c). 0 \<le> x \<and> x < n)
        \<and> (\<forall>(a, b) \<in> set (chain_edges (v # ?w # c)). 0 < wt res a b)
        \<and> (\<forall>x \<in> set (?w # c). rk x < rk v) \<and> last (v # ?w # c) = s"
      using c lt False w less.prems by (simp add: par_def)
    then show ?thesis by blast
  qed
qed

lemma filter_not_replicate: "length (filter Not (replicate k False)) = k"
  by (induction k) auto

text \<open>What \<open>bfs_find_path\<close> returns.\<close>

lemma bfs_find_path_spec:
  assumes s: "0 \<le> s" "s < n" and t: "0 \<le> t" "t < n" and ne: "s \<noteq> t"
    and lp: "length parent = nat n"
  shows "\<exists>found parent'. bfs_find_path True res n s t parent = Some (found, parent')
      \<and> length parent' = nat n
      \<and> (found \<longrightarrow>
            (\<exists>c. parent_chain parent' s (t # c) \<and> distinct (t # c)
               \<and> (\<forall>x \<in> set (t # c). 0 \<le> x \<and> x < n)
               \<and> (\<forall>(a, b) \<in> set (chain_edges (t # c)). 0 < wt res a b)
               \<and> last (t # c) = s))
      \<and> (\<not> found \<longrightarrow>
            (\<exists>S. st_cut n s t S
               \<and> (\<forall>u \<in> S. \<forall>v \<in> {0..<n} - S. \<not> 0 < wt res u v)))"
proof -
  define st0 where "st0 = \<lparr>bs_visited = (replicate (nat n) False)[nat s := True],
                 bs_queue = snd (queue_enqueue (queue_create (nat n)) s),
                 bs_parent = parent[nat s := - 1],
                 bs_found = False\<rparr>"
  have n0: "0 < nat n" using s by simp
  have sl: "nat s < nat n" using s by simp
  note C = queue_create_ok[of "nat n"]
  have room: "q_size (queue_create (nat n)) < q_capacity (queue_create (nat n))"
    using n0 by (simp add: C)
  note E = enqueue_ok[OF C(1)[OF n0] room, of s]
  have iv: "is_vis st0 v = (v = s)" if "0 \<le> v" "v < n" for v
    using that s by (auto simp: st0_def is_vis_def nth_list_update eq_nat_nat_iff)
  have qd: "queued st0 = {s}" using E(2) by (simp add: st0_def queued_def C)
  have uv: "Suc (unvis st0) = nat n"
    using filter_not_update[of "nat s" "replicate (nat n) False"] sl
    by (simp add: st0_def unvis_def filter_not_replicate)
  have sh: "bi_shape n s t st0 s n" unfolding bi_shape_def
    using s t ne iv[OF s] iv[OF t] uv E(1,3,4) lp
    by (simp add: st0_def C)
  have qu: "bi_queue n st0" unfolding bi_queue_def qd using s iv[OF s] by simp
  have tr: "bi_tree res n s st0 (\<lambda>_. 0)" unfolding bi_tree_def using iv by auto
  have cl: "bi_closed res n st0 s n" unfolding bi_closed_def qd using iv by auto
  have inv: "bfs_inv res n s t st0 s n" unfolding bfs_inv_def using sh qu tr cl by blast
  from bfs_loop_spec[OF inv] obtain st' u where
    r: "bfs_loop res n t st0 = Some st'" and inv': "bfs_inv res n s t st' u n"
    and ex: "queue_is_empty (bs_queue st') \<or> bs_found st'" by blast
  have res: "bfs_find_path True res n s t parent = Some (bs_found st', bs_parent st')"
    using r by (simp add: bfs_find_path_def st0_def)
  from inv' obtain rk where sh': "bi_shape n s t st' u n" and tr': "bi_tree res n s st' rk"
    and cl': "bi_closed res n st' u n"
    unfolding bfs_inv_def by auto
  from sh' have lp': "length (bs_parent st') = nat n" and ft: "bs_found st' \<longleftrightarrow> is_vis st' t"
    and vs: "is_vis st' s" and qok: "q_ok (bs_queue st')"
    unfolding bi_shape_def by auto
  have A: "\<exists>c. parent_chain (bs_parent st') s (t # c) \<and> distinct (t # c)
               \<and> (\<forall>x \<in> set (t # c). 0 \<le> x \<and> x < n)
               \<and> (\<forall>(a, b) \<in> set (chain_edges (t # c)). 0 < wt res a b)
               \<and> last (t # c) = s" if "bs_found st'"
    using parent_chain_exists[OF tr' s t] that ft by blast
  have B: "\<exists>S. st_cut n s t S \<and> (\<forall>u \<in> S. \<forall>v \<in> {0..<n} - S. \<not> 0 < wt res u v)"
    if nf: "\<not> bs_found st'"
  proof -
    let ?S = "{v. 0 \<le> v \<and> v < n \<and> is_vis st' v}"
    from ex nf have "q_size (bs_queue st') = 0" by (simp add: queue_is_empty_def)
    then have qe: "queued st' = {}" by (simp add: queued_def q_list_def)
    have cut: "st_cut n s t ?S" unfolding st_cut_def using s vs ft nf by auto
    have "\<not> 0 < wt res a v" if "a \<in> ?S" "v \<in> {0..<n} - ?S" for a v
    proof
      assume p: "0 < wt res a v"
      from that have h: "0 \<le> a" "a < n" "is_vis st' a" "0 \<le> v" "v < n" "\<not> is_vis st' v" by auto
      with cl' nf qe p have "is_vis st' v \<or> (a = u \<and> n \<le> v)" unfolding bi_closed_def by blast
      with h show False by auto
    qed
    with cut show ?thesis by blast
  qed
  show ?thesis using res lp' A B by (intro exI[of _ "bs_found st'"] exI[of _ "bs_parent st'"]) simp
qed

text \<open>One round of the main loop either augments the flow or exhibits a saturated cut.\<close>

lemma flow_round_spec:
  assumes inv: "flow_inv cap n s t res val"
    and s: "0 \<le> s" "s < n" and t: "0 \<le> t" "t < n" and ne: "s \<noteq> t"
    and lp: "length parent = nat n"
    and fit: "cap_fits cap n" and cs: "cut_capacity cap n {s} \<le> INT_MAX" and v0: "0 \<le> val"
  shows "(\<exists>res' parent' d. flow_round True n s t (res, parent, val)
                               = Some (Some (res', parent', val + d))
            \<and> 0 < d \<and> flow_inv cap n s t res' (val + d) \<and> length parent' = nat n)
       \<or> (flow_round True n s t (res, parent, val) = Some None
            \<and> (\<exists>S. st_cut n s t S \<and> cut_capacity cap n S = val))"
proof -
  from bfs_find_path_spec[OF s t ne lp, of res] obtain found parent' where
    b: "bfs_find_path True res n s t parent = Some (found, parent')"
    and lp': "length parent' = nat n"
    and F: "found \<Longrightarrow> \<exists>c. parent_chain parent' s (t # c) \<and> distinct (t # c)
               \<and> (\<forall>x \<in> set (t # c). 0 \<le> x \<and> x < n)
               \<and> (\<forall>(a, b) \<in> set (chain_edges (t # c)). 0 < wt res a b)
               \<and> last (t # c) = s"
    and N: "\<not> found \<Longrightarrow> \<exists>S. st_cut n s t S \<and> (\<forall>u \<in> S. \<forall>v \<in> {0..<n} - S. \<not> 0 < wt res u v)"
    by blast
  from inv have ok: "res_ok cap n res"
    and cons: "\<And>u. 0 \<le> u \<Longrightarrow> u < n \<Longrightarrow> u \<noteq> s \<Longrightarrow> u \<noteq> t \<Longrightarrow> excess cap res n u = 0"
    and src: "excess cap res n s = val"
    unfolding flow_inv_alt by auto
  show ?thesis
  proof (cases found)
    case True
    from F[OF True] obtain c where c: "parent_chain parent' s (t # c)" "distinct (t # c)"
      "\<forall>x \<in> set (t # c). 0 \<le> x \<and> x < n"
      "\<forall>(a, b) \<in> set (chain_edges (t # c)). 0 < wt res a b" "last (t # c) = s" by blast
    define d where "d = chain_min res (t # c) INT_MAX"
    have pf: "find_path_flow res s t parent' = Some d"
      unfolding find_path_flow_def d_def by (rule find_path_flow_chain[OF c(1)])
    have dpos: "0 < d" unfolding d_def by (rule chain_min_pos[OF _ c(4)]) (simp add: INT_MAX_def)
    then have d0: "0 \<le> d" by simp
    have dle: "\<forall>(a, b) \<in> set (chain_edges (t # c)). d \<le> wt res a b"
      unfolding d_def using chain_min_edge by blast
    have up: "update_residual_graph res s t parent' d = Some (chain_update res (t # c) d)"
      unfolding update_residual_graph_def
      by (rule update_residual_chain[OF fit d0 c(1) ok c(2,3) dle])
    from chain_update_ok[OF ok c(2,3) _ dle] dpos
    have ok': "res_ok cap n (chain_update res (t # c) d)"
      and ex: "\<And>x. 0 \<le> x \<Longrightarrow> x < n \<Longrightarrow>
            excess cap (chain_update res (t # c) d) n x
              = excess cap res n x + (if x = last (t # c) then d else 0)
                  - (if x = hd (t # c) then d else 0)"
      by auto
    have inv': "flow_inv cap n s t (chain_update res (t # c) d) (val + d)"
      unfolding flow_inv_alt
    proof (intro conjI allI impI)
      show "res_ok cap n (chain_update res (t # c) d)" by (rule ok')
      show "excess cap (chain_update res (t # c) d) n s = val + d"
        using ex[OF s] src ne c(5) by simp
      fix u assume "0 \<le> u \<and> u < n \<and> u \<noteq> s \<and> u \<noteq> t"
      then show "excess cap (chain_update res (t # c) d) n u = 0"
        using ex[of u] cons[of u] c(5) by simp
    qed
    have c0: "st_cut n s t {s}" unfolding st_cut_def using s ne by auto
    have "val + d \<le> cut_capacity cap n {s}" by (rule flow_le_cut[OF inv' c0])
    with cs v0 d0 have "int32 (val + d) = val + d" by (intro int32_nonneg_id) simp_all
    then have "flow_round True n s t (res, parent, val)
        = Some (Some (chain_update res (t # c) d, parent', val + d))"
      using True by (simp add: flow_round_def b pf up)
    with dpos inv' lp' show ?thesis by blast
  next
    case False
    from N[OF False] obtain S where S: "st_cut n s t S"
      "\<forall>u \<in> S. \<forall>v \<in> {0..<n} - S. \<not> 0 < wt res u v" by blast
    from ok have nn: "\<And>a b. 0 \<le> a \<Longrightarrow> a < n \<Longrightarrow> 0 \<le> b \<Longrightarrow> b < n \<Longrightarrow> 0 \<le> wt res a b"
      unfolding res_ok_def by auto
    have sat: "wt res u v = 0" if "u \<in> S" "v \<in> {0..<n} - S" for u v
    proof -
      from that S(1) have "0 \<le> u" "u < n" "0 \<le> v" "v < n" unfolding st_cut_def by auto
      from nn[OF this] S(2) that show ?thesis by force
    qed
    have "val = cut_capacity cap n S" by (rule flow_eq_cut[OF inv S(1) sat])
    moreover have "flow_round True n s t (res, parent, val) = Some None"
      using False by (simp add: flow_round_def b)
    ultimately show ?thesis using S(1) by blast
  qed
qed

lemma max_flow_loop_spec:
  assumes s: "0 \<le> s" "s < n" and t: "0 \<le> t" "t < n" and ne: "s \<noteq> t"
    and fit: "cap_fits cap n" and cs: "cut_capacity cap n {s} \<le> INT_MAX"
  shows "flow_inv cap n s t res val \<Longrightarrow> length parent = nat n \<Longrightarrow> 0 \<le> val \<Longrightarrow>
     \<exists>v res'. max_flow_loop (\<lambda>_. True) n s t (res, parent, val) = Some v
        \<and> flow_inv cap n s t res' v \<and> val \<le> v
        \<and> (\<exists>S. st_cut n s t S \<and> cut_capacity cap n S = v)"
proof (induction "nat (cut_capacity cap n {s} - val)" arbitrary: res parent val rule: less_induct)
  case less
  have c0: "st_cut n s t {s}" unfolding st_cut_def using s ne by auto
  from flow_round_spec[OF less.prems(1) s t ne less.prems(2) fit cs less.prems(3)]
  consider res' parent' d where
      "flow_round True n s t (res, parent, val) = Some (Some (res', parent', val + d))"
      "0 < d" "flow_inv cap n s t res' (val + d)" "length parent' = nat n"
    | "flow_round True n s t (res, parent, val) = Some None"
      "\<exists>S. st_cut n s t S \<and> cut_capacity cap n S = val"
    by blast
  then show ?case
  proof cases
    case 1
    have "val + d \<le> cut_capacity cap n {s}" by (rule flow_le_cut[OF 1(3) c0])
    with 1(2) have m: "nat (cut_capacity cap n {s} - (val + d)) < nat (cut_capacity cap n {s} - val)"
      by simp
    have "0 \<le> val + d" using less.prems(3) 1(2) by simp
    from less.hyps[OF m 1(3,4) this] obtain v res'' where
      r: "max_flow_loop (\<lambda>_. True) n s t (res', parent', val + d) = Some v"
      "flow_inv cap n s t res'' v" "val + d \<le> v"
      "\<exists>S. st_cut n s t S \<and> cut_capacity cap n S = v" by blast
    have "max_flow_loop (\<lambda>_. True) n s t (res, parent, val) = Some v"
      by (subst max_flow_loop.simps) (simp add: 1(1) r(1))
    with r 1(2) show ?thesis by (intro exI[of _ v] exI[of _ res'']) simp
  next
    case 2
    have "max_flow_loop (\<lambda>_. True) n s t (res, parent, val) = Some val"
      by (subst max_flow_loop.simps) (simp add: 2(1))
    with 2(2) less.prems(1) show ?thesis by (intro exI[of _ val] exI[of _ res]) simp
  qed
qed

lemma flow_inv_initial:
  assumes "mat_shape n cap"
    and "\<forall>u v. 0 \<le> u \<and> u < n \<and> 0 \<le> v \<and> v < n \<longrightarrow> 0 \<le> wt cap u v"
  shows "flow_inv cap n s t cap 0"
  unfolding flow_inv_def excess_def using assms by simp

text \<open>The main loop computes the value of a maximum flow, which is that of a minimum cut.\<close>

lemma max_flow_loop_correct:
  assumes sh: "mat_shape n cap"
    and nn: "\<forall>u v. 0 \<le> u \<and> u < n \<and> 0 \<le> v \<and> v < n \<longrightarrow> 0 \<le> wt cap u v"
    and s: "0 \<le> s" "s < n" and t: "0 \<le> t" "t < n" and ne: "s \<noteq> t"
    and lp: "length parent = nat n"
    and fit: "cap_fits cap n" and cs: "cut_capacity cap n {s} \<le> INT_MAX"
  shows "\<exists>v res. max_flow_loop (\<lambda>_. True) n s t (cap, parent, 0) = Some v
        \<and> flow_inv cap n s t res v \<and> 0 \<le> v
        \<and> (\<exists>S. st_cut n s t S \<and> cut_capacity cap n S = v)
        \<and> (\<forall>S. st_cut n s t S \<longrightarrow> v \<le> cut_capacity cap n S)"
proof -
  have "(0::int) \<le> 0" by simp
  from max_flow_loop_spec[OF s t ne fit cs flow_inv_initial[OF sh nn] lp this]
  obtain v res where r: "max_flow_loop (\<lambda>_. True) n s t (cap, parent, 0) = Some v"
    "flow_inv cap n s t res v" "0 \<le> v" "\<exists>S. st_cut n s t S \<and> cut_capacity cap n S = v"
    by blast
  have "\<forall>S. st_cut n s t S \<longrightarrow> v \<le> cut_capacity cap n S"
    using flow_le_cut[OF r(2)] by blast
  with r show ?thesis by blast
qed

subsection \<open>Decomposing a unit flow into edge-disjoint paths\<close>

text \<open>The directed edges between consecutive vertices of a vertex sequence.\<close>

definition dedges :: "'a list \<Rightarrow> ('a \<times> 'a) list" where
  "dedges p = zip p (tl p)"

definition outd :: "('a \<times> 'a) set \<Rightarrow> 'a \<Rightarrow> nat" where
  "outd D u = card {v. (u, v) \<in> D}"

definition ind :: "('a \<times> 'a) set \<Rightarrow> 'a \<Rightarrow> nat" where
  "ind D u = card {v. (v, u) \<in> D}"

lemma dedges_Cons2 [simp]: "dedges (a # b # p) = (a, b) # dedges (b # p)"
  by (simp add: dedges_def)

lemma dedges_single [simp]: "dedges [a] = []" "dedges [] = []"
  by (simp_all add: dedges_def)

lemma dedges_fst: "(u, v) \<in> set (dedges p) \<Longrightarrow> u \<in> set (butlast p)"
  unfolding dedges_def by (induction p rule: induct_list012) auto

lemma dedges_snd: "(u, v) \<in> set (dedges p) \<Longrightarrow> v \<in> set (tl p)"
  unfolding dedges_def by (induction p rule: induct_list012) auto

lemma dedges_distinct: "distinct p \<Longrightarrow> distinct (dedges p)"
  unfolding dedges_def by (rule distinct_zipI1)

lemma dedges_out_card:
  "distinct p \<Longrightarrow> card {v. (u, v) \<in> set (dedges p)} = (if u \<in> set (butlast p) then 1 else 0)"
proof (induction p rule: induct_list012)
  case 1
  show ?case by simp
next
  case (2 a)
  show ?case by simp
next
  case (3 a b p)
  show ?case
  proof (cases "u = a")
    case True
    have "a \<notin> set (butlast (b # p))" using "3.prems" by (auto dest: in_set_butlastD)
    then have "{v. (a, v) \<in> set (dedges (b # p))} = {}" using dedges_fst[of a _ "b # p"] by blast
    then have "{v. (u, v) \<in> set (dedges (a # b # p))} = {b}" using True by auto
    then show ?thesis using True by simp
  next
    case False
    then have "{v. (u, v) \<in> set (dedges (a # b # p))} = {v. (u, v) \<in> set (dedges (b # p))}"
      by auto
    then show ?thesis using "3.IH"(2) "3.prems" False by simp
  qed
qed

lemma dedges_in_card:
  "distinct p \<Longrightarrow> card {v. (v, u) \<in> set (dedges p)} = (if u \<in> set (tl p) then 1 else 0)"
proof (induction p rule: induct_list012)
  case 1
  show ?case by simp
next
  case (2 a)
  show ?case by simp
next
  case (3 a b p)
  have IH: "card {v. (v, u) \<in> set (dedges (b # p))} = (if u \<in> set p then 1 else 0)"
    using "3.IH"(2) "3.prems" by simp
  show ?case
  proof (cases "u = b")
    case True
    have "b \<notin> set p" using "3.prems" by auto
    then have "{v. (v, b) \<in> set (dedges (b # p))} = {}" using dedges_snd[of _ b "b # p"] by auto
    then have "{v. (v, u) \<in> set (dedges (a # b # p))} = {a}" using True by auto
    then show ?thesis using True by simp
  next
    case False
    then have "{v. (v, u) \<in> set (dedges (a # b # p))} = {v. (v, u) \<in> set (dedges (b # p))}"
      by auto
    then show ?thesis using IH False by simp
  qed
qed

lemma finite_out: "finite D \<Longrightarrow> finite {v. (u, v) \<in> D}"
proof -
  assume f: "finite D"
  have "{v. (u, v) \<in> D} \<subseteq> snd ` D" by force
  then show ?thesis using f by (meson finite_imageI finite_subset)
qed

lemma finite_in: "finite D \<Longrightarrow> finite {v. (v, u) \<in> D}"
proof -
  assume f: "finite D"
  have "{v. (v, u) \<in> D} \<subseteq> fst ` D" by force
  then show ?thesis using f by (meson finite_imageI finite_subset)
qed

lemma outd_diff:
  assumes "finite D" "E \<subseteq> D"
  shows "outd (D - E) u = outd D u - outd E u"
proof -
  have "{v. (u, v) \<in> D - E} = {v. (u, v) \<in> D} - {v. (u, v) \<in> E}" by auto
  moreover have "{v. (u, v) \<in> E} \<subseteq> {v. (u, v) \<in> D}" using assms(2) by auto
  moreover have "finite {v. (u, v) \<in> E}" using finite_out[OF finite_subset[OF assms(2,1)]] .
  ultimately show ?thesis unfolding outd_def by (simp add: card_Diff_subset)
qed

lemma ind_diff:
  assumes "finite D" "E \<subseteq> D"
  shows "ind (D - E) u = ind D u - ind E u"
proof -
  have "{v. (v, u) \<in> D - E} = {v. (v, u) \<in> D} - {v. (v, u) \<in> E}" by auto
  moreover have "{v. (v, u) \<in> E} \<subseteq> {v. (v, u) \<in> D}" using assms(2) by auto
  moreover have "finite {v. (v, u) \<in> E}" using finite_in[OF finite_subset[OF assms(2,1)]] .
  ultimately show ?thesis unfolding ind_def by (simp add: card_Diff_subset)
qed

lemma outd_le: "finite D \<Longrightarrow> E \<subseteq> D \<Longrightarrow> outd E u \<le> outd D u"
  unfolding outd_def by (rule card_mono[OF finite_out]) auto

lemma ind_le: "finite D \<Longrightarrow> E \<subseteq> D \<Longrightarrow> ind E u \<le> ind D u"
  unfolding ind_def by (rule card_mono[OF finite_in]) auto

lemma rtrancl_path_dedges:
  "rtrancl_path (\<lambda>x y. (x, y) \<in> D) x xs y \<Longrightarrow>
   set (dedges (x # xs)) \<subseteq> D \<and> last (x # xs) = y"
  by (induction rule: rtrancl_path.induct) auto

text \<open>If more edges leave the source than enter it, the sink can be reached.\<close>

lemma surplus_reaches_sink:
  assumes fin: "finite D"
    and bal: "\<forall>u. u \<noteq> s \<and> u \<noteq> t \<longrightarrow> outd D u = ind D u"
    and sur: "ind D s < outd D s"
  shows "(s, t) \<in> D\<^sup>*"
proof (rule ccontr)
  assume nr: "(s, t) \<notin> D\<^sup>*"
  let ?R = "{v. (s, v) \<in> D\<^sup>*}"
  have RV: "?R \<subseteq> insert s (snd ` D)"
  proof
    fix v assume "v \<in> ?R"
    then have "(s, v) \<in> D\<^sup>*" by simp
    then show "v \<in> insert s (snd ` D)" by (cases rule: rtrancl.cases) force+
  qed
  have fR: "finite ?R" using RV fin by (meson finite_imageI finite_insert finite_subset)
  have sR: "s \<in> ?R" by simp
  let ?Out = "Sigma ?R (\<lambda>u. {v. (u, v) \<in> D})"
  let ?In = "Sigma ?R (\<lambda>u. {v. (v, u) \<in> D})"
  have cO: "card ?Out = (\<Sum>u \<in> ?R. outd D u)"
    unfolding outd_def by (rule card_SigmaI[OF fR]) (simp add: finite_out[OF fin])
  have cI: "card ?In = (\<Sum>u \<in> ?R. ind D u)"
    unfolding ind_def by (rule card_SigmaI[OF fR]) (simp add: finite_in[OF fin])
  have fI: "finite ?In" using fR finite_in[OF fin] by (intro finite_SigmaI) auto
  have inj: "inj_on (\<lambda>(u, v). (v, u)) ?Out" by (auto simp: inj_on_def)
  have "(\<lambda>(u, v). (v, u)) ` ?Out \<subseteq> ?In"
  proof
    fix x assume "x \<in> (\<lambda>(u, v). (v, u)) ` ?Out"
    then obtain u v where x: "x = (v, u)" and uv: "(s, u) \<in> D\<^sup>*" "(u, v) \<in> D" by auto
    from uv have "(s, v) \<in> D\<^sup>*" by (rule rtrancl_into_rtrancl)
    with uv(2) show "x \<in> ?In" unfolding x by simp
  qed
  from card_mono[OF fI this] have le: "card ?Out \<le> card ?In" by (simp add: card_image[OF inj])
  have "(\<Sum>u \<in> ?R. outd D u) = outd D s + (\<Sum>u \<in> ?R - {s}. outd D u)"
    using sum.remove[OF fR sR] by simp
  moreover have "(\<Sum>u \<in> ?R. ind D u) = ind D s + (\<Sum>u \<in> ?R - {s}. ind D u)"
    using sum.remove[OF fR sR] by simp
  moreover have "(\<Sum>u \<in> ?R - {s}. outd D u) = (\<Sum>u \<in> ?R - {s}. ind D u)"
  proof (rule sum.cong[OF refl])
    fix u assume "u \<in> ?R - {s}"
    then have "u \<noteq> s" "u \<noteq> t" using nr by auto
    then show "outd D u = ind D u" using bal by blast
  qed
  ultimately have "card ?In < card ?Out" using sur cO cI by simp
  with le show False by simp
qed

definition dpath :: "('a \<times> 'a) set \<Rightarrow> 'a \<Rightarrow> 'a \<Rightarrow> 'a list \<Rightarrow> bool" where
  "dpath D s t p = (p \<noteq> [] \<and> hd p = s \<and> last p = t \<and> set (dedges p) \<subseteq> D)"

lemma flow_decomposition:
  assumes "finite D" and "s \<noteq> t"
    and "\<forall>u. u \<noteq> s \<and> u \<noteq> t \<longrightarrow> outd D u = ind D u"
    and "outd D s = ind D s + k"
  shows "\<exists>ps. length ps = k \<and> (\<forall>p \<in> set ps. dpath D s t p)
            \<and> distinct (concat (map dedges ps))"
  using assms
proof (induction k arbitrary: D)
  case 0
  show ?case by (rule exI[of _ "[]"]) simp
next
  case (Suc k)
  have "ind D s < outd D s" using Suc.prems(4) by simp
  from surplus_reaches_sink[OF Suc.prems(1,3) this] have "(s, t) \<in> D\<^sup>*" .
  then have "(\<lambda>x y. (x, y) \<in> D)\<^sup>*\<^sup>* s t" by (simp add: rtranclp_rtrancl_eq)
  then obtain xs where "rtrancl_path (\<lambda>x y. (x, y) \<in> D) s xs t"
    by (auto simp: rtranclp_eq_rtrancl_path)
  then obtain xs' where xs: "rtrancl_path (\<lambda>x y. (x, y) \<in> D) s xs' t" "distinct (s # xs')"
    by (rule rtrancl_path_distinct)
  let ?p = "s # xs'"
  let ?E = "set (dedges ?p)"
  from rtrancl_path_dedges[OF xs(1)] have ED: "?E \<subseteq> D" and lp: "last ?p = t" by auto
  have ne: "xs' \<noteq> []" using lp Suc.prems(2) by auto
  have sb: "s \<in> set (butlast ?p)" using ne by simp
  have st: "s \<notin> set (tl ?p)" using xs(2) by simp
  have dec: "?p = butlast ?p @ [t]" using lp append_butlast_last_id[of ?p] by simp
  have "distinct (butlast ?p @ [t])" by (subst dec[symmetric]) (rule xs(2))
  then have tb: "t \<notin> set (butlast ?p)" by (simp only: distinct_append) auto
  have sp0: "set ?p = set (butlast ?p @ [t])" using dec by (rule arg_cong)
  have sp: "set ?p = insert t (set (butlast ?p))" by (rule trans[OF sp0]) simp
  have fD: "finite (D - ?E)" using Suc.prems(1) by simp
  have oE: "outd ?E u = (if u \<in> set (butlast ?p) then 1 else 0)" for u
    unfolding outd_def using dedges_out_card[OF xs(2)] by simp
  have iE: "ind ?E u = (if u \<in> set (tl ?p) then 1 else 0)" for u
    unfolding ind_def using dedges_in_card[OF xs(2)] by simp
  have mid: "u \<in> set (butlast ?p) \<longleftrightarrow> u \<in> set (tl ?p)" if "u \<noteq> s" "u \<noteq> t" for u
  proof -
    have "u \<in> set (butlast ?p) \<longleftrightarrow> u \<in> set ?p" using that(2) sp by auto
    also have "\<dots> \<longleftrightarrow> u \<in> set (tl ?p)" using that(1) by simp
    finally show ?thesis .
  qed
  have bal': "\<forall>u. u \<noteq> s \<and> u \<noteq> t \<longrightarrow> outd (D - ?E) u = ind (D - ?E) u"
  proof (intro allI impI)
    fix u assume u: "u \<noteq> s \<and> u \<noteq> t"
    then have "outd D u = ind D u" using Suc.prems(3) by blast
    then show "outd (D - ?E) u = ind (D - ?E) u"
      unfolding outd_diff[OF Suc.prems(1) ED] ind_diff[OF Suc.prems(1) ED] oE iE
      using mid u by simp
  qed
  have src': "outd (D - ?E) s = ind (D - ?E) s + k"
    unfolding outd_diff[OF Suc.prems(1) ED] ind_diff[OF Suc.prems(1) ED] oE iE
    using sb st Suc.prems(4) by simp
  from Suc.IH[OF fD Suc.prems(2) bal' src'] obtain ps where
    ps: "length ps = k" "\<forall>p \<in> set ps. dpath (D - ?E) s t p" "distinct (concat (map dedges ps))"
    by blast
  have sub: "set (concat (map dedges ps)) \<subseteq> D - ?E" using ps(2) unfolding dpath_def by auto
  have 1: "length (?p # ps) = Suc k" using ps(1) by simp
  have 2: "\<forall>p \<in> set (?p # ps). dpath D s t p"
    using ps(2) ED lp unfolding dpath_def by auto
  have 3: "distinct (concat (map dedges (?p # ps)))"
    using ps(3) dedges_distinct[OF xs(2)] sub by auto
  from 1 2 3 show ?case by blast
qed

subsection \<open>Unit capacities\<close>

definition unit_cap :: "int list list \<Rightarrow> int \<Rightarrow> bool" where
  "unit_cap cap n =
     (\<forall>u v. 0 \<le> u \<and> u < n \<and> 0 \<le> v \<and> v < n \<longrightarrow>
        (wt cap u v = 0 \<or> wt cap u v = 1) \<and> wt cap u v = wt cap v u)"

text \<open>The directed edges that carry one unit of flow.\<close>

definition flow_edges :: "int list list \<Rightarrow> int list list \<Rightarrow> int \<Rightarrow> (int \<times> int) set" where
  "flow_edges cap res n =
     {(u, v). 0 \<le> u \<and> u < n \<and> 0 \<le> v \<and> v < n \<and> wt cap u v - wt res u v = 1}"

lemma indicator_sum_card:
  "finite A \<Longrightarrow> (\<Sum>v \<in> A. if P v then (1::int) else 0) = int (card {v \<in> A. P v})"
  using sum.inter_filter[of A "\<lambda>_. 1::int" P] by simp

lemma unit_flow_degrees:
  assumes uc: "unit_cap cap n" and inv: "flow_inv cap n s t res val"
  defines "D \<equiv> flow_edges cap res n"
  shows "finite D"
    and "\<And>u v. (u, v) \<in> D \<Longrightarrow> (v, u) \<notin> D \<and> wt cap u v = 1 \<and> u \<noteq> v"
    and "\<And>u. 0 \<le> u \<Longrightarrow> u < n \<Longrightarrow> excess cap res n u = int (outd D u) - int (ind D u)"
    and "\<And>u. \<not> (0 \<le> u \<and> u < n) \<Longrightarrow> outd D u = 0 \<and> ind D u = 0"
proof -
  let ?f = "\<lambda>u v. wt cap u v - wt res u v"
  from inv have nn: "\<And>a b. 0 \<le> a \<Longrightarrow> a < n \<Longrightarrow> 0 \<le> b \<Longrightarrow> b < n \<Longrightarrow> 0 \<le> wt res a b"
    and pr: "\<And>a b. 0 \<le> a \<Longrightarrow> a < n \<Longrightarrow> 0 \<le> b \<Longrightarrow> b < n \<Longrightarrow>
        wt res a b + wt res b a = wt cap a b + wt cap b a"
    unfolding flow_inv_def by auto
  from uc have c01: "\<And>a b. 0 \<le> a \<Longrightarrow> a < n \<Longrightarrow> 0 \<le> b \<Longrightarrow> b < n \<Longrightarrow>
        wt cap a b = 0 \<or> wt cap a b = 1"
    unfolding unit_cap_def by blast
  have D: "(u, v) \<in> D \<longleftrightarrow> 0 \<le> u \<and> u < n \<and> 0 \<le> v \<and> v < n \<and> ?f u v = 1" for u v
    by (simp add: D_def flow_edges_def)
  have "D \<subseteq> {0..<n} \<times> {0..<n}" using D by auto
  then show "finite D" by (rule finite_subset) simp
  have skew: "?f a b = - ?f b a" if "0 \<le> a" "a < n" "0 \<le> b" "b < n" for a b
    using pr[OF that] by simp
  have range: "?f a b = 1 \<or> ?f a b = 0 \<or> ?f a b = - 1" if "0 \<le> a" "a < n" "0 \<le> b" "b < n" for a b
  proof -
    have "?f a b \<le> 1" using nn[OF that] c01[OF that] by auto
    moreover have "?f b a \<le> 1" using nn[OF that(3,4,1,2)] c01[OF that(3,4,1,2)] by auto
    ultimately show ?thesis using skew[OF that] by linarith
  qed
  show "(v, u) \<notin> D \<and> wt cap u v = 1 \<and> u \<noteq> v" if "(u, v) \<in> D" for u v
  proof -
    from that have r: "0 \<le> u" "u < n" "0 \<le> v" "v < n" and f: "?f u v = 1" unfolding D by auto
    have "?f v u = - 1" using skew[OF r] f by simp
    then have 1: "(v, u) \<notin> D" unfolding D by simp
    have 2: "wt cap u v = 1" using f nn[OF r] c01[OF r] by auto
    have 3: "u \<noteq> v" using f skew[OF r] by auto
    from 1 2 3 show ?thesis by simp
  qed
  show "excess cap res n u = int (outd D u) - int (ind D u)" if u: "0 \<le> u" "u < n" for u
  proof -
    have "excess cap res n u
        = (\<Sum>v \<in> {0..<n}. (if ?f u v = 1 then 1 else 0) - (if ?f v u = 1 then 1 else 0))"
      unfolding excess_def
    proof (rule sum.cong[OF refl])
      fix v assume "v \<in> {0..<n}"
      then have v: "0 \<le> v" "v < n" by auto
      show "?f u v = (if ?f u v = 1 then 1 else 0) - (if ?f v u = 1 then 1 else 0)"
        using range[OF u v] skew[OF u v] by auto
    qed
    also have "\<dots> = (\<Sum>v \<in> {0..<n}. if ?f u v = 1 then 1 else 0)
        - (\<Sum>v \<in> {0..<n}. if ?f v u = 1 then 1 else 0)"
      by (simp only: sum_subtractf)
    also have "(\<Sum>v \<in> {0..<n}. if ?f u v = 1 then 1 else 0) = int (card {v \<in> {0..<n}. ?f u v = 1})"
      by (rule indicator_sum_card) simp
    also have "(\<Sum>v \<in> {0..<n}. if ?f v u = 1 then 1 else 0) = int (card {v \<in> {0..<n}. ?f v u = 1})"
      by (rule indicator_sum_card) simp
    also have "{v \<in> {0..<n}. ?f u v = 1} = {v. (u, v) \<in> D}" using u unfolding D by auto
    also have "{v \<in> {0..<n}. ?f v u = 1} = {v. (v, u) \<in> D}" using u unfolding D by auto
    finally show ?thesis unfolding outd_def ind_def .
  qed
  show "outd D u = 0 \<and> ind D u = 0" if "\<not> (0 \<le> u \<and> u < n)" for u
  proof -
    have "{v. (u, v) \<in> D} = {}" "{v. (v, u) \<in> D} = {}" using that unfolding D by auto
    then show ?thesis unfolding outd_def ind_def by simp
  qed
qed

lemma traversed_dedges: "traversed p = map norm_edge (dedges p)"
  by (simp add: traversed_def dedges_def)

text \<open>A flow of value \<open>val\<close> in a unit network yields \<open>val\<close> edge-disjoint paths.\<close>

lemma unit_flow_paths:
  assumes uc: "unit_cap cap n" and inv: "flow_inv cap n s t res val"
    and s: "0 \<le> s" "s < n" and t: "0 \<le> t" "t < n" and ne: "s \<noteq> t" and v0: "0 \<le> val"
  shows "\<exists>ps. int (length ps) = val
      \<and> (\<forall>p \<in> set ps. p \<noteq> [] \<and> hd p = s \<and> last p = t
            \<and> (\<forall>(a, b) \<in> set (dedges p). 0 \<le> a \<and> a < n \<and> 0 \<le> b \<and> b < n \<and> wt cap a b = 1))
      \<and> distinct (concat (map traversed ps))"
proof -
  define D where "D = flow_edges cap res n"
  note U = unit_flow_degrees[OF uc inv, folded D_def]
  from inv have cons: "\<And>u. 0 \<le> u \<Longrightarrow> u < n \<Longrightarrow> u \<noteq> s \<Longrightarrow> u \<noteq> t \<Longrightarrow> excess cap res n u = 0"
    and src: "excess cap res n s = val"
    unfolding flow_inv_def by auto
  have bal: "\<forall>u. u \<noteq> s \<and> u \<noteq> t \<longrightarrow> outd D u = ind D u"
  proof (intro allI impI)
    fix u assume u: "u \<noteq> s \<and> u \<noteq> t"
    show "outd D u = ind D u"
    proof (cases "0 \<le> u \<and> u < n")
      case True
      then show ?thesis using cons[of u] U(3)[of u] u by simp
    next
      case False
      then show ?thesis using U(4) by simp
    qed
  qed
  have "int (outd D s) - int (ind D s) = val" using U(3)[OF s] src by simp
  then have sur: "outd D s = ind D s + nat val" using v0 by linarith
  from flow_decomposition[OF U(1) ne bal sur] obtain ps where
    ps: "length ps = nat val" "\<forall>p \<in> set ps. dpath D s t p" "distinct (concat (map dedges ps))"
    by blast
  have sub: "set (concat (map dedges ps)) \<subseteq> D" using ps(2) unfolding dpath_def by auto
  have inj: "inj_on norm_edge D"
  proof (rule inj_onI)
    fix x y assume xy: "x \<in> D" "y \<in> D" "norm_edge x = norm_edge y"
    obtain a b where x: "x = (a, b)" by (cases x)
    obtain c d where y: "y = (c, d)" by (cases y)
    from xy(3) have "(a = c \<and> b = d) \<or> (a = d \<and> b = c)"
      unfolding x y by (auto simp: norm_edge_def min_def max_def split: if_splits)
    moreover have "\<not> (a = d \<and> b = c)" using U(2)[of a b] xy(1,2) unfolding x y by auto
    ultimately show "x = y" unfolding x y by simp
  qed
  have "concat (map traversed ps) = map norm_edge (concat (map dedges ps))"
    by (induction ps) (simp_all add: traversed_dedges)
  moreover have "distinct (map norm_edge (concat (map dedges ps)))"
    using ps(3) inj_on_subset[OF inj sub] by (simp add: distinct_map)
  ultimately have 3: "distinct (concat (map traversed ps))" by simp
  have 2: "\<forall>p \<in> set ps. p \<noteq> [] \<and> hd p = s \<and> last p = t
            \<and> (\<forall>(a, b) \<in> set (dedges p). 0 \<le> a \<and> a < n \<and> 0 \<le> b \<and> b < n \<and> wt cap a b = 1)"
  proof
    fix p assume "p \<in> set ps"
    with ps(2) have p: "p \<noteq> []" "hd p = s" "last p = t" "set (dedges p) \<subseteq> D"
      unfolding dpath_def by auto
    have "0 \<le> a \<and> a < n \<and> 0 \<le> b \<and> b < n \<and> wt cap a b = 1" if "(a, b) \<in> set (dedges p)" for a b
    proof -
      from that p(4) have d: "(a, b) \<in> D" by blast
      then have "0 \<le> a \<and> a < n \<and> 0 \<le> b \<and> b < n" by (simp add: D_def flow_edges_def)
      with U(2)[OF d] show ?thesis by simp
    qed
    with p show "p \<noteq> [] \<and> hd p = s \<and> last p = t
            \<and> (\<forall>(a, b) \<in> set (dedges p). 0 \<le> a \<and> a < n \<and> 0 \<le> b \<and> b < n \<and> wt cap a b = 1)"
      by blast
  qed
  have 1: "int (length ps) = val" using ps(1) v0 by simp
  from 1 2 3 show ?thesis by blast
qed

text \<open>Edge-disjoint paths cross a cut through different edges.\<close>

lemma path_crosses_cut:
  "p \<noteq> [] \<Longrightarrow> hd p \<in> S \<Longrightarrow> last p \<notin> S \<Longrightarrow> \<exists>(a, b) \<in> set (dedges p). a \<in> S \<and> b \<notin> S"
proof (induction p rule: induct_list012)
  case 1
  then show ?case by simp
next
  case (2 a)
  then show ?case by simp
next
  case (3 a b p)
  show ?case
  proof (cases "b \<in> S")
    case True
    with "3.IH"(2) "3.prems" show ?thesis by auto
  next
    case False
    with "3.prems" show ?thesis by auto
  qed
qed

lemma paths_le_cut:
  assumes nn: "\<forall>u v. 0 \<le> u \<and> u < n \<and> 0 \<le> v \<and> v < n \<longrightarrow> 0 \<le> wt cap u v"
    and cut: "st_cut n s t S"
    and paths: "\<forall>p \<in> set ps. p \<noteq> [] \<and> hd p = s \<and> last p = t
        \<and> (\<forall>(a, b) \<in> set (dedges p). a \<noteq> b \<longrightarrow> 0 \<le> b \<and> b < n \<and> wt cap a b = 1)"
    and dis: "distinct (concat (map traversed ps))"
  shows "int (length ps) \<le> cut_capacity cap n S"
proof -
  let ?C = "S \<times> ({0..<n} - S)"
  from cut have SV: "S \<subseteq> {0..<n}" and sS: "s \<in> S" and tS: "t \<notin> S" unfolding st_cut_def by auto
  have fC: "finite ?C" using SV by (meson finite_SigmaI finite_Diff finite_atLeastLessThan_int finite_subset)
  have "\<exists>X. X \<subseteq> ?C \<and> card X = length ps \<and> (\<forall>x \<in> X. wt cap (fst x) (snd x) = 1)
          \<and> norm_edge ` X \<subseteq> set (concat (map traversed ps))"
    using paths dis
  proof (induction ps)
    case Nil
    show ?case by (rule exI[of _ "{}"]) simp
  next
    case (Cons p ps)
    from Cons.prems have d: "distinct (concat (map traversed ps))"
      and disj: "set (traversed p) \<inter> set (concat (map traversed ps)) = {}" by auto
    from Cons.IH[OF _ d] Cons.prems(1) obtain X where
      X: "X \<subseteq> ?C" "card X = length ps" "\<forall>x \<in> X. wt cap (fst x) (snd x) = 1"
      "norm_edge ` X \<subseteq> set (concat (map traversed ps))" by auto
    from Cons.prems(1) have p: "p \<noteq> []" "hd p = s" "last p = t"
      and pe: "\<And>a b. (a, b) \<in> set (dedges p) \<Longrightarrow> a \<noteq> b \<Longrightarrow> 0 \<le> b \<and> b < n \<and> wt cap a b = 1"
      by auto
    from path_crosses_cut[OF p(1), of S] p(2,3) sS tS obtain a b where
      ab: "(a, b) \<in> set (dedges p)" "a \<in> S" "b \<notin> S" by auto
    have abn: "a \<noteq> b" using ab by auto
    from pe[OF ab(1) abn] have b: "0 \<le> b" "b < n" "wt cap a b = 1" by auto
    have inC: "(a, b) \<in> ?C" using ab b by simp
    have "norm_edge (a, b) \<in> set (traversed p)" using ab(1) by (simp add: traversed_dedges)
    with disj have "norm_edge (a, b) \<notin> norm_edge ` X" using X(4) by blast
    then have nX: "(a, b) \<notin> X" by blast
    have fX: "finite X" using X(1) fC by (rule finite_subset)
    let ?X = "insert (a, b) X"
    have 1: "?X \<subseteq> ?C" using X(1) inC by simp
    have 2: "card ?X = length (p # ps)" using fX nX X(2) by simp
    have 3: "\<forall>x \<in> ?X. wt cap (fst x) (snd x) = 1" using X(3) b by simp
    have 4: "norm_edge ` ?X \<subseteq> set (concat (map traversed (p # ps)))"
      using X(4) \<open>norm_edge (a, b) \<in> set (traversed p)\<close> by auto
    from 1 2 3 4 show ?case by blast
  qed
  then obtain X where X: "X \<subseteq> ?C" "card X = length ps" "\<forall>x \<in> X. wt cap (fst x) (snd x) = 1"
    by blast
  have "int (length ps) = (\<Sum>x \<in> X. wt cap (fst x) (snd x))" using X(2,3) by simp
  also have "\<dots> \<le> (\<Sum>x \<in> ?C. wt cap (fst x) (snd x))"
  proof (rule sum_mono2[OF fC X(1)])
    fix x assume "x \<in> ?C - X"
    then have "0 \<le> fst x \<and> fst x < n \<and> 0 \<le> snd x \<and> snd x < n" using SV by auto
    then show "0 \<le> wt cap (fst x) (snd x)" using nn by blast
  qed
  also have "\<dots> = cut_capacity cap n S"
    unfolding cut_capacity_def by (simp add: sum.cartesian_product case_prod_unfold)
  finally show ?thesis .
qed

subsection \<open>Correctness of \<open>graph_max_flow\<close>\<close>

text \<open>Every adjacency entry carries a weight of at least 0, respectively exactly 1.\<close>

definition weights_nonneg :: "Graph \<Rightarrow> bool" where
  "weights_nonneg g = list_all (list_all (\<lambda>e. 0 \<le> en_weight e)) (g_adj g)"

definition unit_weights :: "Graph \<Rightarrow> bool" where
  "unit_weights g = list_all (list_all (\<lambda>e. en_weight e = 1)) (g_adj g)"

text \<open>
  A path from \<open>s\<close> to \<open>t\<close> is a vertex sequence whose consecutive vertices are adjacent;
  paths are edge-disjoint when no undirected edge is traversed twice, by one path or by
  two.
\<close>

definition st_path :: "Graph \<Rightarrow> int \<Rightarrow> int \<Rightarrow> int list \<Rightarrow> bool" where
  "st_path g s t p =
     (p \<noteq> [] \<and> hd p = s \<and> last p = t
      \<and> (\<forall>(a, b) \<in> set (dedges p). 0 \<le> a \<and> a < g_n g \<and> (\<exists>e \<in> set (adj_list g a). en_to e = b)))"

definition edge_disjoint_paths :: "Graph \<Rightarrow> int \<Rightarrow> int \<Rightarrow> int list list \<Rightarrow> bool" where
  "edge_disjoint_paths g s t ps =
     ((\<forall>p \<in> set ps. st_path g s t p) \<and> distinct (concat (map traversed ps)))"

lemma st_path_edge:
  assumes "st_path g s t p" and "(a, b) \<in> set (dedges p)"
  shows "0 \<le> a \<and> a < g_n g \<and> (\<exists>e \<in> set (adj_list g a). en_to e = b)"
proof -
  from assms(1) have "\<forall>x \<in> set (dedges p). case x of (a, b) \<Rightarrow>
      0 \<le> a \<and> a < g_n g \<and> (\<exists>e \<in> set (adj_list g a). en_to e = b)"
    unfolding st_path_def by (elim conjE)
  from bspec[OF this assms(2)] show ?thesis by simp
qed

lemma st_path_ends:
  "st_path g s t p \<Longrightarrow> p \<noteq> [] \<and> hd p = s \<and> last p = t"
  unfolding st_path_def by (elim conjE) simp

lemma capacity_is_weight_matrix: "build_capacity_matrix g = build_weight_matrix g"
  by (simp add: build_capacity_matrix_def build_weight_matrix_def)

lemma capacity_matrix_shape: "mat_shape (g_n g) (build_capacity_matrix g)"
proof -
  let ?n = "nat (g_n g)"
  let ?m = "replicate ?n (replicate ?n (0::int))"
  have a: "\<forall>a \<in> set (map int [0..<?n]). 0 \<le> a \<and> nat a < length ?m" by auto
  have d: "distinct (map int [0..<?n])" by (simp add: distinct_map)
  note F = fill_rows_spec[OF a d, of g]
  have "length (build_capacity_matrix g ! i) = ?n" if "i < ?n" for i
  proof -
    have "0 \<le> int i \<and> nat (int i) < length ?m" using that by simp
    with F have "weight_fill_rows g (map int [0..<?n]) ?m ! nat (int i)
        = (if int i \<in> set (map int [0..<?n]) then fill_vec (int i) (adj_list g (int i)) (?m ! nat (int i))
           else ?m ! nat (int i))" by blast
    then show ?thesis using that by (simp add: build_capacity_matrix_def split: if_splits)
  qed
  then show ?thesis unfolding mat_shape_def using F by (simp add: build_capacity_matrix_def)
qed

lemma adj_member: "graph_inv g \<Longrightarrow> 0 \<le> u \<Longrightarrow> u < g_n g \<Longrightarrow> adj_list g u \<in> set (g_adj g)"
proof -
  assume "graph_inv g" "0 \<le> u" "u < g_n g"
  then have "nat u < length (g_adj g)" using inv_alloc[of g] by (simp add: graph_alloc_def)
  then show ?thesis by (simp add: adj_list_def)
qed

lemma capacity_entry:
  assumes inv: "graph_inv g" and u: "0 \<le> u" "u < g_n g" and v: "0 \<le> v" "v < g_n g"
  shows "wt (build_capacity_matrix g) u v
           = (if u = v then 0 else graph_get_edge_weight (Some g) u v)"
  unfolding capacity_is_weight_matrix by (rule weight_matrix_entry[OF inv u v])

lemma capacity_of_entry:
  assumes inv: "graph_inv g" and u: "0 \<le> u" "u < g_n g" and ne: "u \<noteq> v"
    and e: "e \<in> set (adj_list g u)" "en_to e = v"
  shows "0 \<le> v \<and> v < g_n g \<and> wt (build_capacity_matrix g) u v = en_weight e"
proof -
  from inv_targets[OF inv u e(1)] e(2) have v: "0 \<le> v" "v < g_n g" by auto
  have "graph_get_edge_weight (Some g) u v = find_weight (adj_list g u) v"
    using u v by (simp add: graph_get_edge_weight_def in_bounds_def)
  with capacity_entry[OF inv u v] ne inv_uniform_weight(1)[OF inv u v e] v show ?thesis by simp
qed

lemma capacity_nonneg:
  assumes inv: "graph_inv g" and nn: "weights_nonneg g"
  shows "\<forall>u v. 0 \<le> u \<and> u < g_n g \<and> 0 \<le> v \<and> v < g_n g \<longrightarrow> 0 \<le> wt (build_capacity_matrix g) u v"
proof (intro allI impI)
  fix u v assume h: "0 \<le> u \<and> u < g_n g \<and> 0 \<le> v \<and> v < g_n g"
  then have u: "0 \<le> u" "u < g_n g" and v: "0 \<le> v" "v < g_n g" by auto
  have p: "\<forall>e \<in> set (adj_list g u). 0 \<le> en_weight e"
    using nn adj_member[OF inv u] by (auto simp: weights_nonneg_def list_all_iff)
  show "0 \<le> wt (build_capacity_matrix g) u v"
  proof (cases "u \<noteq> v \<and> (\<exists>e \<in> set (adj_list g u). en_to e = v)")
    case True
    then obtain e where e: "e \<in> set (adj_list g u)" "en_to e = v" and ne: "u \<noteq> v" by blast
    from capacity_of_entry[OF inv u ne e] p e(1) show ?thesis by simp
  next
    case False
    have "graph_get_edge_weight (Some g) u v = find_weight (adj_list g u) v"
      using u v by (simp add: graph_get_edge_weight_def in_bounds_def)
    then show ?thesis
      using capacity_entry[OF inv u v] False find_weight_absent[of "adj_list g u" v] by auto
  qed
qed

lemma capacity_unit:
  assumes inv: "graph_inv g" and un: "unit_weights g"
  shows "unit_cap (build_capacity_matrix g) (g_n g)"
  unfolding unit_cap_def
proof (intro allI impI)
  fix u v assume h: "0 \<le> u \<and> u < g_n g \<and> 0 \<le> v \<and> v < g_n g"
  then have u: "0 \<le> u" "u < g_n g" and v: "0 \<le> v" "v < g_n g" by auto
  have p: "\<forall>e \<in> set (adj_list g u). en_weight e = 1"
    using un adj_member[OF inv u] by (auto simp: unit_weights_def list_all_iff)
  have 1: "wt (build_capacity_matrix g) u v = 0 \<or> wt (build_capacity_matrix g) u v = 1"
  proof (cases "u \<noteq> v \<and> (\<exists>e \<in> set (adj_list g u). en_to e = v)")
    case True
    then obtain e where e: "e \<in> set (adj_list g u)" "en_to e = v" and ne: "u \<noteq> v" by blast
    from capacity_of_entry[OF inv u ne e] p e(1) show ?thesis by simp
  next
    case False
    have "graph_get_edge_weight (Some g) u v = find_weight (adj_list g u) v"
      using u v by (simp add: graph_get_edge_weight_def in_bounds_def)
    then show ?thesis
      using capacity_entry[OF inv u v] False find_weight_absent[of "adj_list g u" v] by auto
  qed
  have 2: "wt (build_capacity_matrix g) u v = wt (build_capacity_matrix g) v u"
    using weight_matrix_sym[OF inv] u v unfolding wm_sym_def capacity_is_weight_matrix by blast
  from 1 2 show "(wt (build_capacity_matrix g) u v = 0 \<or> wt (build_capacity_matrix g) u v = 1)
      \<and> wt (build_capacity_matrix g) u v = wt (build_capacity_matrix g) v u" by simp
qed

lemma sum_fits:
  fixes n B :: int
  assumes "finite A" and "\<forall>a \<in> A. f a * n \<le> B" and "int (card A) \<le> n" and "0 \<le> B"
  shows "sum f A \<le> B"
proof (cases "A = {}")
  case True
  then show ?thesis using assms(4) by simp
next
  case False
  then have "0 < card A" using assms(1) by (simp add: card_gt_0_iff)
  then have n0: "0 < n" using assms(3) by simp
  have "sum f A * n = (\<Sum>a \<in> A. f a * n)" by (rule sum_distrib_right)
  also have "\<dots> \<le> (\<Sum>a \<in> A. B)" by (rule sum_mono) (use assms(2) in blast)
  also have "\<dots> = int (card A) * B" by simp
  also have "\<dots> \<le> n * B" using assms(3,4) by (simp add: mult_right_mono)
  finally have "sum f A * n \<le> B * n" by (simp add: mult.commute)
  then show ?thesis using n0 by simp
qed

text \<open>
  When the weights of a graph fit, so do the entries of its capacity matrix, and the
  capacity of the cut around the source, which bounds every flow value.
\<close>

lemma capacity_entry_fits:
  assumes inv: "graph_inv g" and nn: "weights_nonneg g" and fit: "weights_fit g"
    and u: "0 \<le> u" "u < g_n g" and v: "0 \<le> v" "v < g_n g"
  shows "0 \<le> wt (build_capacity_matrix g) u v
       \<and> wt (build_capacity_matrix g) u v * g_n g \<le> INT_MAX"
proof (cases "u = v")
  case True
  then show ?thesis using capacity_entry[OF inv u v] by (simp add: INT_MAX_def)
next
  case False
  have p: "\<forall>e \<in> set (adj_list g u). 0 \<le> en_weight e"
    using nn adj_member[OF inv u] by (auto simp: weights_nonneg_def list_all_iff)
  from edge_weight_fits[OF inv fit u v p] capacity_entry[OF inv u v] False
  show ?thesis by simp
qed

lemma capacity_fits:
  assumes inv: "graph_inv g" and nn: "weights_nonneg g" and fit: "weights_fit g"
    and n2: "2 \<le> g_n g"
  shows "cap_fits (build_capacity_matrix g) (g_n g)"
  unfolding cap_fits_def
proof (intro allI impI)
  fix u v assume "0 \<le> u \<and> u < g_n g \<and> 0 \<le> v \<and> v < g_n g"
  then have u: "0 \<le> u" "u < g_n g" and v: "0 \<le> v" "v < g_n g" by auto
  let ?x = "wt (build_capacity_matrix g) u v" and ?y = "wt (build_capacity_matrix g) v u"
  from capacity_entry_fits[OF inv nn fit u v] have x: "0 \<le> ?x" "?x * g_n g \<le> INT_MAX" by auto
  from capacity_entry_fits[OF inv nn fit v u] have y: "0 \<le> ?y" "?y * g_n g \<le> INT_MAX" by auto
  have "?x * 2 \<le> ?x * g_n g" by (rule mult_left_mono[OF n2 x(1)])
  moreover have "?y * 2 \<le> ?y * g_n g" by (rule mult_left_mono[OF n2 y(1)])
  ultimately show "?x + ?y \<le> INT_MAX" using x(2) y(2) by linarith
qed

lemma capacity_source_cut_fits:
  assumes inv: "graph_inv g" and nn: "weights_nonneg g" and fit: "weights_fit g"
    and s: "0 \<le> s" "s < g_n g"
  shows "cut_capacity (build_capacity_matrix g) (g_n g) {s} \<le> INT_MAX"
proof -
  let ?A = "{0..<g_n g} - {s}"
  have "cut_capacity (build_capacity_matrix g) (g_n g) {s}
      = (\<Sum>v \<in> ?A. wt (build_capacity_matrix g) s v)"
    by (simp add: cut_capacity_def)
  also have "\<dots> \<le> INT_MAX"
  proof (rule sum_fits[where n = "g_n g"])
    show "finite ?A" by simp
    show "\<forall>a \<in> ?A. wt (build_capacity_matrix g) s a * g_n g \<le> INT_MAX"
      using capacity_entry_fits[OF inv nn fit s] by auto
    have "card ?A \<le> card {0..<g_n g}" by (rule card_mono) auto
    then show "int (card ?A) \<le> g_n g" using s by simp
    show "(0::int) \<le> INT_MAX" by (simp add: INT_MAX_def)
  qed
  finally show ?thesis .
qed

lemma max_flow_correct:
  assumes inv: "graph_inv g" and nn: "weights_nonneg g" and fit: "weights_fit g"
    and s: "0 \<le> s" "s < g_n g" and t: "0 \<le> t" "t < g_n g" and ne: "s \<noteq> t"
  shows "\<exists>v. graph_max_flow True (\<lambda>_. True) (Some g) s t = Some (Some v) \<and> 0 \<le> v
     \<and> (\<exists>S. st_cut (g_n g) s t S \<and> cut_capacity (build_capacity_matrix g) (g_n g) S = v)
     \<and> (\<forall>S. st_cut (g_n g) s t S \<longrightarrow> v \<le> cut_capacity (build_capacity_matrix g) (g_n g) S)
     \<and> (unit_weights g \<longrightarrow>
          (\<exists>ps. edge_disjoint_paths g s t ps \<and> int (length ps) = v)
          \<and> (\<forall>ps. edge_disjoint_paths g s t ps \<longrightarrow> int (length ps) \<le> v))"
proof -
  let ?n = "g_n g"
  let ?cap = "build_capacity_matrix g"
  have lp: "length (replicate (nat ?n) (0::int)) = nat ?n" by simp
  have n2: "2 \<le> ?n" using s t ne by simp
  note cf = capacity_fits[OF inv nn fit n2]
  note cs = capacity_source_cut_fits[OF inv nn fit s]
  from max_flow_loop_correct[OF capacity_matrix_shape capacity_nonneg[OF inv nn] s t ne lp cf cs]
  obtain v res where
    r: "max_flow_loop (\<lambda>_. True) ?n s t (?cap, replicate (nat ?n) 0, 0) = Some v"
    and fi: "flow_inv ?cap ?n s t res v" and v0: "0 \<le> v"
    and cutx: "\<exists>S. st_cut ?n s t S \<and> cut_capacity ?cap ?n S = v"
    and cuta: "\<forall>S. st_cut ?n s t S \<longrightarrow> v \<le> cut_capacity ?cap ?n S"
    by blast
  have res: "graph_max_flow True (\<lambda>_. True) (Some g) s t = Some (Some v)"
    using s t ne r by (simp add: graph_max_flow_def Let_def)
  have paths: "(\<exists>ps. edge_disjoint_paths g s t ps \<and> int (length ps) = v)
          \<and> (\<forall>ps. edge_disjoint_paths g s t ps \<longrightarrow> int (length ps) \<le> v)" if un: "unit_weights g"
  proof
    note uc = capacity_unit[OF inv un]
    from unit_flow_paths[OF uc fi s t ne v0] obtain ps where
      ps: "int (length ps) = v"
      "\<forall>p \<in> set ps. p \<noteq> [] \<and> hd p = s \<and> last p = t
            \<and> (\<forall>(a, b) \<in> set (dedges p). 0 \<le> a \<and> a < ?n \<and> 0 \<le> b \<and> b < ?n \<and> wt ?cap a b = 1)"
      "distinct (concat (map traversed ps))" by blast
    have "st_path g s t p" if "p \<in> set ps" for p
    proof -
      from ps(2) that have p: "p \<noteq> []" "hd p = s" "last p = t"
        and pe: "\<And>a b. (a, b) \<in> set (dedges p) \<Longrightarrow>
                   0 \<le> a \<and> a < ?n \<and> 0 \<le> b \<and> b < ?n \<and> wt ?cap a b = 1" by auto
      have "0 \<le> a \<and> a < ?n \<and> (\<exists>e \<in> set (adj_list g a). en_to e = b)"
        if "(a, b) \<in> set (dedges p)" for a b
      proof -
        from pe[OF that] have a: "0 \<le> a" "a < ?n" and b: "0 \<le> b" "b < ?n" and w: "wt ?cap a b = 1"
          by auto
        from capacity_entry[OF inv a b] w have "a \<noteq> b" "graph_get_edge_weight (Some g) a b \<noteq> 0"
          by (auto split: if_splits)
        then have "find_weight (adj_list g a) b \<noteq> 0"
          using a b by (simp add: graph_get_edge_weight_def in_bounds_def)
        from find_weight_nonzero[OF this] a show ?thesis by blast
      qed
      with p show ?thesis unfolding st_path_def by blast
    qed
    with ps(1,3) show "\<exists>ps. edge_disjoint_paths g s t ps \<and> int (length ps) = v"
      unfolding edge_disjoint_paths_def by blast
    from cutx obtain S where S: "st_cut ?n s t S" "cut_capacity ?cap ?n S = v" by blast
    show "\<forall>ps. edge_disjoint_paths g s t ps \<longrightarrow> int (length ps) \<le> v"
    proof (intro allI impI)
      fix ps assume ed: "edge_disjoint_paths g s t ps"
      have pun: "\<forall>e \<in> set (adj_list g a). en_weight e = 1" if "0 \<le> a" "a < ?n" for a
        using un adj_member[OF inv that] by (auto simp: unit_weights_def list_all_iff)
      have P: "\<forall>p \<in> set ps. p \<noteq> [] \<and> hd p = s \<and> last p = t
          \<and> (\<forall>(a, b) \<in> set (dedges p). a \<noteq> b \<longrightarrow> 0 \<le> b \<and> b < ?n \<and> wt ?cap a b = 1)"
      proof
        fix p assume "p \<in> set ps"
        with ed have sp: "st_path g s t p" unfolding edge_disjoint_paths_def by blast
        have "0 \<le> b \<and> b < ?n \<and> wt ?cap a b = 1" if "(a, b) \<in> set (dedges p)" "a \<noteq> b" for a b
        proof -
          from st_path_edge[OF sp that(1)] obtain e where a: "0 \<le> a" "a < ?n"
            and e: "e \<in> set (adj_list g a)" "en_to e = b" by blast
          from capacity_of_entry[OF inv a that(2) e] pun[OF a] e(1) show ?thesis by simp
        qed
        then have "\<forall>(a, b) \<in> set (dedges p). a \<noteq> b \<longrightarrow> 0 \<le> b \<and> b < ?n \<and> wt ?cap a b = 1"
          by fast
        with st_path_ends[OF sp] show "p \<noteq> [] \<and> hd p = s \<and> last p = t
          \<and> (\<forall>(a, b) \<in> set (dedges p). a \<noteq> b \<longrightarrow> 0 \<le> b \<and> b < ?n \<and> wt ?cap a b = 1)"
          by simp
      qed
      from ed have d: "distinct (concat (map traversed ps))" unfolding edge_disjoint_paths_def by simp
      from paths_le_cut[OF capacity_nonneg[OF inv nn] S(1) P d] S(2)
      show "int (length ps) \<le> v" by simp
    qed
  qed
  from res v0 cutx cuta paths show ?thesis by blast
qed

lemma built_negative_edge: "built negative_edge"
proof -
  have 0: "graph_create True True 2 = Some \<lparr>g_n = 2, g_adj = [[], []]\<rparr>"
    by (simp add: graph_create_def numeral_2_eq_2)
  have 1: "graph_add_weighted_edge True True (Some \<lparr>g_n = 2, g_adj = [[], []]\<rparr>) 0 1 (- 5)
      = (0, Some negative_edge)"
    by (simp add: graph_add_weighted_edge_def in_bounds_def
        edge_exists_simple_def count_neighbor_def adj_list_def negative_edge_def)
  show ?thesis by (rule built_add_weighted_edge[OF built_create[OF 0] 1])
qed

lemma max_flow_negative_edge:
  "graph_max_flow True (\<lambda>_. True) (Some negative_edge) 0 1 = Some (Some 0)"
  by code_simp

lemma max_flow_triangle: "graph_max_flow True (\<lambda>_. True) (Some triangle) 0 2 = Some (Some 2)"
  by code_simp

lemma max_flow_diamond: "graph_max_flow True (\<lambda>_. True) (Some diamond) 0 3 = Some (Some 7)"
  by code_simp

lemma capacity_negative_edge: "wt (build_capacity_matrix negative_edge) 0 1 = - 5"
  by code_simp

lemma cut_negative_edge:
  "st_cut 2 0 1 {0}"
  "cut_capacity (build_capacity_matrix negative_edge) 2 {0} = - 5"
  "st_cut 2 0 1 S \<Longrightarrow> S = {0}"
proof -
  have V: "{0..<2::int} = {0, 1}" by auto
  show "st_cut 2 0 1 {0}" by (simp add: st_cut_def)
  have "{0..<2::int} - {0} = {1}" unfolding V by auto
  then show "cut_capacity (build_capacity_matrix negative_edge) 2 {0} = - 5"
    unfolding cut_capacity_def by (simp add: capacity_negative_edge)
  show "S = {0}" if "st_cut 2 0 1 S"
    using that unfolding st_cut_def V by auto
qed

lemma paths_triangle: "edge_disjoint_paths triangle 0 2 [[0, 2], [0, 1, 2]]"
  by (simp add: edge_disjoint_paths_def st_path_def traversed_def norm_edge_def triangle_def
      adj_list_def dedges_def)

text \<open>
  When the weights do not fit, the flow value leaves the range of an \<open>int\<close>: on the
  triangle with three edges of weight 2000000000 the minimum cut between two vertices has
  capacity 4000000000 and the reported value is \<open>-294967296\<close>. When the allocations of a
  search fail, the loop ends and the function returns 1 with the flow found so far: on
  the graph of scenario S5, whose maximum flow is 7, a failure in the second search gives
  the value 3.
\<close>

lemma max_flow_heavy_triangle:
  "graph_max_flow True (\<lambda>_. True) (Some heavy_triangle) 0 2 = Some (Some (- 294967296))"
  by code_simp

lemma max_flow_search_allocation:
  "graph_max_flow True (\<lambda>i. i < 1) (Some diamond) 0 3 = Some (Some 3)"
  by code_simp

text \<open>
  C2 as stated fails on a graph with an edge of negative weight, which
  \<open>graph_add_weighted_edge\<close> accepts: the search only follows residual entries above 0.
  On two vertices joined by an edge of weight \<open>-5\<close> the function reports the value 0,
  while the only cut between the two vertices, \<open>{0}\<close>, has capacity \<open>-5\<close>.
\<close>

theorem max_flow_negative_weight_counterexample:
  "built negative_edge
   \<and> graph_max_flow True (\<lambda>_. True) (Some negative_edge) 0 1 = Some (Some 0)
   \<and> st_cut 2 0 1 {0}
   \<and> cut_capacity (build_capacity_matrix negative_edge) 2 {0} = - 5
   \<and> {S. st_cut 2 0 1 S} = {{0}}"
proof -
  have "{S. st_cut 2 0 1 S} = {{0}}" using cut_negative_edge(1,3) by blast
  with built_negative_edge max_flow_negative_edge cut_negative_edge(1,2) show ?thesis by simp
qed

text \<open>
  C2, amended. For every graph that satisfies the data-model invariant (every graph built
  through the interface does), whose edge weights are all at least 0 and fit (\<open>n\<close> times
  every edge weight is at most \<open>INT_MAX\<close>, so that no residual entry and no flow value
  leaves the range of an \<open>int\<close>), and for vertices \<open>s \<noteq> t\<close> in range, \<open>graph_max_flow\<close>, with
  its own allocations and those of every search succeeding, returns 1 with a value that
  is at least 0, that is the capacity of some \<open>s\<close>-\<open>t\<close> cut of the capacity matrix and at
  most the capacity of every \<open>s\<close>-\<open>t\<close> cut; the capacity matrix holds 0 on the diagonal and
  the stored edge weight elsewhere (0 where there is no edge). If moreover every edge
  weight is 1, there are that many pairwise edge-disjoint paths from \<open>s\<close> to \<open>t\<close>, and
  never more.
\<close>

theorem max_flow_equals_min_cut:
  assumes "graph_inv g" and "weights_nonneg g" and "weights_fit g"
    and "0 \<le> s" "s < g_n g" and "0 \<le> t" "t < g_n g" and "s \<noteq> t"
  shows "\<exists>v. graph_max_flow True (\<lambda>_. True) (Some g) s t = Some (Some v) \<and> 0 \<le> v
     \<and> (\<forall>a b. 0 \<le> a \<and> a < g_n g \<and> 0 \<le> b \<and> b < g_n g \<longrightarrow>
           wt (build_capacity_matrix g) a b
             = (if a = b then 0 else graph_get_edge_weight (Some g) a b))
     \<and> (\<exists>S. st_cut (g_n g) s t S \<and> cut_capacity (build_capacity_matrix g) (g_n g) S = v)
     \<and> (\<forall>S. st_cut (g_n g) s t S \<longrightarrow> v \<le> cut_capacity (build_capacity_matrix g) (g_n g) S)
     \<and> (unit_weights g \<longrightarrow>
          (\<exists>ps. edge_disjoint_paths g s t ps \<and> int (length ps) = v)
          \<and> (\<forall>ps. edge_disjoint_paths g s t ps \<longrightarrow> int (length ps) \<le> v))"
proof -
  have "\<forall>a b. 0 \<le> a \<and> a < g_n g \<and> 0 \<le> b \<and> b < g_n g \<longrightarrow>
           wt (build_capacity_matrix g) a b
             = (if a = b then 0 else graph_get_edge_weight (Some g) a b)"
    using capacity_entry[OF assms(1)] by blast
  with max_flow_correct[OF assms] show ?thesis by blast
qed

theorem max_flow_equals_min_cut_witness:
  "graph_inv triangle \<and> weights_nonneg triangle \<and> weights_fit triangle \<and> unit_weights triangle
   \<and> graph_max_flow True (\<lambda>_. True) (Some triangle) 0 2 = Some (Some 2)
   \<and> st_cut 3 0 2 {0}
   \<and> (2 :: int) \<le> cut_capacity (build_capacity_matrix triangle) 3 {0}
   \<and> edge_disjoint_paths triangle 0 2 [[0, 2], [0, 1, 2]]
   \<and> (\<exists>S. st_cut 3 0 2 S \<and> cut_capacity (build_capacity_matrix triangle) 3 S = 2)"
proof -
  have i: "graph_inv triangle" by (rule built_inv[OF built_triangle])
  have w: "weights_nonneg triangle" by (simp add: weights_nonneg_def triangle_def)
  have u: "unit_weights triangle" by (simp add: unit_weights_def triangle_def)
  have f: "weights_fit triangle" by (simp add: weights_fit_def triangle_def INT_MAX_def)
  have n: "g_n triangle = 3" by (simp add: triangle_def)
  have c: "st_cut 3 0 2 {0}" by (simp add: st_cut_def)
  from max_flow_equals_min_cut[OF i w f, of 0 2] max_flow_triangle
  have A: "\<forall>S. st_cut 3 0 2 S \<longrightarrow> 2 \<le> cut_capacity (build_capacity_matrix triangle) 3 S"
    and B: "\<exists>S. st_cut 3 0 2 S \<and> cut_capacity (build_capacity_matrix triangle) 3 S = 2"
    unfolding n by auto
  from A c have "(2 :: int) \<le> cut_capacity (build_capacity_matrix triangle) 3 {0}" by blast
  with i w f u max_flow_triangle c paths_triangle B show ?thesis by simp
qed

end
